(* ===== verification/Prelude.thy ===== *)
theory Prelude
  imports Main "HOL-Library.Word"
begin

section \<open>Bytes, errors and the JavaScript primitives shared by all components\<close>

text \<open>
  A \<open>Buffer\<close> is a list of 8-bit words, a JavaScript string made of ASCII text is a HOL
  \<open>string\<close>, a number is an \<open>int\<close> or a \<open>nat\<close> (the code only computes with integers far
  below \<open>2 ^ 53\<close>), and an exception is a value of \<open>js_error\<close>. A function that may throw
  returns \<open>js_error + 'a\<close>; \<open>bindE\<close> sequences such calls, so that the first
  exception ends the computation as a \<open>throw\<close> does.

  The collection \<open>wire\<close> gathers the rewrite rules on the byte-level primitives.
\<close>

unbundle bit_operations_syntax

named_theorems wire \<open>rewrite rules for the byte-level primitives\<close>

type_synonym byte = "8 word"
type_synonym bytes = "8 word list"

subsection \<open>Exceptions\<close>

text \<open>
  \<open>NodeError c\<close> is an exception raised by Node itself with code \<open>c\<close>; its message text is
  not part of the program and is modelled by the code. \<open>HandshakeError\<close> carries the extra
  fields that \<open>lib/handshake.js\<close> assigns to the error object.
\<close>

datatype error_fields = NoFields | Cause string | LengthField nat | CoreIdField string

datatype js_error =
    Error string
  | RangeError string
  | NodeError string
  | HandshakeError string error_fields

fun message :: "js_error \<Rightarrow> string" where
  "message (Error m) = m"
| "message (RangeError m) = m"
| "message (NodeError c) = c"
| "message (HandshakeError m f) = m"

definition bindE :: "'e + 'a \<Rightarrow> ('a \<Rightarrow> 'e + 'b) \<Rightarrow> 'e + 'b" where
  "bindE m f = (case m of Inl e \<Rightarrow> Inl e | Inr a \<Rightarrow> f a)"

lemma bindE_simps [simp]: "bindE (Inl e) f = Inl e" "bindE (Inr a) f = f a"
  by (simp_all add: bindE_def)

lemma bindE_Inr_iff: "bindE m f = Inr b \<longleftrightarrow> (\<exists>a. m = Inr a \<and> f a = Inr b)"
  by (cases m) simp_all

lemma bindE_Inl_iff: "bindE m f = Inl e \<longleftrightarrow> m = Inl e \<or> (\<exists>a. m = Inr a \<and> f a = Inl e)"
  by (cases m) simp_all

lemma bindE_cong [fundef_cong]:
  "m = m' \<Longrightarrow> (\<And>a. m' = Inr a \<Longrightarrow> f a = f' a) \<Longrightarrow> bindE m f = bindE m' f'"
  by (cases m') simp_all

lemma mod_window: "q * m \<le> n \<Longrightarrow> n < q * m + m \<Longrightarrow> n mod m = n - q * (m :: nat)"
  by (metis add_diff_inverse_nat less_diff_conv2 mod_less mod_mult_self3 add.commute not_less)

subsection \<open>Decimal and hexadecimal text\<close>

text \<open>The decimal form of a number inside a template literal.\<close>

definition hex_digits :: string where
  "hex_digits = ''0123456789abcdef''"

definition digit_char :: "nat \<Rightarrow> char" where
  "digit_char d = hex_digits ! d"

fun dec :: "nat \<Rightarrow> string" where
  "dec n = (if n < 10 then [digit_char n] else dec (n div 10) @ [digit_char (n mod 10)])"

declare dec.simps [simp del]

text \<open>\<open>Buffer.toString('hex')\<close>: two lower-case digits per byte.\<close>

definition hex_byte :: "byte \<Rightarrow> string" where
  "hex_byte b = [digit_char (unat b div 16), digit_char (unat b mod 16)]"

definition to_hex :: "bytes \<Rightarrow> string" where
  "to_hex bs = concat (map hex_byte bs)"

lemma unat_byte_less [simp]: "unat (b :: byte) < 256"
  using unsigned_less [of b] by simp

lemma unat_and_15_le: "unat ((b :: byte) AND 15) \<le> 15"
  using word_and_le1 [of b 15, THEN word_le_nat_alt [THEN iffD1]] by simp

lemma uint_byte_less [simp]: "uint (b :: byte) < 256"
  using unsigned_less [of b] by simp

lemma unat_div_16_less [simp]: "unat (b :: byte) div 16 < 16"
  using unat_byte_less [of b] by linarith

lemma hex_digits_distinct: "distinct hex_digits" and length_hex_digits: "length hex_digits = 16"
  by (simp_all add: hex_digits_def)

lemma digit_char_inj: "d < 16 \<Longrightarrow> e < 16 \<Longrightarrow> digit_char d = digit_char e \<Longrightarrow> d = e"
  by (simp add: digit_char_def nth_eq_iff_index_eq hex_digits_distinct length_hex_digits)

lemma digit_char_set: "d < 16 \<Longrightarrow> digit_char d \<in> set hex_digits"
  by (simp add: digit_char_def length_hex_digits)

lemma length_hex_byte [simp]: "length (hex_byte b) = 2"
  by (simp add: hex_byte_def)

lemma hex_byte_inj: "hex_byte a = hex_byte b \<Longrightarrow> a = b"
proof -
  assume "hex_byte a = hex_byte b"
  then have "unat a div 16 = unat b div 16" and "unat a mod 16 = unat b mod 16"
    by (auto simp: hex_byte_def intro!: digit_char_inj)
  then have "unat a = unat b" by (metis div_mult_mod_eq)
  then show "a = b" by (rule unsigned_word_eqI)
qed

lemma to_hex_Nil [simp]: "to_hex [] = []"
  and to_hex_Cons [simp]: "to_hex (b # bs) = hex_byte b @ to_hex bs"
  by (simp_all add: to_hex_def)

lemma length_to_hex [simp]: "length (to_hex bs) = 2 * length bs"
  by (induction bs) simp_all

lemma to_hex_inj: "to_hex xs = to_hex ys \<Longrightarrow> xs = ys"
proof (induction xs arbitrary: ys)
  case Nil
  then show ?case by (cases ys) (simp_all add: hex_byte_def)
next
  case (Cons x xs)
  then obtain y ys' where ys: "ys = y # ys'" by (cases ys) (simp_all add: hex_byte_def)
  with Cons.prems have "hex_byte x = hex_byte y \<and> to_hex xs = to_hex ys'" by simp
  with Cons.IH ys show ?case by (simp add: hex_byte_inj)
qed

lemma to_hex_chars: "c \<in> set (to_hex bs) \<Longrightarrow> c \<in> set hex_digits"
  by (induction bs) (auto simp: hex_byte_def intro: digit_char_set)

subsection \<open>Buffers\<close>

text \<open>
  \<open>buf.subarray(i, j)\<close> clamps both ends to the buffer. A big-endian 16-bit field is
  written with \<open>u16be\<close>; \<open>writeUInt16BE\<close> is Node's checked store of a number and
  \<open>readUInt16BE\<close> its checked load, which throw on a value or an offset out of range.
\<close>

definition subarray :: "bytes \<Rightarrow> nat \<Rightarrow> nat \<Rightarrow> bytes" where
  "subarray buf i j = take (j - i) (drop i buf)"

definition u16be :: "nat \<Rightarrow> bytes" where
  "u16be n = [word_of_nat (n div 256), word_of_nat n]"

definition writeUInt16BE :: "int \<Rightarrow> js_error + bytes" where
  "writeUInt16BE v =
     (if v < 0 \<or> v > 65535 then Inl (NodeError ''ERR_OUT_OF_RANGE'') else Inr (u16be (nat v)))"

definition readUInt16BE :: "bytes \<Rightarrow> nat \<Rightarrow> js_error + nat" where
  "readUInt16BE buf pos =
     (if pos + 1 < length buf then Inr (256 * unat (buf ! pos) + unat (buf ! (pos + 1)))
      else if length buf < 2 then Inl (NodeError ''ERR_BUFFER_OUT_OF_BOUNDS'')
      else Inl (NodeError ''ERR_OUT_OF_RANGE''))"

lemma length_u16be [simp, wire]: "length (u16be n) = 2"
  by (simp add: u16be_def)

lemma unat_word_of_nat_byte [wire]: "unat (word_of_nat n :: byte) = n mod 256"
  by (simp add: unat_of_nat)

lemma unat_word_of_int_byte [wire]: "unat (word_of_int v :: byte) = nat (v mod 256)"
  by (simp add: unsigned_of_int take_bit_eq_mod)

lemma u16be_value: "256 * unat (u16be n ! 0) + unat (u16be n ! 1) = n mod 65536"
proof -
  have "256 * (n div 256 mod 256) + n mod 256 = n mod 65536"
    using mod_mult2_eq [of n 256 256] by simp
  then show ?thesis by (simp add: u16be_def unat_word_of_nat_byte)
qed

lemma readUInt16BE_u16be [wire]: "readUInt16BE (u16be n @ xs) 0 = Inr (n mod 65536)"
  using u16be_value [of n] by (simp add: readUInt16BE_def nth_append)

lemma readUInt16BE_at [wire]:
  "length pre = pos \<Longrightarrow> readUInt16BE (pre @ u16be n @ xs) pos = Inr (n mod 65536)"
  using u16be_value [of n] by (auto simp: readUInt16BE_def nth_append)

lemma readUInt16BE_append:
  "pos + 1 < length buf \<Longrightarrow> readUInt16BE (buf @ xs) pos = readUInt16BE buf pos"
  by (simp add: readUInt16BE_def nth_append)

lemma readUInt16BE_bound: "readUInt16BE buf pos = Inr n \<Longrightarrow> n < 65536"
proof -
  assume "readUInt16BE buf pos = Inr n"
  then have n: "n = 256 * unat (buf ! pos) + unat (buf ! (pos + 1))"
    by (simp add: readUInt16BE_def split: if_splits)
  have "unat (buf ! pos) < 256" and "unat (buf ! (pos + 1)) < 256" by simp_all
  with n show ?thesis by linarith
qed

lemma subarray_append [wire]:
  "length pre = i \<Longrightarrow> j = i + length mid \<Longrightarrow> subarray (pre @ mid @ post) i j = mid"
  by (simp add: subarray_def)

lemma subarray_join:
  "i \<le> j \<Longrightarrow> j \<le> k \<Longrightarrow> subarray buf i j @ subarray buf j k = subarray buf i k"
  using take_add [of "j - i" "k - j" "drop i buf"] by (simp add: subarray_def)

lemma u16be_read:
  assumes "readUInt16BE buf pos = Inr v"
  shows "u16be v = subarray buf pos (pos + 2)" and "pos + 2 \<le> length buf"
proof -
  from assms have len: "pos + 1 < length buf"
      and v: "v = 256 * unat (buf ! pos) + unat (buf ! (pos + 1))"
    by (simp_all add: readUInt16BE_def split: if_splits)
  from len show "pos + 2 \<le> length buf" by simp
  have "subarray buf pos (pos + 2) = [buf ! pos, buf ! (pos + 1)]"
    using len by (simp add: subarray_def take_Suc_conv_app_nth numeral_2_eq_2 hd_drop_conv_nth)
  moreover have "v div 256 = unat (buf ! pos)" and "v mod 256 = unat (buf ! (pos + 1))"
    using v by simp_all
  then have "(word_of_nat (v div 256) :: byte) = buf ! pos"
      and "(word_of_nat v :: byte) = buf ! (pos + 1)"
    by (simp_all, metis unat_word_of_nat_byte unsigned_word_eqI)
  ultimately show "u16be v = subarray buf pos (pos + 2)" by (simp add: u16be_def)
qed

end
