(* ===== verification/Utf8.thy ===== *)
theory Utf8
  imports Prelude
begin

section \<open>UTF-8 text: \<open>Buffer.toString('utf8')\<close> and \<open>Buffer.from(string)\<close>\<close>

text \<open>
  \<open>lib/coap.js\<close> and \<open>lib/messages.js\<close> turn option values into JavaScript strings and
  compare them. A string is modelled by its list of code points. \<open>utf8_decode\<close> is the
  decoder of Node's standard library (the WHATWG rules): an ill-formed sequence becomes one
  U+FFFD for each maximal prefix of a well-formed one, and decoding never fails.
\<close>

type_synonym ustring = "nat list"

definition ustr :: "string \<Rightarrow> ustring" where
  "ustr s = map of_char s"

definition ascii_bytes :: "string \<Rightarrow> bytes" where
  "ascii_bytes s = map of_char s"

definition cont :: "byte \<Rightarrow> bool" where
  "cont b \<longleftrightarrow> 128 \<le> unat b \<and> unat b \<le> 191"

definition low6 :: "byte \<Rightarrow> nat" where
  "low6 b = unat b mod 64"

text \<open>The admissible range of the second byte after a three- or four-byte lead.\<close>

definition second3 :: "byte \<Rightarrow> byte \<Rightarrow> bool" where
  "second3 b c \<longleftrightarrow> cont c \<and> (unat b = 224 \<longrightarrow> 160 \<le> unat c) \<and> (unat b = 237 \<longrightarrow> unat c \<le> 159)"

definition second4 :: "byte \<Rightarrow> byte \<Rightarrow> bool" where
  "second4 b c \<longleftrightarrow> cont c \<and> (unat b = 240 \<longrightarrow> 144 \<le> unat c) \<and> (unat b = 244 \<longrightarrow> unat c \<le> 143)"

abbreviation replacement :: nat where
  "replacement \<equiv> 65533"

text \<open>One step: the code point at the front of a non-empty input, and the bytes it uses.\<close>

fun utf8_step :: "byte \<Rightarrow> bytes \<Rightarrow> nat \<times> nat" where
  "utf8_step b bs =
     (if unat b < 128 then (unat b, 1)
      else if 194 \<le> unat b \<and> unat b \<le> 223 then
        (case bs of
           c # _ \<Rightarrow> if cont c then (unat b mod 32 * 64 + low6 c, 2) else (replacement, 1)
         | [] \<Rightarrow> (replacement, 1))
      else if 224 \<le> unat b \<and> unat b \<le> 239 then
        (case bs of
           c # ds \<Rightarrow>
             if second3 b c then
               (case ds of
                  d # _ \<Rightarrow>
                    if cont d then (unat b mod 16 * 4096 + low6 c * 64 + low6 d, 3)
                    else (replacement, 2)
                | [] \<Rightarrow> (replacement, 2))
             else (replacement, 1)
         | [] \<Rightarrow> (replacement, 1))
      else if 240 \<le> unat b \<and> unat b \<le> 244 then
        (case bs of
           c # ds \<Rightarrow>
             if second4 b c then
               (case ds of
                  d # es \<Rightarrow>
                    if cont d then
                      (case es of
                         e # _ \<Rightarrow>
                           if cont e then
                             (unat b mod 8 * 262144 + low6 c * 4096 + low6 d * 64 + low6 e, 4)
                           else (replacement, 3)
                       | [] \<Rightarrow> (replacement, 3))
                    else (replacement, 2)
                | [] \<Rightarrow> (replacement, 2))
             else (replacement, 1)
         | [] \<Rightarrow> (replacement, 1))
      else (replacement, 1))"

declare utf8_step.simps [simp del]

function utf8_decode :: "bytes \<Rightarrow> ustring" where
  "utf8_decode [] = []"
| "utf8_decode (b # bs) = (case utf8_step b bs of (c, n) \<Rightarrow> c # utf8_decode (drop (n - 1) bs))"
  by pat_completeness auto
termination
  by (relation "measure length") auto

lemma utf8_step_ascii: "unat b < 128 \<Longrightarrow> utf8_step b bs = (unat b, 1)"
  by (simp add: utf8_step.simps)

lemma second3_low:
  assumes "second3 b c" and "224 \<le> unat b" and "unat b \<le> 239"
  shows "128 \<le> unat b mod 16 * 4096 + low6 c * 64 + low6 d"
proof (cases "unat b = 224")
  case True
  with assms have "160 \<le> unat c" and "unat c \<le> 191" by (auto simp: second3_def cont_def)
  then have "32 \<le> low6 c" using mod_window [of 2 64 "unat c"] by (simp add: low6_def)
  then show ?thesis by linarith
next
  case False
  with assms have "1 \<le> unat b mod 16" using mod_window [of 14 16 "unat b"] by simp
  then show ?thesis by linarith
qed

lemma second4_low:
  assumes "second4 b c" and "240 \<le> unat b" and "unat b \<le> 244"
  shows "128 \<le> unat b mod 8 * 262144 + low6 c * 4096 + low6 d * 64 + low6 e"
proof (cases "unat b = 240")
  case True
  with assms have "144 \<le> unat c" and "unat c \<le> 191" by (auto simp: second4_def cont_def)
  then have "16 \<le> low6 c" using mod_window [of 2 64 "unat c"] by (simp add: low6_def)
  then show ?thesis by linarith
next
  case False
  with assms have "1 \<le> unat b mod 8" using mod_window [of 30 8 "unat b"] by simp
  then show ?thesis by linarith
qed

text \<open>An ASCII code point comes from exactly one byte, itself.\<close>

lemma utf8_step_non_ascii:
  assumes "128 \<le> unat b" and "utf8_step b bs = (c, n)"
  shows "128 \<le> c"
proof -
  have two: "128 \<le> unat b mod 32 * 64 + low6 x" if "194 \<le> unat b" "unat b \<le> 223" for x
  proof -
    from that have "2 \<le> unat b mod 32" using mod_window [of 6 32 "unat b"] by simp
    then show ?thesis by linarith
  qed
  from assms show ?thesis
    by (auto simp: utf8_step.simps split: if_splits list.splits
             intro: two second3_low second4_low)
qed

lemma utf8_decode_ascii_one: "unat b < 128 \<Longrightarrow> utf8_decode [b] = [unat b]"
  by (simp add: utf8_step_ascii)

lemma utf8_decode_eq_ascii_one:
  assumes "c < 128"
  shows "utf8_decode bs = [c] \<longleftrightarrow> bs = [word_of_nat c]"
proof
  assume dec: "utf8_decode bs = [c]"
  then obtain b bs' where bs: "bs = b # bs'" by (cases bs) simp_all
  obtain k n where st: "utf8_step b bs' = (k, n)" by fastforce
  with dec bs have k: "k = c" and rest: "utf8_decode (drop (n - 1) bs') = []" by simp_all
  have b: "unat b < 128"
  proof (rule ccontr)
    assume "\<not> unat b < 128"
    with utf8_step_non_ascii [OF _ st] have "128 \<le> k" by simp
    with k assms show False by simp
  qed
  with st k have "unat b = c" and "n = 1" by (simp_all add: utf8_step_ascii)
  moreover from this rest have "bs' = []" by (cases bs') (auto split: prod.splits)
  ultimately show "bs = [word_of_nat c]" using bs by (auto simp: word_unat_eq_iff wire)
next
  assume "bs = [word_of_nat c]"
  with assms show "utf8_decode bs = [c]"
    by (simp add: utf8_step_ascii unat_word_of_nat_byte)
qed

lemma utf8_decode_ascii:
  "\<forall>b\<in>set bs. unat b < 128 \<Longrightarrow> utf8_decode bs = map unat bs"
  by (induction bs) (simp_all add: utf8_step_ascii)

end
