(* ===== verification/Coap.thy ===== *)
theory Coap
  imports Utf8
begin

section \<open>The CoAP codec (\<open>lib/coap.js\<close>)\<close>

text \<open>
  The constants, \<open>encode\<close> with \<open>encodeOptionHeader\<close>, \<open>decode\<close> with its option loop,
  \<open>uriPath\<close> and \<open>uriQuery\<close>. What a caller hands to \<open>encode\<close> (\<open>coap_input\<close>, with the
  optional fields of the typedef as options and arbitrary integers in the numeric fields) is
  kept apart from what \<open>decode\<close> returns (\<open>coap_message\<close>). Option numbers that \<open>decode\<close>
  computes may be the JavaScript value NaN: the code adds \<open>buf[pos++]\<close> without checking
  that the byte exists.
\<close>

subsection \<open>Constants\<close>

datatype type_name = CON | NON | ACK | RST

fun Type :: "type_name \<Rightarrow> int" where
  "Type CON = 0"
| "Type NON = 1"
| "Type ACK = 2"
| "Type RST = 3"

datatype code_name =
    Empty | GET | POST | PUT | DELETE
  | Created | Deleted | Valid | Changed | Content
  | BadRequest | Unauthorized | NotFound | MethodNotAllowed | InternalServerError

fun Code :: "code_name \<Rightarrow> int" where
  "Code Empty = 0x00"
| "Code GET = 0x01"
| "Code POST = 0x02"
| "Code PUT = 0x03"
| "Code DELETE = 0x04"
| "Code Created = 0x41"
| "Code Deleted = 0x42"
| "Code Valid = 0x43"
| "Code Changed = 0x44"
| "Code Content = 0x45"
| "Code BadRequest = 0x80"
| "Code Unauthorized = 0x81"
| "Code NotFound = 0x84"
| "Code MethodNotAllowed = 0x85"
| "Code InternalServerError = 0xA0"

datatype option_name =
    UriHost | ETag | UriPort | LocationPath | UriPath
  | ContentFormat | MaxAge | UriQuery | Accept | LocationQuery

fun Option :: "option_name \<Rightarrow> nat" where
  "Option UriHost = 3"
| "Option ETag = 4"
| "Option UriPort = 7"
| "Option LocationPath = 8"
| "Option UriPath = 11"
| "Option ContentFormat = 12"
| "Option MaxAge = 14"
| "Option UriQuery = 15"
| "Option Accept = 17"
| "Option LocationQuery = 20"

subsection \<open>Messages\<close>

text \<open>A non-negative JavaScript number, or NaN: comparisons with NaN are false.\<close>

datatype jsnum = Num nat | NaN

fun js_add :: "jsnum \<Rightarrow> jsnum \<Rightarrow> jsnum" where
  "js_add (Num a) (Num b) = Num (a + b)"
| "js_add _ _ = NaN"

fun js_less :: "jsnum \<Rightarrow> jsnum \<Rightarrow> bool" where
  "js_less (Num a) (Num b) \<longleftrightarrow> a < b"
| "js_less _ _ \<longleftrightarrow> False"

record 'n coap_option =
  number :: 'n
  val :: bytes

record coap_input =
  in_type :: int
  in_code :: int
  in_messageId :: int
  in_token :: "bytes option"
  in_options :: "int coap_option list option"
  in_payload :: "bytes option"

record coap_message =
  mtype :: int
  mcode :: int
  messageId :: int
  token :: bytes
  options :: "jsnum coap_option list"
  payload :: bytes

text \<open>\<open>x ?? []\<close> on an optional buffer or array.\<close>

fun or_empty :: "'a list option \<Rightarrow> 'a list" where
  "or_empty None = []"
| "or_empty (Some xs) = xs"

subsection \<open>Encoding\<close>

definition nibble :: "int \<Rightarrow> int" where
  "nibble v = (if v < 13 then v else if v < 269 then 13 else 14)"

definition ext_bytes :: "int \<Rightarrow> js_error + bytes" where
  "ext_bytes v =
     (if nibble v = 13 then Inr [word_of_int (v - 13)]
      else if nibble v = 14 then writeUInt16BE (v - 269)
      else Inr [])"

definition encodeOptionHeader :: "int \<Rightarrow> int \<Rightarrow> js_error + bytes" where
  "encodeOptionHeader delta len =
     bindE (ext_bytes delta) (\<lambda>d.
     bindE (ext_bytes len) (\<lambda>l.
       Inr (word_of_int (push_bit 4 (nibble delta) OR nibble len) # d @ l)))"

fun encode_options :: "int \<Rightarrow> int coap_option list \<Rightarrow> js_error + bytes" where
  "encode_options prev [] = Inr []"
| "encode_options prev (opt # opts) =
     (let delta = number opt - prev in
      if delta < 0 then Inl (RangeError ''CoAP options must be in ascending order'')
      else bindE (encodeOptionHeader delta (int (length (val opt)))) (\<lambda>h.
           bindE (encode_options (number opt) opts) (\<lambda>rest.
             Inr (h @ val opt @ rest))))"

definition encode_header :: "coap_input \<Rightarrow> bytes \<Rightarrow> bytes" where
  "encode_header msg tok =
     [word_of_int (push_bit 6 1 OR push_bit 4 (in_type msg AND 3) OR (int (length tok) AND 15)),
      word_of_int (in_code msg AND 255)]
     @ u16be (nat (in_messageId msg AND 65535))"

definition payload_part :: "bytes \<Rightarrow> bytes" where
  "payload_part p = (if p = [] then [] else 0xFF # p)"

definition encode :: "coap_input \<Rightarrow> js_error + bytes" where
  "encode msg =
     (let tok = or_empty (in_token msg) in
      if length tok > 8 then Inl (RangeError ''CoAP token max 8 bytes'')
      else bindE (encode_options 0 (sort_key number (or_empty (in_options msg)))) (\<lambda>opts.
        Inr (encode_header msg tok @ tok @ opts @ payload_part (or_empty (in_payload msg)))))"

subsection \<open>Decoding\<close>

text \<open>\<open>buf[i]\<close> used as a number: \<open>undefined\<close> past the end, which arithmetic turns to NaN.\<close>

definition byte_at :: "bytes \<Rightarrow> nat \<Rightarrow> jsnum" where
  "byte_at buf i = (if i < length buf then Num (unat (buf ! i)) else NaN)"

text \<open>The extended forms 13 and 14 of a delta or length nibble, and the next position.\<close>

definition read_ext :: "bytes \<Rightarrow> nat \<Rightarrow> nat \<Rightarrow> js_error + (jsnum \<times> nat)" where
  "read_ext buf pos n =
     (if n = 13 then Inr (js_add (Num 13) (byte_at buf pos), pos + 1)
      else if n = 14 then bindE (readUInt16BE buf pos) (\<lambda>v. Inr (Num (269 + v), pos + 2))
      else Inr (Num n, pos))"

text \<open>\<open>buf.subarray(pos, end)\<close> with a possibly NaN end, which counts as 0.\<close>

fun subarray_num :: "bytes \<Rightarrow> nat \<Rightarrow> jsnum \<Rightarrow> bytes" where
  "subarray_num buf i (Num j) = subarray buf i j"
| "subarray_num buf i NaN = []"

definition decode_option ::
    "bytes \<Rightarrow> nat \<Rightarrow> jsnum \<Rightarrow> js_error + (jsnum coap_option \<times> jsnum)" where
  "decode_option buf pos prev =
     (let head = buf ! pos;
          dN = unat (drop_bit 4 head AND 15);
          lN = unat (head AND 15)
      in if dN = 15 \<or> lN = 15 then Inl (Error ''CoAP option uses reserved nibble 15'')
      else bindE (read_ext buf (pos + 1) dN) (\<lambda>(delta, pos1).
           bindE (read_ext buf pos1 lN) (\<lambda>(len, pos2).
             let stop = js_add (Num pos2) len in
             if js_less (Num (length buf)) stop then Inl (Error ''CoAP option value truncated'')
             else Inr (\<lparr>number = js_add prev delta, val = subarray_num buf pos2 stop\<rparr>, stop))))"

text \<open>Evaluation of the codec on concrete messages.\<close>

lemmas encode_eval =
  encode_def encode_header_def u16be_def payload_part_def encodeOptionHeader_def ext_bytes_def
  nibble_def writeUInt16BE_def

lemma not_NaN: "x \<noteq> NaN \<Longrightarrow> \<exists>n. x = Num n"
  by (cases x) auto

text \<open>Every option consumes at least its head byte, so the loop terminates.\<close>

lemma read_ext_pos: "read_ext buf pos n = Inr (v, pos') \<Longrightarrow> pos \<le> pos'"
  by (auto simp: read_ext_def bindE_Inr_iff split: if_splits)

lemma decode_option_progress:
  assumes "decode_option buf pos prev = Inr (opt, Num pos')"
  shows "pos < pos'"
proof -
  from assms obtain d p1 l p2 where
      1: "read_ext buf (pos + 1) (unat (drop_bit 4 (buf ! pos) AND 15)) = Inr (d, p1)"
    and 2: "read_ext buf p1 (unat (buf ! pos AND 15)) = Inr (l, p2)"
    and 3: "js_add (Num p2) l = Num pos'"
    by (auto simp: decode_option_def Let_def bindE_Inr_iff split: if_splits)
  from 3 have "p2 \<le> pos'" by (cases l) auto
  with read_ext_pos [OF 1] read_ext_pos [OF 2] show ?thesis by simp
qed

function decode_loop ::
    "bytes \<Rightarrow> nat \<Rightarrow> jsnum \<Rightarrow> jsnum coap_option list \<Rightarrow>
     js_error + (jsnum coap_option list \<times> jsnum)" where
  "decode_loop buf pos prev opts =
     (if pos < length buf then
        if buf ! pos = 0xFF then Inr (opts, Num (pos + 1))
        else (case decode_option buf pos prev of
                Inl e \<Rightarrow> Inl e
              | Inr (opt, NaN) \<Rightarrow> Inr (opts @ [opt], NaN)
              | Inr (opt, Num pos') \<Rightarrow> decode_loop buf pos' (number opt) (opts @ [opt]))
      else Inr (opts, Num pos))"
  by pat_completeness auto
termination
  by (relation "measure (\<lambda>(buf, pos, prev, opts). length buf - pos)")
     (auto dest: decode_option_progress)

declare decode_loop.simps [simp del]

fun rest_from :: "bytes \<Rightarrow> jsnum \<Rightarrow> bytes" where
  "rest_from buf (Num pos) = (if pos < length buf then drop pos buf else [])"
| "rest_from buf NaN = []"

definition decode :: "bytes \<Rightarrow> js_error + coap_message" where
  "decode buf =
     (if length buf < 4 then Inl (Error ''CoAP message too short'')
      else let version = unat (drop_bit 6 (buf ! 0) AND 3) in
      if version \<noteq> 1 then Inl (Error (''CoAP version '' @ dec version @ '' unsupported''))
      else let tkl = unat (buf ! 0 AND 15) in
      if tkl > 8 then Inl (Error (''CoAP token length '' @ dec tkl @ '' > 8''))
      else bindE (readUInt16BE buf 2) (\<lambda>mid.
      if length buf < 4 + tkl then Inl (Error ''CoAP token truncated'')
      else bindE (decode_loop buf (4 + tkl) (Num 0) []) (\<lambda>(opts, pos).
        Inr \<lparr>mtype = uint (drop_bit 4 (buf ! 0) AND 3), mcode = uint (buf ! 1),
             messageId = int mid, token = subarray buf 4 (4 + tkl),
             options = opts, payload = rest_from buf pos\<rparr>)))"

lemmas decode_eval =
  decode_def readUInt16BE_def decode_loop.simps decode_option_def read_ext_def byte_at_def
  subarray_def Let_def

subsection \<open>Uri-Path and Uri-Query\<close>

fun join_with :: "ustring \<Rightarrow> ustring list \<Rightarrow> ustring" where
  "join_with sep [] = []"
| "join_with sep [x] = x"
| "join_with sep (x # y # ys) = x @ sep @ join_with sep (y # ys)"

definition uriPath :: "coap_message \<Rightarrow> ustring" where
  "uriPath msg =
     join_with (ustr ''/'')
       (map (\<lambda>opt. utf8_decode (val opt))
         (filter (\<lambda>opt. number opt = Num (Option UriPath)) (options msg)))"

definition uriQuery :: "coap_message \<Rightarrow> ustring list" where
  "uriQuery msg =
     map (\<lambda>opt. utf8_decode (val opt))
       (filter (\<lambda>opt. number opt = Num (Option UriQuery)) (options msg))"


subsection \<open>Decoding what was encoded\<close>

lemma header_byte_table:
  "\<forall>t\<in>set [0..3]. \<forall>l\<in>set [0..8].
     let b = word_of_int (push_bit 6 1 OR push_bit 4 t OR (l AND 15)) :: byte in
     unat (drop_bit 6 b AND 3) = 1 \<and> uint (drop_bit 4 b AND 3) = t \<and> unat (b AND 15) = nat l"
  by code_simp

lemma header_byte:
  assumes "0 \<le> t" and "t \<le> 3" and "0 \<le> l" and "l \<le> 8"
  shows "unat (drop_bit 6 (word_of_int (push_bit 6 1 OR push_bit 4 t OR (l AND 15)) :: byte) AND 3) = 1"
    and "uint (drop_bit 4 (word_of_int (push_bit 6 1 OR push_bit 4 t OR (l AND 15)) :: byte) AND 3) = t"
    and "unat ((word_of_int (push_bit 6 1 OR push_bit 4 t OR (l AND 15)) :: byte) AND 15) = nat l"
  using assms header_byte_table unfolding Let_def set_upto by (meson atLeastAtMost_iff)+

lemma option_head_table:
  "\<forall>d\<in>set [0..14]. \<forall>l\<in>set [0..14].
     let b = word_of_int (push_bit 4 d OR l) :: byte in
     unat (drop_bit 4 b AND 15) = nat d \<and> unat (b AND 15) = nat l \<and> b \<noteq> 0xFF"
  by code_simp

lemma option_head:
  assumes "0 \<le> d" "d \<le> 14" "0 \<le> l" "l \<le> 14"
  shows "unat (drop_bit 4 (word_of_int (push_bit 4 d OR l) :: byte) AND 15) = nat d"
    and "unat ((word_of_int (push_bit 4 d OR l) :: byte) AND 15) = nat l"
    and "(word_of_int (push_bit 4 d OR l) :: byte) \<noteq> 0xFF"
  using assms option_head_table unfolding Let_def set_upto by (meson atLeastAtMost_iff)+

lemma nibble_bounds [simp]: "0 \<le> v \<Longrightarrow> 0 \<le> nibble v" "nibble v \<le> 14"
  by (simp_all add: nibble_def)

lemma nibble_forms: "nibble v < 13 \<or> nibble v = 13 \<or> nibble v = 14"
  by (simp add: nibble_def)

text \<open>Reading back the extended form of a number.\<close>

lemma read_ext_ext_bytes:
  assumes "ext_bytes v = Inr bs" and "0 \<le> v" and "length pre = pos"
  shows "read_ext (pre @ bs @ post) pos (nat (nibble v)) = Inr (Num (nat v), pos + length bs)"
proof -
  consider "v < 13" | "13 \<le> v" "v < 269" | "269 \<le> v" by linarith
  then show ?thesis
  proof cases
    case 1
    with assms show ?thesis by (auto simp: ext_bytes_def nibble_def read_ext_def)
  next
    case 2
    with assms have bs: "bs = [word_of_int (v - 13)]" by (simp add: ext_bytes_def nibble_def)
    have "unat (word_of_int (v - 13) :: byte) = nat ((v - 13) mod 256)"
      by (rule unat_word_of_int_byte)
    with 2 have "unat (word_of_int (v - 13) :: byte) = nat (v - 13)" by simp
    with 2 bs assms show ?thesis
      by (auto simp: read_ext_def nibble_def byte_at_def nth_append)
  next
    case 3
    with assms have "v - 269 \<le> 65535" and bs: "bs = u16be (nat (v - 269))"
      by (simp_all add: ext_bytes_def nibble_def writeUInt16BE_def split: if_splits)
    with 3 assms show ?thesis
      by (simp add: read_ext_def nibble_def wire nat_diff_distrib)
  qed
qed

lemma decode_option_encoded:
  assumes h: "encodeOptionHeader (int d) (int (length v)) = Inr h" and pos: "length pre = pos"
    and buf: "buf = pre @ h @ v @ post"
  shows "decode_option buf pos (Num p) =
           Inr (\<lparr>number = Num (p + d), val = v\<rparr>, Num (pos + length h + length v))"
    and "buf ! pos \<noteq> 0xFF"
proof -
  let ?hd = "word_of_int (push_bit 4 (nibble (int d)) OR nibble (int (length v))) :: byte"
  from h obtain ds ls where ds: "ext_bytes (int d) = Inr ds"
      and ls: "ext_bytes (int (length v)) = Inr ls" and hh: "h = ?hd # ds @ ls"
    by (auto simp: encodeOptionHeader_def bindE_Inr_iff)
  have hd: "buf ! pos = ?hd" using pos hh buf by (simp add: nth_append)
  note head = option_head [of "nibble (int d)" "nibble (int (length v))", simplified]
  from head hd show "buf ! pos \<noteq> 0xFF" by simp
  have 1: "read_ext buf (Suc pos) (nat (nibble (int d))) = Inr (Num d, Suc (pos + length ds))"
    using read_ext_ext_bytes [OF ds, of "pre @ [?hd]" "Suc pos" "ls @ v @ post"] pos hh buf by simp
  have 2: "read_ext buf (Suc (pos + length ds)) (nat (nibble (int (length v)))) =
      Inr (Num (length v), Suc (pos + length ds + length ls))"
    using read_ext_ext_bytes [OF ls, of "pre @ [?hd] @ ds" "Suc (pos + length ds)" "v @ post"]
      pos hh buf by simp
  have 3: "subarray buf (Suc (pos + length ds + length ls)) (Suc (pos + length ds + length ls + length v)) = v"
    using pos hh buf by (simp add: subarray_def)
  have n15: "nat (nibble w) \<noteq> 15" for w using nibble_bounds(2) [of w] by linarith
  have lh: "length h = Suc (length ds + length ls)" using hh by simp
  have lb: "Suc (pos + length ds + length ls + length v) \<le> length buf" using pos hh buf by simp
  from 1 2 3 lb show "decode_option buf pos (Num p) =
      Inr (\<lparr>number = Num (p + d), val = v\<rparr>, Num (pos + length h + length v))"
    by (simp add: decode_option_def Let_def hd head n15 lh)
qed

definition as_decoded :: "int coap_option \<Rightarrow> jsnum coap_option" where
  "as_decoded opt = \<lparr>number = Num (nat (number opt)), val = val opt\<rparr>"

fun last_number :: "int \<Rightarrow> int coap_option list \<Rightarrow> int" where
  "last_number prev [] = prev"
| "last_number prev (opt # opts) = last_number (number opt) opts"

text \<open>The loop reads the encoded options one by one and stands before what follows them.\<close>

lemma decode_loop_encoded:
  assumes "encode_options prev opts = Inr bs" and "length pre = pos" and "0 \<le> prev"
  shows "decode_loop (pre @ bs @ tail) pos (Num (nat prev)) acc =
           decode_loop (pre @ bs @ tail) (pos + length bs) (Num (nat (last_number prev opts)))
             (acc @ map as_decoded opts)"
  using assms
proof (induction opts arbitrary: prev bs pre pos acc)
  case Nil
  then show ?case by simp
next
  case (Cons opt opts)
  from Cons.prems(1) obtain h rest where delta: "prev \<le> number opt"
      and h: "encodeOptionHeader (number opt - prev) (int (length (val opt))) = Inr h"
      and rest: "encode_options (number opt) opts = Inr rest"
      and bs: "bs = h @ val opt @ rest"
    by (auto simp: Let_def bindE_Inr_iff split: if_splits)
  let ?buf = "pre @ bs @ tail"
  from delta obtain d where d: "number opt - prev = int d" by (metis diff_ge_0_iff_ge nonneg_int_cases)
  from h d have h': "encodeOptionHeader (int d) (int (length (val opt))) = Inr h" by simp
  have len: "pos < length ?buf"
    using Cons.prems(2) bs h by (auto simp: encodeOptionHeader_def bindE_Inr_iff)
  have num: "nat prev + d = nat (number opt)" using d delta Cons.prems(3) by linarith
  have buf: "?buf = pre @ h @ val opt @ rest @ tail" using bs by simp
  note step = decode_option_encoded(1) [OF h' Cons.prems(2) buf, of "nat prev"]
    decode_option_encoded(2) [OF h' Cons.prems(2) buf]
  have "decode_loop ?buf pos (Num (nat prev)) acc =
      decode_loop ?buf (pos + length h + length (val opt)) (Num (nat (number opt)))
        (acc @ [as_decoded opt])"
    using step len num by (subst decode_loop.simps) (simp add: as_decoded_def)
  also have "\<dots> = decode_loop ?buf (pos + length bs) (Num (nat (last_number prev (opt # opts))))
        (acc @ map as_decoded (opt # opts))"
    using Cons.IH [OF rest, of "pre @ h @ val opt" "pos + length h + length (val opt)"
        "acc @ [as_decoded opt]"] Cons.prems(2,3) delta bs by (simp add: add.assoc)
  finally show ?case .
qed

lemma decode_loop_payload:
  assumes "encode_options prev opts = Inr bs" and "length pre = pos" and "0 \<le> prev"
  shows "decode_loop (pre @ bs @ payload_part p) pos (Num (nat prev)) acc =
           Inr (acc @ map as_decoded opts, Num (pos + length bs + (if p = [] then 0 else 1)))"
  unfolding decode_loop_encoded [OF assms]
  using assms(2) by (subst decode_loop.simps) (simp add: payload_part_def nth_append)

definition decoded_form :: "coap_input \<Rightarrow> coap_message" where
  "decoded_form msg =
     \<lparr>mtype = in_type msg AND 3, mcode = in_code msg AND 255,
      messageId = in_messageId msg AND 65535, token = or_empty (in_token msg),
      options = map as_decoded (sort_key number (or_empty (in_options msg))),
      payload = or_empty (in_payload msg)\<rparr>"

lemma mask_mod: "x AND 3 = x mod 4" "x AND 255 = x mod 256" "x AND 65535 = x mod (65536::int)"
  using take_bit_eq_mask [of 2 x] take_bit_eq_mask [of 8 x] take_bit_eq_mask [of 16 x]
  by (simp_all add: take_bit_eq_mod mask_eq_exp_minus_1)

lemma length_encode_header [simp]: "length (encode_header msg tok) = 4"
  by (simp add: encode_header_def)

text \<open>The fixed header is read back exactly.\<close>

lemma encode_header_bytes:
  assumes "length tok \<le> 8"
  shows "unat (drop_bit 6 (encode_header msg tok ! 0) AND 3) = 1"
    and "uint (drop_bit 4 (encode_header msg tok ! 0) AND 3) = in_type msg AND 3"
    and "unat (encode_header msg tok ! 0 AND 15) = length tok"
    and "uint (encode_header msg tok ! 1) = in_code msg AND 255"
  using header_byte [of "in_type msg AND 3" "int (length tok)"] assms
  by (simp_all add: encode_header_def mask_mod uint_word_of_int)

lemma encode_header_id:
  "readUInt16BE (encode_header msg tok @ xs) 2 = Inr (nat (in_messageId msg AND 65535))"
  using readUInt16BE_at [of "take 2 (encode_header msg tok)" 2 "nat (in_messageId msg AND 65535)" xs]
  by (simp add: encode_header_def mask_mod nat_mod_distrib)

lemma decode_of_encode:
  assumes "encode msg = Inr wire_bytes"
  shows "decode wire_bytes = Inr (decoded_form msg)"
proof -
  define tok where "tok = or_empty (in_token msg)"
  define p where "p = or_empty (in_payload msg)"
  let ?opts = "sort_key number (or_empty (in_options msg))"
  from assms obtain bs where tok8: "length tok \<le> 8" and bs: "encode_options 0 ?opts = Inr bs"
      and w: "wire_bytes = encode_header msg tok @ tok @ bs @ payload_part p"
    by (auto simp: encode_def Let_def bindE_Inr_iff tok_def p_def split: if_splits)
  have hd: "wire_bytes ! i = encode_header msg tok ! i" if "i < 4" for i
    using that w by (simp add: nth_append)
  have id: "readUInt16BE wire_bytes 2 = Inr (nat (in_messageId msg AND 65535))"
    using w encode_header_id by simp
  have loop: "decode_loop wire_bytes (4 + length tok) (Num 0) [] =
      Inr (map as_decoded ?opts, Num (4 + length tok + length bs + (if p = [] then 0 else 1)))"
    using decode_loop_payload [OF bs, of "encode_header msg tok @ tok" "4 + length tok" p "[]"] w
    by simp
  have rest: "rest_from wire_bytes (Num (4 + length tok + length bs + (if p = [] then 0 else 1))) = p"
    using w by (simp add: payload_part_def)
  have sub: "subarray wire_bytes 4 (4 + length tok) = tok" using w by (simp add: subarray_def)
  have "\<not> length wire_bytes < 4 + length tok" using w by simp
  then show ?thesis
    using encode_header_bytes [OF tok8, of msg] id loop rest sub tok8
    by (simp add: decode_def hd Let_def decoded_form_def tok_def [symmetric] p_def [symmetric] mask_mod)
qed

text \<open>C10. Round trip of the codec: whenever \<open>encode\<close> succeeds, on any numeric fields, any token,
  options in any order and any payload, \<open>decode\<close> of its bytes gives the same message back with
  the type, code and message id reduced to their field widths and the options in ascending order.
\<close>

theorem decode_encode:
  assumes "encode msg = Inr wire_bytes"
  shows "decode wire_bytes = Inr (decoded_form msg)"
  using assms by (rule decode_of_encode)

theorem decode_encode_witness:
  "decode [0x52, 0x02, 0xCA, 0xFE, 7, 8, 0xB1, 0x6D, 0xFF, 9] =
     Inr \<lparr>mtype = 1, mcode = 2, messageId = 0xCAFE, token = [7, 8],
          options = [\<lparr>number = Num 11, val = [0x6D]\<rparr>], payload = [9]\<rparr>"
proof -
  let ?m = "\<lparr>in_type = 1, in_code = 2, in_messageId = 0xCAFE, in_token = Some [7, 8],
              in_options = Some [\<lparr>number = 11, val = [0x6D]\<rparr>], in_payload = Some [9]\<rparr>"
  have "encode ?m = Inr [0x52, 0x02, 0xCA, 0xFE, 7, 8, 0xB1, 0x6D, 0xFF, 9]" by (simp add: encode_eval)
  from decode_encode [OF this] show ?thesis by (simp add: decoded_form_def as_decoded_def)
qed

subsection \<open>When encoding succeeds\<close>

fun encodable :: "int \<Rightarrow> int coap_option list \<Rightarrow> bool" where
  "encodable prev [] \<longleftrightarrow> True"
| "encodable prev (opt # opts) \<longleftrightarrow>
     prev \<le> number opt \<and> number opt - prev \<le> 65804 \<and> length (val opt) \<le> 65804 \<and>
     encodable (number opt) opts"

lemma ext_bytes_Inr_iff: "(\<exists>bs. ext_bytes v = Inr bs) \<longleftrightarrow> v \<le> 65804"
  by (auto simp: ext_bytes_def nibble_def writeUInt16BE_def)

lemma encodeOptionHeader_Inr_iff:
  "(\<exists>h. encodeOptionHeader d l = Inr h) \<longleftrightarrow> d \<le> 65804 \<and> l \<le> 65804"
  unfolding ext_bytes_Inr_iff [symmetric] by (auto simp: encodeOptionHeader_def bindE_Inr_iff)

lemma encode_options_Inr_iff:
  "(\<exists>bs. encode_options prev opts = Inr bs) \<longleftrightarrow> encodable prev opts"
proof (induction opts arbitrary: prev)
  case (Cons opt opts)
  have "(\<exists>bs. encode_options prev (opt # opts) = Inr bs) \<longleftrightarrow>
      prev \<le> number opt \<and>
      (\<exists>h. encodeOptionHeader (number opt - prev) (int (length (val opt))) = Inr h) \<and>
      (\<exists>bs. encode_options (number opt) opts = Inr bs)"
    by (auto simp: Let_def bindE_Inr_iff)
  then show ?case by (auto simp: Cons.IH encodeOptionHeader_Inr_iff)
qed simp

lemma encode_Inr_iff:
  "(\<exists>w. encode msg = Inr w) \<longleftrightarrow>
     length (or_empty (in_token msg)) \<le> 8 \<and>
     encodable 0 (sort_key number (or_empty (in_options msg)))"
  unfolding encode_options_Inr_iff [symmetric]
  by (auto simp: encode_def Let_def bindE_Inr_iff)

text \<open>Exactly when \<open>encode\<close> returns: a token of at most 8 bytes, and, in ascending order,
  option numbers that start at 0 or above and grow by at most 65804 (269 + 65535, the largest
  extended delta), with values of at most 65804 bytes. In every other case it throws.
\<close>

theorem encode_succeeds_iff:
  "(\<exists>w. encode msg = Inr w) \<longleftrightarrow>
     length (or_empty (in_token msg)) \<le> 8 \<and>
     encodable 0 (sort_key number (or_empty (in_options msg)))"
  by (rule encode_Inr_iff)

lemma encodable_sorted:
  assumes "sorted (map number opts)" and "\<forall>opt\<in>set opts. number opt \<le> 65535 \<and> length (val opt) \<le> 65804"
    and "0 \<le> prev" and "\<forall>opt\<in>set opts. prev \<le> number opt"
  shows "encodable prev opts"
  using assms by (induction opts arbitrary: prev) fastforce+

lemma encode_ordinary:
  assumes "length (or_empty (in_token msg)) \<le> 8"
    and "\<forall>opt\<in>set (or_empty (in_options msg)).
           0 \<le> number opt \<and> number opt \<le> 65535 \<and> length (val opt) \<le> 65804"
  obtains w where "encode msg = Inr w"
proof -
  have "encodable 0 (sort_key number (or_empty (in_options msg)))"
    using assms(2) by (intro encodable_sorted) auto
  with assms(1) that show ?thesis using encode_Inr_iff by blast
qed

text \<open>\<open>decode\<close> accepts a truncated message: append the single byte \<open>0x0D\<close> (an option head that
  announces an extended length byte which is not there) to any encoded message without payload,
  and it is decoded with one more, empty, option instead of being rejected, because
  \<open>13 + buf[pos++]\<close> is NaN past the end and the length check is false on NaN.
\<close>

theorem decode_dangling_extension:
  assumes "encode msg = Inr w" and "or_empty (in_payload msg) = []"
  shows "decode (w @ [0x0D]) =
           Inr (decoded_form msg
             \<lparr>options := options (decoded_form msg) @
                [\<lparr>number = Num (nat (last_number 0 (sort_key number (or_empty (in_options msg))))),
                  val = []\<rparr>]\<rparr>)"
proof -
  define tok where "tok = or_empty (in_token msg)"
  let ?opts = "sort_key number (or_empty (in_options msg))"
  define n where "n = nat (last_number 0 ?opts)"
  from assms obtain bs where tok8: "length tok \<le> 8" and bs: "encode_options 0 ?opts = Inr bs"
      and w: "w = encode_header msg tok @ tok @ bs"
    by (auto simp: encode_def Let_def bindE_Inr_iff tok_def payload_part_def split: if_splits)
  let ?buf = "w @ [0x0D]"
  have hd: "?buf ! i = encode_header msg tok ! i" if "i < 4" for i
    using that w by (simp add: nth_append)
  have id: "readUInt16BE ?buf 2 = Inr (nat (in_messageId msg AND 65535))"
    using w encode_header_id by simp
  have opt: "decode_option ?buf (length w) (Num n) = Inr (\<lparr>number = Num n, val = []\<rparr>, NaN)"
    by (simp add: decode_option_def Let_def nth_append read_ext_def byte_at_def)
  have "decode_loop ?buf (4 + length tok) (Num 0) [] =
      decode_loop ?buf (length w) (Num n) (map as_decoded ?opts)"
    using decode_loop_encoded [OF bs, of "encode_header msg tok @ tok" "4 + length tok" "[0x0D]" "[]"] w
    by (simp add: n_def add.assoc)
  also have "\<dots> = Inr (map as_decoded ?opts @ [\<lparr>number = Num n, val = []\<rparr>], NaN)"
    using opt by (subst decode_loop.simps) simp
  finally have loop: "decode_loop ?buf (4 + length tok) (Num 0) [] =
      Inr (map as_decoded ?opts @ [\<lparr>number = Num n, val = []\<rparr>], NaN)" .
  have sub: "subarray ?buf 4 (4 + length tok) = tok" using w by (simp add: subarray_def)
  have "\<not> length ?buf < 4 + length tok" "\<not> length ?buf < 4" using w by simp_all
  then show ?thesis
    using encode_header_bytes [OF tok8, of msg] id loop sub tok8 assms(2)
    by (simp add: decode_def hd Let_def decoded_form_def tok_def [symmetric] n_def [symmetric] mask_mod
             del: length_append)
qed

theorem decode_dangling_extension_witness:
  "decode [0x40, 0, 0, 3, 0x0D] =
     Inr \<lparr>mtype = 0, mcode = 0, messageId = 3, token = [],
          options = [\<lparr>number = Num 0, val = []\<rparr>], payload = []\<rparr>"
proof -
  let ?m = "\<lparr>in_type = 0, in_code = 0, in_messageId = 3, in_token = None,
              in_options = None, in_payload = None\<rparr>"
  have e: "encode ?m = Inr [0x40, 0, 0, 3]" by (simp add: encode_eval)
  from decode_dangling_extension [OF e] show ?thesis by (simp add: decoded_form_def)
qed


subsection \<open>What decoding accepts\<close>

definition option_size :: "jsnum coap_option \<Rightarrow> nat" where
  "option_size opt = 1 + length (val opt)"

fun pos_le :: "jsnum \<Rightarrow> nat \<Rightarrow> bool" where
  "pos_le (Num p) n \<longleftrightarrow> p \<le> n"
| "pos_le NaN n \<longleftrightarrow> True"

lemma decode_option_bounds:
  assumes "decode_option buf pos prev = Inr (opt, q)" and "pos < length buf"
  shows "pos_le q (length buf)" and "q = Num p \<Longrightarrow> pos + option_size opt \<le> p"
    and "q = NaN \<Longrightarrow> val opt = []"
proof -
  from assms obtain d p1 l p2 where
      1: "read_ext buf (pos + 1) (unat (drop_bit 4 (buf ! pos) AND 15)) = Inr (d, p1)"
    and 2: "read_ext buf p1 (unat (buf ! pos AND 15)) = Inr (l, p2)"
    and 3: "q = js_add (Num p2) l" "\<not> js_less (Num (length buf)) q"
    and 4: "val opt = subarray_num buf p2 q"
    by (auto simp: decode_option_def Let_def bindE_Inr_iff split: if_splits)
  have "pos + 1 \<le> p2" using read_ext_pos [OF 1] read_ext_pos [OF 2] by simp
  with 3 4 show "pos_le q (length buf)" and "q = Num p \<Longrightarrow> pos + option_size opt \<le> p"
      and "q = NaN \<Longrightarrow> val opt = []"
    by (cases l; auto simp: option_size_def subarray_def)+
qed

lemma decode_loop_bounds:
  assumes "decode_loop buf pos prev acc = Inr (opts, q)" and "pos \<le> length buf"
  shows "\<exists>new. opts = acc @ new \<and>
           pos + sum_list (map option_size new) \<le> length buf + 1 \<and>
           (case q of Num p \<Rightarrow> p \<le> length buf \<and> pos + sum_list (map option_size new) \<le> p
            | NaN \<Rightarrow> pos + sum_list (map option_size new) \<le> length buf)"
  using assms
proof (induction buf pos prev acc arbitrary: opts q rule: decode_loop.induct)
  case (1 buf pos prev acc)
  show ?case
  proof (cases "pos < length buf \<and> buf ! pos \<noteq> 0xFF")
    case False
    with "1.prems" show ?thesis
      by (subst (asm) decode_loop.simps) (auto split: if_splits intro: exI [of _ "[]"])
  next
    case True
    then obtain opt r where o: "decode_option buf pos prev = Inr (opt, r)"
      using "1.prems" by (subst (asm) decode_loop.simps) (auto split: sum.splits)
    note b = decode_option_bounds [OF o, simplified True, simplified]
    show ?thesis
    proof (cases r)
      case NaN
      with o True "1.prems" have "opts = acc @ [opt]" and "q = NaN"
        by (subst (asm) decode_loop.simps, simp)+
      with b NaN True show ?thesis by (auto simp: option_size_def)
    next
      case (Num p)
      with o True "1.prems" have eq: "decode_loop buf p (number opt) (acc @ [opt]) = Inr (opts, q)"
        by (subst (asm) decode_loop.simps) simp
      from b Num have p: "p \<le> length buf" "pos + option_size opt \<le> p" by simp_all
      from True have "pos < length buf" "buf ! pos \<noteq> 0xFF" by simp_all
      from "1.IH" [OF this o refl Num eq p(1)] obtain new where
        "opts = (acc @ [opt]) @ new" and
        "p + sum_list (map option_size new) \<le> length buf + 1" and
        "case q of Num p' \<Rightarrow> p' \<le> length buf \<and> p + sum_list (map option_size new) \<le> p'
            | NaN \<Rightarrow> p + sum_list (map option_size new) \<le> length buf"
        by blast
      with p show ?thesis by (intro exI [of _ "opt # new"]) (auto split: jsnum.splits)
    qed
  qed
qed

lemma decode_fields:
  assumes "decode buf = Inr m"
  shows "mtype m \<in> {0..3} \<and> mcode m \<in> {0..255} \<and> messageId m \<in> {0..65535} \<and>
         length (token m) \<le> 8 \<and>
         4 + length (token m) + sum_list (map option_size (options m)) + length (payload m)
           \<le> length buf"
proof -
  let ?tkl = "unat (buf ! 0 AND 15)"
  from assms obtain mid opts q where
      lens: "4 + ?tkl \<le> length buf" "?tkl \<le> 8"
    and mid: "readUInt16BE buf 2 = Inr mid"
    and loop: "decode_loop buf (4 + ?tkl) (Num 0) [] = Inr (opts, q)"
    and m: "m = \<lparr>mtype = uint (drop_bit 4 (buf ! 0) AND 3), mcode = uint (buf ! 1),
             messageId = int mid, token = subarray buf 4 (4 + ?tkl),
             options = opts, payload = rest_from buf q\<rparr>"
    by (auto simp: decode_def Let_def bindE_Inr_iff split: if_splits)
  have "uint (drop_bit 4 (buf ! 0) AND 3) \<le> 3"
    by (simp add: uint_and mask_mod)
  moreover have "uint (buf ! 1) \<le> 255"
    using uint_byte_less [of "buf ! 1"] by linarith
  moreover have "mid < 65536" using mid by (rule readUInt16BE_bound)
  moreover have "length (subarray buf 4 (4 + ?tkl)) = ?tkl"
    using lens by (simp add: subarray_def)
  moreover from decode_loop_bounds [OF loop lens(1)]
  have "4 + ?tkl + sum_list (map option_size opts) + length (rest_from buf q) \<le> length buf"
    by (cases q) auto
  ultimately show ?thesis using m lens by simp
qed

text \<open>Bounds of a decoded message: the type is 2 bits, the code 8 and the message id 16, the token
  has at most 8 bytes, and header, token, options and payload together are never more than the
  bytes received (so decoding never reads, nor makes up, data beyond the buffer).
\<close>

theorem decode_bounds:
  assumes "decode buf = Inr m"
  shows "mtype m \<in> {0..3} \<and> mcode m \<in> {0..255} \<and> messageId m \<in> {0..65535} \<and>
         length (token m) \<le> 8 \<and>
         4 + length (token m) + sum_list (map option_size (options m)) + length (payload m)
           \<le> length buf"
  using assms by (rule decode_fields)

theorem decode_bounds_witness:
  "(1 :: int) \<in> {0..3} \<and> (2 :: int) \<in> {0..255} \<and> (0xCAFE :: int) \<in> {0..65535} \<and>
   length [7 :: byte, 8] \<le> 8 \<and> 4 + 2 + 2 + 1 \<le> length [0x52, 0x02, 0xCA, 0xFE, 7, 8, 0xB1, 0x6D, 0xFF, 9 :: byte]"
proof -
  have "decode [0x52, 0x02, 0xCA, 0xFE, 7, 8, 0xB1, 0x6D, 0xFF, 9] =
     Inr \<lparr>mtype = 1, mcode = 2, messageId = 0xCAFE, token = [7, 8],
          options = [\<lparr>number = Num 11, val = [0x6D]\<rparr>], payload = [9]\<rparr>"
    by (simp add: decode_eval)
  from decode_bounds [OF this] show ?thesis by (simp add: option_size_def)
qed

subsection \<open>Re-encoding a decoded message\<close>

lemma option_head_inverse_table:
  "\<forall>n\<in>set [0..<256].
     word_of_int (push_bit 4 (int (unat (drop_bit 4 (word_of_nat n :: byte) AND 15))) OR
                  int (unat ((word_of_nat n :: byte) AND 15))) = (word_of_nat n :: byte)"
  by code_simp

lemma option_head_inverse:
  "word_of_int (push_bit 4 (int (unat (drop_bit 4 b AND 15))) OR int (unat (b AND 15))) = (b :: byte)"
proof -
  have "unat b \<in> set [0..<256]" by simp
  with option_head_inverse_table have
    "word_of_int (push_bit 4 (int (unat (drop_bit 4 (word_of_nat (unat b) :: byte) AND 15))) OR
                  int (unat ((word_of_nat (unat b) :: byte) AND 15))) = (word_of_nat (unat b) :: byte)"
    by blast
  then show ?thesis by simp
qed

lemma read_ext_inverse:
  assumes "read_ext buf pos n = Inr (Num v, pos')" and "n < 15"
  shows "nibble (int v) = int n \<and> ext_bytes (int v) = Inr (subarray buf pos pos')"
proof -
  consider "n < 13" | "n = 13" | "n = 14" using assms(2) by linarith
  then show ?thesis
  proof cases
    case 1
    with assms show ?thesis
      by (auto simp: read_ext_def nibble_def ext_bytes_def subarray_def)
  next
    case 2
    with assms have pos: "pos < length buf" and v: "v = 13 + unat (buf ! pos)" and p: "pos' = pos + 1"
      by (auto simp: read_ext_def byte_at_def split: if_splits)
    have "subarray buf pos (pos + 1) = [buf ! pos]"
      using pos by (simp add: subarray_def take_Suc_conv_app_nth hd_drop_conv_nth)
    with 2 v p unat_byte_less [of "buf ! pos"] show ?thesis
      by (simp add: nibble_def ext_bytes_def)
  next
    case 3
    with assms obtain u where u: "readUInt16BE buf pos = Inr u" and v: "v = 269 + u" and p: "pos' = pos + 2"
      by (auto simp: read_ext_def bindE_Inr_iff)
    from readUInt16BE_bound [OF u] u16be_read [OF u] 3 v p show ?thesis
      by (simp add: nibble_def ext_bytes_def writeUInt16BE_def)
  qed
qed

lemma read_ext_len: "read_ext buf pos n = Inr (Num v, pos') \<Longrightarrow> pos \<le> length buf \<Longrightarrow> pos' \<le> length buf"
  by (auto simp: read_ext_def byte_at_def bindE_Inr_iff dest: u16be_read split: if_splits)


lemma decode_option_inverse:
  assumes opt: "decode_option buf pos (Num p) = Inr (opt, Num q)" and pos: "pos < length buf"
  obtains d h where "number opt = Num (p + d)"
    and "encodeOptionHeader (int d) (int (length (val opt))) = Inr h"
    and "subarray buf pos q = h @ val opt" and "pos \<le> q" and "q \<le> length buf"
proof -
  let ?dN = "unat (drop_bit 4 (buf ! pos) AND 15)" and ?lN = "unat (buf ! pos AND 15)"
  from opt obtain dl p1 len p2 where n15: "?dN \<noteq> 15" "?lN \<noteq> 15"
    and 1: "read_ext buf (pos + 1) ?dN = Inr (dl, p1)"
    and 2: "read_ext buf p1 ?lN = Inr (len, p2)"
    and q: "Num q = js_add (Num p2) len" "\<not> js_less (Num (length buf)) (Num q)"
    and o: "opt = \<lparr>number = js_add (Num p) dl, val = subarray_num buf p2 (Num q)\<rparr>"
    by (auto simp: decode_option_def Let_def bindE_Inr_iff split: if_splits)
  from q obtain l where len: "len = Num l" and ql: "q = p2 + l" and qb: "q \<le> length buf"
    by (cases len) auto
  have p12: "pos + 1 \<le> p1" "p1 \<le> p2" using read_ext_pos [OF 1] read_ext_pos [OF 2] by simp_all
  with ql qb have "p1 \<le> length buf" by simp
  have "dl \<noteq> NaN"
  proof
    assume "dl = NaN"
    with 1 pos have "p1 = pos + 2 \<and> length buf \<le> pos + 1"
      by (auto simp: read_ext_def byte_at_def bindE_Inr_iff split: if_splits)
    with \<open>p1 \<le> length buf\<close> show False by simp
  qed
  then obtain d where dl: "dl = Num d" by (cases dl) auto
  have lt15: "?dN < 15" "?lN < 15"
    using n15 by (simp_all add: unat_and_15_le order.not_eq_order_implies_strict)
  note i1 = read_ext_inverse [OF 1 [unfolded dl] lt15(1)]
    and i2 = read_ext_inverse [OF 2 [unfolded len] lt15(2)]
  define h where "h = buf ! pos # subarray buf (pos + 1) p1 @ subarray buf p1 p2"
  have lv: "length (val opt) = l" using o ql qb by (simp add: subarray_def)
  have "encodeOptionHeader (int d) (int (length (val opt))) = Inr h"
    using i1 i2 lv by (simp add: encodeOptionHeader_def h_def option_head_inverse [simplified])
  moreover have "subarray buf pos q = h @ val opt"
  proof -
    have "subarray buf pos (pos + 1) = [buf ! pos]"
      using pos by (simp add: subarray_def take_Suc_conv_app_nth hd_drop_conv_nth)
    moreover have "subarray buf pos q =
        subarray buf pos (pos + 1) @ subarray buf (pos + 1) p1 @ subarray buf p1 p2 @ subarray buf p2 q"
      using p12 ql by (simp add: subarray_join)
    ultimately show ?thesis using o by (simp add: h_def)
  qed
  moreover have "number opt = Num (p + d)" using o dl by simp
  ultimately show ?thesis using that p12 ql qb by simp
qed

definition as_encodable :: "jsnum coap_option \<Rightarrow> int coap_option" where
  "as_encodable opt =
     \<lparr>number = (case number opt of Num n \<Rightarrow> int n | NaN \<Rightarrow> 0), val = val opt\<rparr>"

definition as_input :: "coap_message \<Rightarrow> coap_input" where
  "as_input m =
     \<lparr>in_type = mtype m, in_code = mcode m, in_messageId = messageId m, in_token = Some (token m),
      in_options = Some (map as_encodable (options m)), in_payload = Some (payload m)\<rparr>"

text \<open>What follows the options at \<open>pos\<close> when the loop stops at \<open>q\<close>: nothing, or a marker.\<close>

definition tail_form :: "bytes \<Rightarrow> nat \<Rightarrow> bytes" where
  "tail_form buf q = (if q < length buf then 0xFF # drop q buf else [])"

text \<open>Where the loop stops without reading an option.\<close>

lemma decode_loop_stop:
  assumes "decode_loop buf pos (Num p) acc = Inr (opts, Num q)" and "pos \<le> length buf"
    and "\<not> (pos < length buf \<and> buf ! pos \<noteq> 0xFF)"
  shows "opts = acc \<and> q \<le> length buf \<and>
         (drop pos buf = tail_form buf q \<or> drop pos buf = [0xFF] \<and> q = length buf)"
proof (cases "pos < length buf")
  case True
  with assms(3) have ff: "buf ! pos = 0xFF" by simp
  with True assms(1) have "opts = acc" "q = pos + 1"
    by (subst (asm) decode_loop.simps, simp)+
  moreover have "drop pos buf = 0xFF # drop (pos + 1) buf"
    using True ff by (metis Cons_nth_drop_Suc Suc_eq_plus1)
  ultimately show ?thesis using True by (auto simp: tail_form_def)
next
  case False
  with assms(1) have "opts = acc" "q = pos"
    by (subst (asm) decode_loop.simps, simp)+
  with False assms(2) show ?thesis by (auto simp: tail_form_def)
qed

lemma drop_subarray: "i \<le> j \<Longrightarrow> drop i xs = subarray xs i j @ drop j xs"
  using append_take_drop_id [of "j - i" "drop i xs"] by (simp add: subarray_def)

lemma decode_loop_inverse:
  assumes "decode_loop buf pos (Num p) acc = Inr (opts, Num q)" and "pos \<le> length buf"
  shows "\<exists>new bs. opts = acc @ new \<and> q \<le> length buf \<and>
           encode_options (int p) (map as_encodable new) = Inr bs \<and>
           sorted (map (number \<circ> as_encodable) new) \<and>
           (\<forall>opt\<in>set new. int p \<le> number (as_encodable opt)) \<and>
           (drop pos buf = bs @ tail_form buf q \<or> drop pos buf = bs @ [0xFF] \<and> q = length buf)"
  using assms
proof (induction buf pos "Num p" acc arbitrary: p opts q rule: decode_loop.induct)
  case (1 buf pos acc)
  show ?case
  proof (cases "pos < length buf \<and> buf ! pos \<noteq> 0xFF")
    case False
    from decode_loop_stop [OF "1.prems" False] show ?thesis
      by (intro exI [of _ "[]"] exI [of _ "[]"]) auto
  next
    case True
    then obtain opt r where o: "decode_option buf pos (Num p) = Inr (opt, r)"
      using "1.prems" by (subst (asm) decode_loop.simps) (auto split: sum.splits)
    from o True "1.prems" obtain r' where r: "r = Num r'"
        and eq: "decode_loop buf r' (number opt) (acc @ [opt]) = Inr (opts, Num q)"
      by (subst (asm) decode_loop.simps) (auto split: jsnum.splits)
    from o r have o': "decode_option buf pos (Num p) = Inr (opt, Num r')" by simp
    from decode_option_inverse [OF o'] True obtain d h where
        num: "number opt = Num (p + d)"
      and h: "encodeOptionHeader (int d) (int (length (val opt))) = Inr h"
      and sub: "subarray buf pos r' = h @ val opt" and r'b: "pos \<le> r'" "r' \<le> length buf"
      by blast
    from True have tr: "pos < length buf" "buf ! pos \<noteq> 0xFF" by simp_all
    from "1.hyps" [OF tr o refl r num eq [unfolded num] r'b(2)] obtain new bs where
        "opts = (acc @ [opt]) @ new" "q \<le> length buf"
      and bs: "encode_options (int (p + d)) (map as_encodable new) = Inr bs"
      and so: "sorted (map (number \<circ> as_encodable) new)"
      and ge: "\<forall>opt\<in>set new. int (p + d) \<le> number (as_encodable opt)"
      and tl: "drop r' buf = bs @ tail_form buf q \<or> drop r' buf = bs @ [0xFF] \<and> q = length buf"
      by blast
    have ne: "number (as_encodable opt) = int (p + d)" "val (as_encodable opt) = val opt"
      using num by (simp_all add: as_encodable_def)
    have "drop pos buf = h @ val opt @ drop r' buf"
      using drop_subarray [OF r'b(1), of buf] sub by simp
    with \<open>opts = _\<close> \<open>q \<le> length buf\<close> h bs so ge tl ne show ?thesis
      by (intro exI [of _ "opt # new"] exI [of _ "h @ val opt @ bs"]) (force simp: Let_def)
  qed
qed

lemma encode_options_as_encodable_sorted:
  "sorted (map (number \<circ> as_encodable) opts) \<Longrightarrow>
   sort_key number (map as_encodable opts) = map as_encodable opts"
  by (rule sort_key_id_if_sorted) (simp add: comp_def)

lemma header_inverse_table:
  "\<forall>n\<in>set [0..<256]. let b = word_of_nat n :: byte in
     unat (drop_bit 6 b AND 3) = 1 \<longrightarrow>
     word_of_int (push_bit 6 1 OR push_bit 4 (uint (drop_bit 4 b AND 3) AND 3) OR
       (int (unat (b AND 15)) AND 15)) = b"
  by code_simp

lemma header_inverse:
  assumes "unat (drop_bit 6 (b :: byte) AND 3) = 1"
  shows "word_of_int (push_bit 6 1 OR push_bit 4 (uint (drop_bit 4 b AND 3) AND 3) OR
           (int (unat (b AND 15)) AND 15)) = b"
proof -
  have "unat b \<in> set [0..<256]" by simp
  from bspec [OF header_inverse_table this] assms show ?thesis by (simp only: Let_def) simp
qed

text \<open>The four header bytes, written again from the fields that were read.\<close>

lemma header_read_back:
  assumes "4 \<le> length buf" and "unat (drop_bit 6 (buf ! 0) AND 3) = 1" and "readUInt16BE buf 2 = Inr mid"
  shows "[word_of_int (push_bit 6 1 OR push_bit 4 (uint (drop_bit 4 (buf ! 0) AND 3) AND 3) OR
             (int (unat (buf ! 0 AND 15)) AND 15)), word_of_int (uint (buf ! 1) AND 255)] @
           u16be (nat (int mid AND 65535)) = take 4 buf"
proof -
  have "mid < 65536" using assms(3) by (rule readUInt16BE_bound)
  then have "u16be (nat (int mid AND 65535)) = subarray buf 2 4"
    using u16be_read(1) [OF assms(3)] by (simp add: mask_mod)
  moreover have "take 2 buf = [buf ! 0, buf ! 1]"
    using assms(1) by (cases buf; cases "tl buf") auto
  then have "take 4 buf = [buf ! 0, buf ! 1] @ subarray buf 2 4"
    using take_add [of 2 2 buf] by (simp add: subarray_def)
  moreover have "word_of_int (uint (buf ! 1) AND 255) = buf ! 1" by (simp add: mask_mod)
  ultimately show ?thesis unfolding header_inverse [OF assms(2)] by (simp only: append.simps)
qed

text \<open>
  The message was read to its end, the option loop did not run past the buffer.
\<close>

definition read_fully :: "bytes \<Rightarrow> bool" where
  "read_fully buf \<longleftrightarrow>
     (case decode_loop buf (4 + unat (buf ! 0 AND 15)) (Num 0) [] of
        Inr (opts, Num q) \<Rightarrow> True | _ \<Rightarrow> False)"

text \<open>C19. \<open>decode\<close> accepts nothing but encodings: when it succeeds without running past the end,
  encoding its result gives the received bytes again, or those bytes but for a final payload
  marker \<open>0xFF\<close> that no payload follows (which the decoder tolerates). In particular two
  different datagrams, neither ending in such a marker, never decode to the same message.
\<close>

theorem encode_decode:
  assumes "decode buf = Inr m" and "read_fully buf"
  shows "encode (as_input m) = Inr buf \<or>
         (\<exists>short. buf = short @ [0xFF] \<and> encode (as_input m) = Inr short)"
proof -
  let ?tkl = "unat (buf ! 0 AND 15)"
  from assms(2) obtain opts q where
      loop: "decode_loop buf (4 + ?tkl) (Num 0) [] = Inr (opts, Num q)"
    by (auto simp: read_fully_def split: sum.splits jsnum.splits dest: not_NaN)
  with assms(1) obtain mid where
      lens: "4 \<le> length buf" "4 + ?tkl \<le> length buf" "?tkl \<le> 8"
    and ver: "unat (drop_bit 6 (buf ! 0) AND 3) = 1"
    and mid: "readUInt16BE buf 2 = Inr mid"
    and m: "m = \<lparr>mtype = uint (drop_bit 4 (buf ! 0) AND 3), mcode = uint (buf ! 1),
             messageId = int mid, token = subarray buf 4 (4 + ?tkl),
             options = opts, payload = rest_from buf (Num q)\<rparr>"
    by (auto simp: decode_def Let_def bindE_Inr_iff split: if_splits)
  from decode_loop_inverse [OF loop lens(2)] obtain bs where q: "q \<le> length buf"
    and bs: "encode_options 0 (map as_encodable opts) = Inr bs"
    and so: "sorted (map (number \<circ> as_encodable) opts)"
    and tl: "drop (4 + ?tkl) buf = bs @ tail_form buf q \<or> drop (4 + ?tkl) buf = bs @ [0xFF] \<and> q = length buf"
    by auto
  have ltok: "length (token m) = ?tkl" using m lens by (simp add: subarray_def)
  have hdr: "encode_header (as_input m) (token m) = take 4 buf"
    using header_read_back [OF lens(1) ver mid] ltok m by (simp add: encode_header_def as_input_def)
  have "token m @ drop (4 + ?tkl) buf = drop 4 buf"
    using append_take_drop_id [of ?tkl "drop 4 buf"] m by (simp add: subarray_def add.commute)
  then have whole: "buf = take 4 buf @ token m @ drop (4 + ?tkl) buf"
    by (simp only: append_take_drop_id)
  have pay: "payload_part (payload m) = tail_form buf q"
    using m by (auto simp: payload_part_def tail_form_def)
  have enc: "encode (as_input m) = Inr (take 4 buf @ token m @ bs @ tail_form buf q)"
    using hdr pay bs so lens(3) ltok m
    by (simp add: encode_def as_input_def encode_options_as_encodable_sorted)
  from tl show ?thesis
  proof
    assume "drop (4 + ?tkl) buf = bs @ tail_form buf q"
    with whole enc show ?thesis by simp
  next
    assume "drop (4 + ?tkl) buf = bs @ [0xFF] \<and> q = length buf"
    with enc whole show ?thesis
      by (intro disjI2 exI [of _ "take 4 buf @ token m @ bs"]) (simp add: tail_form_def)
  qed
qed

theorem encode_decode_witness:
  "encode \<lparr>in_type = 1, in_code = 2, in_messageId = 0xCAFE, in_token = Some [7, 8],
           in_options = Some [\<lparr>number = 11, val = [0x6D]\<rparr>], in_payload = Some [9]\<rparr> =
     Inr [0x52, 0x02, 0xCA, 0xFE, 7, 8, 0xB1, 0x6D, 0xFF, 9]"
proof -
  let ?b = "[0x52, 0x02, 0xCA, 0xFE, 7, 8, 0xB1, 0x6D, 0xFF, 9] :: bytes"
  let ?m = "\<lparr>mtype = 1, mcode = 2, messageId = 0xCAFE, token = [7, 8],
              options = [\<lparr>number = Num 11, val = [0x6D]\<rparr>], payload = [9]\<rparr>"
  have d: "decode ?b = Inr ?m" and r: "read_fully ?b"
    by (simp_all add: decode_eval read_fully_def)
  from encode_decode [OF d r] have
    "encode (as_input ?m) = Inr ?b \<or> (\<exists>short. ?b = short @ [0xFF])" by blast
  then show ?thesis by (auto simp: as_input_def as_encodable_def append_eq_Cons_conv Cons_eq_append_conv)
qed

end
