(* ===== verification/Messages.thy ===== *)
theory Messages
  imports Coap
begin

section \<open>The spark message vocabulary (\<open>lib/messages.js\<close>)\<close>

text \<open>
  The table \<open>Messages\<close> in its source order, the lookup \<open>Messages[name]\<close> that
  \<open>Session.send\<close> performs on it, and \<open>classify\<close>, which names a decoded message.
\<close>

record message_spec =
  s_code :: int
  s_type :: int
  s_uri :: "string option"

definition spec :: "code_name \<Rightarrow> type_name \<Rightarrow> string option \<Rightarrow> message_spec" where
  "spec c t u = \<lparr>s_code = Code c, s_type = Type t, s_uri = u\<rparr>"

definition Messages :: "(string \<times> message_spec) list" where
  "Messages =
    [(''Hello'',           spec POST NON (Some ''h'')),
     (''KeyChange'',       spec PUT CON (Some ''k'')),
     (''UpdateBegin'',     spec POST CON (Some ''u'')),
     (''Chunk'',           spec POST CON (Some ''c'')),
     (''UpdateDone'',      spec PUT CON (Some ''u'')),
     (''FunctionCall'',    spec POST CON (Some ''f'')),
     (''VariableRequest'', spec GET CON (Some ''v'')),
     (''PrivateEvent'',    spec POST NON (Some ''E'')),
     (''PublicEvent'',     spec POST NON (Some ''e'')),
     (''SynergyProtocol'', spec POST NON (Some ''m'')),
     (''Attribute'',       spec POST NON (Some ''a'')),
     (''Describe'',        spec GET CON (Some ''d'')),
     (''GetTime'',         spec GET CON (Some ''t'')),
     (''RaiseYourHand'',   spec PUT CON (Some ''s'')),
     (''Ping'',            spec Empty CON None),
     (''GetTimeReturn'',   spec Content ACK None)]"

text \<open>
  \<open>Messages[name]\<close> on a plain object also finds what the object inherits from
  \<open>Object.prototype\<close>. Those values are functions and accessors (never \<open>undefined\<close>), and
  their \<open>code\<close>, \<open>type\<close> and \<open>uri\<close> are \<open>undefined\<close>, which the masks in \<open>encode\<close> turn
  to 0.
\<close>

definition object_prototype_names :: "string list" where
  "object_prototype_names =
    [''constructor'', ''__proto__'', ''hasOwnProperty'', ''isPrototypeOf'',
     ''propertyIsEnumerable'', ''toLocaleString'', ''toString'', ''valueOf'',
     ''__defineGetter__'', ''__defineSetter__'', ''__lookupGetter__'', ''__lookupSetter__'']"

definition message_spec :: "string \<Rightarrow> message_spec option" where
  "message_spec name =
     (case map_of Messages name of
        Some s \<Rightarrow> Some s
      | None \<Rightarrow>
          if name \<in> set object_prototype_names
          then Some \<lparr>s_code = 0, s_type = 0, s_uri = None\<rparr> else None)"

definition first_uri_path :: "coap_message \<Rightarrow> jsnum coap_option option" where
  "first_uri_path msg = find (\<lambda>opt. number opt = Num (Option UriPath)) (options msg)"

definition classify :: "coap_message \<Rightarrow> string option" where
  "classify msg =
     (if mcode msg = Code Empty \<and> mtype msg = Type CON then Some ''Ping''
      else case first_uri_path msg of
             None \<Rightarrow> None
           | Some opt \<Rightarrow>
               let uri = utf8_decode (val opt) in
               map_option fst
                 (find (\<lambda>(name, s). map_option ustr (s_uri s) = Some uri \<and> s_code s = mcode msg)
                   Messages))"

subsection \<open>The table\<close>

lemmas table_eval = Messages_def spec_def

text \<open>Every Uri-Path of the table is one ASCII character, and no two rows share code and path.\<close>

lemma table_uri: "(name, s) \<in> set Messages \<Longrightarrow> s_uri s = Some u \<Longrightarrow> \<exists>c. u = [c] \<and> (of_char c :: nat) < 128"
  by (auto simp: table_eval)

lemma table_code: "(name, s) \<in> set Messages \<Longrightarrow> s_uri s = Some u \<Longrightarrow> s_code s \<noteq> Code Empty"
  by (auto simp: table_eval)

lemma table_keys_distinct:
  "distinct (map (\<lambda>(name, s). (s_uri s, s_code s)) (filter (\<lambda>(name, s). s_uri s \<noteq> None) Messages))"
  by (simp add: table_eval)

lemma table_unique:
  assumes "(n1, s1) \<in> set Messages" and "(n2, s2) \<in> set Messages"
    and "s_uri s1 = Some u" and "s_uri s2 = Some u" and "s_code s1 = s_code s2"
  shows "n1 = n2 \<and> s1 = s2"
proof -
  have "inj_on (\<lambda>(name, s). (s_uri s, s_code s)) (set (filter (\<lambda>(name, s). s_uri s \<noteq> None) Messages))"
    using table_keys_distinct by (simp add: distinct_map)
  from inj_onD [OF this, of "(n1, s1)" "(n2, s2)"] assms show ?thesis by simp
qed

lemma uri_matches:
  assumes "(name, s) \<in> set Messages" and "s_uri s = Some u"
  shows "ustr u = utf8_decode bs \<longleftrightarrow> bs = ascii_bytes u"
proof -
  from table_uri [OF assms] obtain c where u: "u = [c]" and c: "(of_char c :: nat) < 128" by blast
  have "(word_of_nat (of_char c) :: byte) = of_char c" by (simp add: of_nat_of_char)
  with utf8_decode_eq_ascii_one [OF c, of bs] u show ?thesis
    by (auto simp: ustr_def ascii_bytes_def)
qed

lemma find_SomeD: "find P xs = Some x \<Longrightarrow> P x \<and> x \<in> set xs"
  by (auto simp: find_Some_iff)

lemma find_unique:
  assumes "x \<in> set xs" and "P x" and "\<And>y. y \<in> set xs \<Longrightarrow> P y \<Longrightarrow> y = x"
  shows "find P xs = Some x"
proof (cases "find P xs")
  case None
  with assms(1,2) show ?thesis by (simp add: find_None_iff)
next
  case (Some y)
  with find_SomeD [OF Some] assms(3) show ?thesis by simp
qed

lemma classify_row:
  "classify msg = Some name \<longleftrightarrow>
     mcode msg = Code Empty \<and> mtype msg = Type CON \<and> name = ''Ping'' \<or>
     (\<exists>s u opt. (name, s) \<in> set Messages \<and> s_uri s = Some u \<and> s_code s = mcode msg \<and>
        first_uri_path msg = Some opt \<and> val opt = ascii_bytes u)"
proof (cases "mcode msg = Code Empty \<and> mtype msg = Type CON")
  case True
  then show ?thesis by (auto simp: classify_def dest: table_code)
next
  case False
  let ?P = "\<lambda>bs (name, s). map_option ustr (s_uri s) = Some (utf8_decode bs) \<and> s_code s = mcode msg"
  have row: "?P bs (n, s) \<longleftrightarrow> (\<exists>u. s_uri s = Some u \<and> bs = ascii_bytes u \<and> s_code s = mcode msg)"
    if "(n, s) \<in> set Messages" for n s bs
    using uri_matches [OF that] by auto
  have found: "map_option fst (find (?P bs) Messages) = Some name \<longleftrightarrow>
      (\<exists>s u. (name, s) \<in> set Messages \<and> s_uri s = Some u \<and> s_code s = mcode msg \<and> bs = ascii_bytes u)"
    (is "?lhs \<longleftrightarrow> ?rhs") for bs
  proof
    assume ?lhs
    then obtain s where "find (?P bs) Messages = Some (name, s)" by auto
    from find_SomeD [OF this] row show ?rhs by blast
  next
    assume ?rhs
    then obtain s u where su: "(name, s) \<in> set Messages" "s_uri s = Some u" "s_code s = mcode msg"
        "bs = ascii_bytes u" by blast
    have "find (?P bs) Messages = Some (name, s)"
    proof (rule find_unique)
      show "?P bs (name, s)" using su row by blast
      fix y assume y: "y \<in> set Messages" "?P bs y"
      then obtain n' s' where y': "y = (n', s')" by (metis surj_pair)
      with y row obtain u' where "s_uri s' = Some u'" "bs = ascii_bytes u'" "s_code s' = mcode msg"
        by blast
      moreover from this su uri_matches have "ustr u' = ustr u" using y y' by metis
      then have "u' = u" unfolding ustr_def by (rule map_injective) (simp add: inj_on_def)
      ultimately show "y = (name, s)" using table_unique su y y' by metis
    qed (rule su)
    then show ?lhs by simp
  qed
  show ?thesis
  proof (cases "first_uri_path msg")
    case None
    with False show ?thesis by (auto simp: classify_def)
  next
    case (Some opt)
    with False have "classify msg = map_option fst (find (?P (val opt)) Messages)"
      unfolding classify_def Let_def by (simp only: if_False option.case eq_commute)
    with found [of "val opt"] Some False show ?thesis by auto
  qed
qed

text \<open>C32. What \<open>classify\<close> answers, in full: \<open>Ping\<close> for an empty confirmable message, and
  otherwise a row of the table, namely the one whose code is the message's and whose one-letter
  path is, byte for byte, the value of the first Uri-Path option. There is never a second row to
  choose from, and a message that matches no row (or has no Uri-Path) gets no name.
\<close>

theorem classify_iff:
  "classify msg = Some name \<longleftrightarrow>
     mcode msg = Code Empty \<and> mtype msg = Type CON \<and> name = ''Ping'' \<or>
     (\<exists>s u opt. (name, s) \<in> set Messages \<and> s_uri s = Some u \<and> s_code s = mcode msg \<and>
        first_uri_path msg = Some opt \<and> val opt = ascii_bytes u)"
  by (rule classify_row)

end
