(* ===== verification/Chunking.thy ===== *)
theory Chunking
  imports Prelude
begin

section \<open>Length-prefixed framing (\<open>lib/chunking.js\<close>)\<close>

text \<open>
  \<open>encodeFrame\<close> (server to device), \<open>encodeDeviceFrame\<close> (device to server, with the
  sync byte) and the stateful \<open>FrameReader\<close>. The locale \<open>framer\<close> states what a reader of
  frames relies on: a function that splits one frame off the front of a buffer, whose answer
  does not depend on the bytes after that frame. Everything about chunked input follows from
  that contract alone; \<open>framed_codec\<close> adds an encoder.
\<close>

subsection \<open>The code\<close>

definition SYNC_BYTE :: byte where
  "SYNC_BYTE = 0xFF"

definition encodeFrame :: "bytes \<Rightarrow> js_error + bytes" where
  "encodeFrame payload =
     (if length payload > 0xFFFF
      then Inl (RangeError (''payload '' @ dec (length payload) @ '' bytes exceeds 16-bit length prefix''))
      else Inr (u16be (length payload) @ payload))"

definition encodeDeviceFrame :: "bytes \<Rightarrow> js_error + bytes" where
  "encodeDeviceFrame payload =
     (if length payload > 0xFFFF
      then Inl (RangeError (''payload '' @ dec (length payload) @ '' bytes exceeds 16-bit length prefix''))
      else Inr (u16be (length payload) @ SYNC_BYTE # payload))"

text \<open>\<open>buf.readUInt16BE(0)\<close> on a buffer of at least two bytes, where it cannot throw.\<close>

definition header_len :: "bytes \<Rightarrow> nat" where
  "header_len buf = 256 * unat (buf ! 0) + unat (buf ! 1)"

lemma header_len_read: "2 \<le> length buf \<Longrightarrow> readUInt16BE buf 0 = Inr (header_len buf)"
  by (simp add: readUInt16BE_def header_len_def)

record frame_reader =
  fr_buf :: bytes

definition new_frame_reader :: frame_reader where
  "new_frame_reader = \<lparr>fr_buf = []\<rparr>"

text \<open>The \<open>while\<close> loop of \<open>feed\<close>, over \<open>this._buf\<close> and \<open>frames\<close>.\<close>

function feed_loop :: "bytes \<Rightarrow> bytes list \<Rightarrow> bytes list \<times> bytes" where
  "feed_loop buf frames =
     (if 3 \<le> length buf then
        let len = header_len buf in
        if length buf < 3 + len then (frames, buf)
        else feed_loop (drop (3 + len) buf) (frames @ [subarray buf 3 (3 + len)])
      else (frames, buf))"
  by pat_completeness auto
termination
  by (relation "measure (\<lambda>(buf, frames). length buf)") auto

declare feed_loop.simps [simp del]

definition feed :: "frame_reader \<Rightarrow> bytes \<Rightarrow> bytes list \<times> frame_reader" where
  "feed r chunk =
     (let buf = (if fr_buf r = [] then chunk else fr_buf r @ chunk);
          (frames, rest) = feed_loop buf []
      in (frames, r\<lparr>fr_buf := rest\<rparr>))"

text \<open>A reader fed with several chunks in turn: the frames of all calls, and the final reader.\<close>

fun feed_all :: "frame_reader \<Rightarrow> bytes list \<Rightarrow> bytes list \<times> frame_reader" where
  "feed_all r [] = ([], r)"
| "feed_all r (c # cs) =
     (let (fs, r1) = feed r c; (gs, r2) = feed_all r1 cs in (fs @ gs, r2))"

subsection \<open>The framing contract\<close>

locale framer =
  fixes split :: "bytes \<Rightarrow> ('f \<times> bytes) option"
    and drain :: "bytes \<Rightarrow> 'f list \<times> bytes"
  assumes split_shorter: "split buf = Some (f, rest) \<Longrightarrow> length rest < length buf"
    and split_append: "split buf = Some (f, rest) \<Longrightarrow> split (buf @ later) = Some (f, rest @ later)"
    and drain_unfold: "drain buf =
          (case split buf of None \<Rightarrow> ([], buf)
           | Some (f, rest) \<Rightarrow> (f # fst (drain rest), snd (drain rest)))"
begin

lemma drain_stuck: "split buf = None \<Longrightarrow> drain buf = ([], buf)"
  by (subst drain_unfold) simp

lemma drain_step:
  "split buf = Some (f, rest) \<Longrightarrow> drain buf = (f # fst (drain rest), snd (drain rest))"
  by (subst drain_unfold) simp

text \<open>What is left over holds no complete frame.\<close>

lemma drain_leftover: "split (snd (drain buf)) = None"
proof (induction buf rule: length_induct)
  case (1 buf)
  show ?case
  proof (cases "split buf")
    case None
    then show ?thesis by (simp add: drain_stuck)
  next
    case (Some p)
    then obtain f rest where s: "split buf = Some (f, rest)" by (cases p) auto
    with "1.IH" split_shorter show ?thesis by (simp add: drain_step)
  qed
qed

text \<open>Draining in two goes, with the second part of the input arriving in between.\<close>

lemma drain_append:
  "drain (buf @ later) =
     (fst (drain buf) @ fst (drain (snd (drain buf) @ later)), snd (drain (snd (drain buf) @ later)))"
proof (induction buf rule: length_induct)
  case (1 buf)
  show ?case
  proof (cases "split buf")
    case None
    then show ?thesis by (simp add: drain_stuck)
  next
    case (Some p)
    then obtain f rest where s: "split buf = Some (f, rest)" by (cases p) auto
    with "1.IH" split_shorter have
      "drain (rest @ later) = (fst (drain rest) @ fst (drain (snd (drain rest) @ later)),
        snd (drain (snd (drain rest) @ later)))" by blast
    with drain_step [OF s] drain_step [OF split_append [OF s]] show ?thesis by simp
  qed
qed

end

locale framed_codec = framer split drain
  for split :: "bytes \<Rightarrow> ('f \<times> bytes) option" and drain :: "bytes \<Rightarrow> 'f list \<times> bytes" +
  fixes enc :: "'f \<Rightarrow> js_error + bytes"
  assumes split_enc: "enc f = Inr w \<Longrightarrow> split (w @ rest) = Some (f, rest)"
begin

text \<open>A stream of whole frames followed by anything gives those frames first.\<close>

lemma drain_stream:
  "list_all2 (\<lambda>f w. enc f = Inr w) fs ws \<Longrightarrow>
   drain (concat ws @ rest) = (fs @ fst (drain rest), snd (drain rest))"
proof (induction rule: list_all2_induct)
  case (Cons f fs w ws)
  with drain_step [OF split_enc [OF Cons.hyps(1)], of "concat ws @ rest"] show ?case by simp
qed simp

end

subsection \<open>\<open>FrameReader\<close> meets the contract\<close>

text \<open>One round of the loop: the frame at the front of the buffer.\<close>

definition next_frame :: "bytes \<Rightarrow> (bytes \<times> bytes) option" where
  "next_frame buf =
     (if 3 \<le> length buf \<and> 3 + header_len buf \<le> length buf
      then Some (subarray buf 3 (3 + header_len buf), drop (3 + header_len buf) buf) else None)"

lemma header_len_append: "2 \<le> length buf \<Longrightarrow> header_len (buf @ xs) = header_len buf"
  by (cases buf) (auto simp: header_len_def nth_append)

lemma header_len_u16be: "n < 65536 \<Longrightarrow> header_len (u16be n @ xs) = n"
  using u16be_value [of n] by (simp add: header_len_def nth_append)

lemma feed_loop_step:
  "feed_loop buf frames =
     (case next_frame buf of None \<Rightarrow> (frames, buf)
      | Some (f, rest) \<Rightarrow> feed_loop rest (frames @ [f]))"
  by (subst feed_loop.simps) (auto simp: next_frame_def Let_def)

lemma feed_loop_acc:
  "feed_loop buf frames = (frames @ fst (feed_loop buf []), snd (feed_loop buf []))"
proof (induction buf arbitrary: frames rule: length_induct)
  case (1 buf)
  show ?case
  proof (cases "next_frame buf")
    case None
    then show ?thesis by (simp add: feed_loop_step [of buf])
  next
    case (Some p)
    then obtain f rest where nf: "next_frame buf = Some (f, rest)" by (cases p) auto
    then have "length rest < length buf" by (auto simp: next_frame_def split: if_splits)
    with "1.IH" have "feed_loop rest xs = (xs @ fst (feed_loop rest []), snd (feed_loop rest []))" for xs
      by blast
    from this [of "frames @ [f]"] this [of "[f]"] nf show ?thesis by (simp add: feed_loop_step [of buf])
  qed
qed

lemma next_frame_encoded:
  "encodeDeviceFrame p = Inr w \<Longrightarrow> next_frame (w @ rest) = Some (p, rest)"
  by (auto simp: encodeDeviceFrame_def next_frame_def header_len_u16be subarray_def split: if_splits)

interpretation reader: framed_codec next_frame "\<lambda>buf. feed_loop buf []" encodeDeviceFrame
proof unfold_locales
  fix buf f rest
  assume "next_frame buf = Some (f, rest)"
  then show "length rest < length buf" by (auto simp: next_frame_def split: if_splits)
next
  fix buf f rest later
  assume "next_frame buf = Some (f, rest)"
  then show "next_frame (buf @ later) = Some (f, rest @ later)"
    by (auto simp: next_frame_def header_len_append subarray_def split: if_splits)
next
  fix buf
  show "feed_loop buf [] =
      (case next_frame buf of None \<Rightarrow> ([], buf)
       | Some (f, rest) \<Rightarrow> (f # fst (feed_loop rest []), snd (feed_loop rest [])))"
    by (subst feed_loop_step) (auto simp: feed_loop_acc [of _ "[_]"] split: option.split)
qed (rule next_frame_encoded)

lemma feed_eq:
  "feed r chunk = (fst (feed_loop (fr_buf r @ chunk) []),
                   r\<lparr>fr_buf := snd (feed_loop (fr_buf r @ chunk) [])\<rparr>)"
  by (simp add: feed_def Let_def split_beta)

lemma feed_all_concat:
  "feed_all r (c # cs) = feed r (c @ concat cs)"
proof (induction cs arbitrary: r c)
  case Nil
  then show ?case by (simp add: split_beta)
next
  case (Cons d cs)
  let ?r1 = "snd (feed r c)"
  have "feed_all r (c # d # cs) =
      (fst (feed r c) @ fst (feed ?r1 (d @ concat cs)), snd (feed ?r1 (d @ concat cs)))"
    using Cons.IH [of ?r1 d] by (simp only: feed_all.simps(2) [of r c] Let_def split_beta)
  then show ?case
    using reader.drain_append [of "fr_buf r @ c" "d @ concat cs"] by (simp add: feed_eq)
qed

text \<open>Framing does not depend on how TCP cuts the stream: feeding a \<open>FrameReader\<close> any
  sequence of chunks returns, over all calls, the frames that one call with the whole stream
  returns, and leaves the same bytes buffered.
\<close>

theorem feed_all_chunks:
  "feed_all r (c # cs) = feed r (c @ concat cs)"
  by (rule feed_all_concat)

text \<open>C26. Delivery: whatever payloads a device frames and sends, however the network cuts the
  bytes, the reader returns exactly these payloads in order, and keeps the bytes of an
  incomplete last frame for later.
\<close>

theorem feed_all_delivers:
  assumes "list_all2 (\<lambda>p w. encodeDeviceFrame p = Inr w) payloads wires"
    and "c @ concat cs = concat wires @ partial" and "next_frame partial = None"
  shows "feed_all new_frame_reader (c # cs) = (payloads, \<lparr>fr_buf = partial\<rparr>)"
  using reader.drain_stream [OF assms(1), of partial] reader.drain_stuck [OF assms(3)] assms(2)
  by (simp add: feed_all_concat feed_eq new_frame_reader_def del: feed_all.simps)

theorem feed_all_delivers_witness:
  "feed_all new_frame_reader [[0], [2, 0xFF, 7], [8, 0]] = ([[7, 8]], \<lparr>fr_buf = [0]\<rparr>)"
proof -
  have "list_all2 (\<lambda>p w. encodeDeviceFrame p = Inr w) [[7, 8]] [[0, 2, 0xFF, 7, 8]]"
    by (simp add: encodeDeviceFrame_def u16be_def SYNC_BYTE_def)
  moreover have "[0] @ concat [[2, 0xFF, 7], [8, 0]] = concat [[0, 2, 0xFF, 7, 8]] @ [0 :: byte]" by simp
  moreover have "next_frame [0] = None" by (simp add: next_frame_def)
  ultimately show ?thesis by (rule feed_all_delivers)
qed

text \<open>After any input, the reader holds back no complete frame and fewer than 65538 bytes.\<close>

lemma header_len_bound: "header_len buf < 65536"
proof -
  have "unat (buf ! 0) < 256" and "unat (buf ! 1) < 256" by simp_all
  then show ?thesis unfolding header_len_def by linarith
qed

text \<open>What a \<open>FrameReader\<close> may hold back: after any call of \<open>feed\<close> the buffered bytes
  contain no complete frame, and they are fewer than 3 + 65535 however much was fed.
\<close>

theorem feed_backlog:
  "next_frame (fr_buf (snd (feed r chunk))) = None \<and> length (fr_buf (snd (feed r chunk))) < 65538"
proof -
  let ?b = "fr_buf (snd (feed r chunk))"
  have "next_frame ?b = None" using reader.drain_leftover by (simp add: feed_eq)
  moreover from this have "length ?b < 3 + header_len ?b \<or> length ?b < 3"
    by (auto simp: next_frame_def split: if_splits)
  ultimately show ?thesis using header_len_bound [of ?b] by linarith
qed

subsection \<open>The firmware's side\<close>

text \<open>
  The receive path of a device, as \<open>device.readFrame\<close> of \<open>test/handshake.test.js\<close> has it:
  two length bytes, then the body, no sync byte.
\<close>

definition device_next :: "bytes \<Rightarrow> (bytes \<times> bytes) option" where
  "device_next buf =
     (if 2 \<le> length buf \<and> 2 + header_len buf \<le> length buf
      then Some (subarray buf 2 (2 + header_len buf), drop (2 + header_len buf) buf) else None)"

function device_drain :: "bytes \<Rightarrow> bytes list \<times> bytes" where
  "device_drain buf =
     (case device_next buf of None \<Rightarrow> ([], buf)
      | Some (f, rest) \<Rightarrow> (f # fst (device_drain rest), snd (device_drain rest)))"
  by pat_completeness auto
termination
  by (relation "measure length") (auto simp: device_next_def split: if_splits)

declare device_drain.simps [simp del]

interpretation device: framed_codec device_next device_drain encodeFrame
proof unfold_locales
  fix buf f rest
  assume "device_next buf = Some (f, rest)"
  then show "length rest < length buf" by (auto simp: device_next_def split: if_splits)
next
  fix buf f rest later
  assume "device_next buf = Some (f, rest)"
  then show "device_next (buf @ later) = Some (f, rest @ later)"
    by (auto simp: device_next_def header_len_append subarray_def split: if_splits)
next
  fix f w rest
  assume "encodeFrame f = Inr w"
  then show "device_next (w @ rest) = Some (f, rest)"
    by (auto simp: encodeFrame_def device_next_def header_len_u16be subarray_def split: if_splits)
qed (rule device_drain.simps)

text \<open>A device that reads two length bytes and then the body gets back every payload the
  server frames with \<open>encodeFrame\<close>, in order, and nothing else; \<open>encodeFrame\<close> refuses
  exactly the payloads of more than 65535 bytes, whose length would not fit.
\<close>

theorem encodeFrame_roundtrip:
  "device_drain (concat (map projr (filter (\<lambda>r. \<not> isl r) (map encodeFrame payloads)))) =
     (filter (\<lambda>p. length p \<le> 65535) payloads, [])"
proof -
  let ?ok = "filter (\<lambda>p. length p \<le> 65535) payloads"
  have "filter (\<lambda>r. \<not> isl r) (map encodeFrame payloads) = map encodeFrame ?ok"
    by (induction payloads) (simp_all add: encodeFrame_def)
  moreover have "list_all2 (\<lambda>f w. encodeFrame f = Inr w) ?ok (map projr (map encodeFrame ?ok))"
    by (induction payloads) (simp_all add: encodeFrame_def)
  moreover have "device_drain [] = ([], [])" by (subst device_drain.simps) (simp add: device_next_def)
  ultimately show ?thesis using device.drain_stream [of ?ok _ "[]"] by simp
qed

end
