(* ===== verification/Crypto.thy ===== *)
theory Crypto
  imports Prelude
begin

section \<open>The cryptographic wrappers (\<open>lib/crypto.js\<close>)\<close>

text \<open>
  \<open>lib/crypto.js\<close> wraps \<open>node:crypto\<close>. The primitives proper (the AES block function, RSA,
  HMAC-SHA1, key parsing, the random source) are parameters of the model; the modes and
  conventions around them are written out: CBC chaining, the PKCS#7 padding that Node's cipher
  adds, the lenient unpadding of \<open>aesDecrypt\<close>, the split of the session material, the choice
  between PEM and DER and the comparison in \<open>rsaVerify\<close>. What is relied on of AES is
  \<open>block_cipher\<close>: on 16-byte keys and blocks, decryption undoes encryption.
\<close>

subsection \<open>AES-128-CBC\<close>

type_synonym block_fun = "bytes \<Rightarrow> bytes \<Rightarrow> bytes"

definition block_cipher :: "block_fun \<Rightarrow> block_fun \<Rightarrow> bool" where
  "block_cipher E D \<longleftrightarrow>
     (\<forall>key b. length key = 16 \<and> length b = 16 \<longrightarrow>
        length (E key b) = 16 \<and> length (D key b) = 16 \<and> D key (E key b) = b)"

definition xor_bytes :: "bytes \<Rightarrow> bytes \<Rightarrow> bytes" where
  "xor_bytes xs ys = map2 (XOR) xs ys"

function cbc_encrypt :: "block_fun \<Rightarrow> bytes \<Rightarrow> bytes \<Rightarrow> bytes \<Rightarrow> bytes" where
  "cbc_encrypt E key iv pt =
     (if pt = [] then []
      else let c = E key (xor_bytes (take 16 pt) iv) in c @ cbc_encrypt E key c (drop 16 pt))"
  by pat_completeness auto
termination
  by (relation "measure (\<lambda>(E, key, iv, pt). length pt)") auto

function cbc_decrypt :: "block_fun \<Rightarrow> bytes \<Rightarrow> bytes \<Rightarrow> bytes \<Rightarrow> bytes" where
  "cbc_decrypt D key iv ct =
     (if ct = [] then []
      else xor_bytes (D key (take 16 ct)) iv @ cbc_decrypt D key (take 16 ct) (drop 16 ct))"
  by pat_completeness auto
termination
  by (relation "measure (\<lambda>(D, key, iv, ct). length ct)") auto

declare cbc_encrypt.simps [simp del] cbc_decrypt.simps [simp del]

definition pkcs7_pad :: "bytes \<Rightarrow> bytes" where
  "pkcs7_pad pt = (let n = 16 - length pt mod 16 in pt @ replicate n (word_of_nat n))"

definition check_key_iv :: "bytes \<Rightarrow> bytes \<Rightarrow> js_error + unit" where
  "check_key_iv key iv =
     (if length key \<noteq> 16 then Inl (NodeError ''ERR_CRYPTO_INVALID_KEYLEN'')
      else if length iv \<noteq> 16 then Inl (NodeError ''ERR_CRYPTO_INVALID_IV'')
      else Inr ())"

definition aesEncrypt :: "block_fun \<Rightarrow> bytes \<Rightarrow> bytes \<Rightarrow> bytes \<Rightarrow> js_error + bytes" where
  "aesEncrypt E key iv plaintext =
     bindE (check_key_iv key iv) (\<lambda>_. Inr (cbc_encrypt E key iv (pkcs7_pad plaintext)))"

text \<open>The padding that \<open>aesDecrypt\<close> strips: the last byte when it is in [1, 16].\<close>

definition strip_pad :: "bytes \<Rightarrow> bytes" where
  "strip_pad raw =
     (if raw = [] then raw
      else let pad = unat (last raw) in
           if 1 \<le> pad \<and> pad \<le> 16 then take (length raw - pad) raw else raw)"

definition aesDecrypt :: "block_fun \<Rightarrow> bytes \<Rightarrow> bytes \<Rightarrow> bytes \<Rightarrow> js_error + bytes" where
  "aesDecrypt D key iv ciphertext =
     bindE (check_key_iv key iv) (\<lambda>_.
       if length ciphertext mod 16 \<noteq> 0 then Inl (NodeError ''ERR_OSSL_WRONG_FINAL_BLOCK_LENGTH'')
       else Inr (strip_pad (cbc_decrypt D key iv ciphertext)))"

record aes_params =
  ap_key :: bytes
  ap_iv :: bytes

definition deriveAesParams :: "bytes \<Rightarrow> js_error + aes_params" where
  "deriveAesParams sessionKey =
     (if length sessionKey < 32
      then Inl (RangeError (''session key too short: '' @ dec (length sessionKey) @ '' bytes (need >= 32)''))
      else Inr \<lparr>ap_key = subarray sessionKey 0 16, ap_iv = subarray sessionKey 16 32\<rparr>)"

subsection \<open>RSA\<close>

datatype padding = RSA_PKCS1 | RSA_OAEP

text \<open>
  Node's four RSA functions on key objects. \<open>publicEncrypt\<close> pads with random bytes, which the
  model passes in.
\<close>

record ('pub, 'priv) node_rsa =
  publicEncrypt :: "'pub \<Rightarrow> padding \<Rightarrow> bytes \<Rightarrow> bytes \<Rightarrow> js_error + bytes"
  privateDecrypt :: "'priv \<Rightarrow> padding \<Rightarrow> bytes \<Rightarrow> js_error + bytes"
  privateEncrypt :: "'priv \<Rightarrow> padding \<Rightarrow> bytes \<Rightarrow> js_error + bytes"
  publicDecrypt :: "'pub \<Rightarrow> padding \<Rightarrow> bytes \<Rightarrow> js_error + bytes"

definition rsaEncrypt :: "('pub, 'priv) node_rsa \<Rightarrow> 'pub \<Rightarrow> bytes \<Rightarrow> bytes \<Rightarrow> js_error + bytes" where
  "rsaEncrypt node publicKey rnd plaintext = publicEncrypt node publicKey RSA_PKCS1 rnd plaintext"

definition rsaDecrypt :: "('pub, 'priv) node_rsa \<Rightarrow> 'priv \<Rightarrow> bytes \<Rightarrow> js_error + bytes" where
  "rsaDecrypt node privateKey ciphertext = privateDecrypt node privateKey RSA_PKCS1 ciphertext"

definition rsaSign :: "('pub, 'priv) node_rsa \<Rightarrow> 'priv \<Rightarrow> bytes \<Rightarrow> js_error + bytes" where
  "rsaSign node privateKey hash = privateEncrypt node privateKey RSA_PKCS1 hash"

definition rsaVerify :: "('pub, 'priv) node_rsa \<Rightarrow> 'pub \<Rightarrow> bytes \<Rightarrow> bytes \<Rightarrow> bool" where
  "rsaVerify node publicKey hash signature =
     (case publicDecrypt node publicKey RSA_PKCS1 signature of
        Inl e \<Rightarrow> False
      | Inr recovered \<Rightarrow> if length recovered \<noteq> length hash then False else recovered = hash)"

text \<open>Key material is a string or a buffer; \<open>toString('ascii')\<close> clears the top bit of a byte.\<close>

datatype key_material = KeyText string | KeyBuffer bytes

datatype key_source = FromPem key_material | FromDerSpki key_material

definition ascii_text :: "bytes \<Rightarrow> string" where
  "ascii_text bs = map (\<lambda>b. char_of (unat b mod 128)) bs"

fun looksPem :: "key_material \<Rightarrow> bool" where
  "looksPem (KeyText s) \<longleftrightarrow> True"
| "looksPem (KeyBuffer b) \<longleftrightarrow> ascii_text (take 5 b) = ''-----''"

definition loadPublicKey :: "(key_source \<Rightarrow> js_error + 'pub) \<Rightarrow> key_material \<Rightarrow> js_error + 'pub" where
  "loadPublicKey createPublicKey keyMaterial =
     (if looksPem keyMaterial then createPublicKey (FromPem keyMaterial)
      else createPublicKey (FromDerSpki keyMaterial))"

definition loadPrivateKey ::
    "(key_material \<Rightarrow> string option \<Rightarrow> js_error + 'priv) \<Rightarrow> key_material \<Rightarrow> string option \<Rightarrow>
     js_error + 'priv" where
  "loadPrivateKey createPrivateKey keyMaterial passphrase =
     (case passphrase of
        None \<Rightarrow> createPrivateKey keyMaterial None
      | Some p \<Rightarrow> createPrivateKey keyMaterial (if p = [] then None else Some p))"

subsection \<open>CBC and its padding\<close>

lemma length_xor_bytes [simp]: "length (xor_bytes xs ys) = min (length xs) (length ys)"
  by (simp add: xor_bytes_def)

lemma xor_bytes_cancel: "length xs \<le> length ys \<Longrightarrow> xor_bytes (xor_bytes xs ys) ys = xs"
  by (induction xs ys rule: list_induct2') (simp_all add: xor_bytes_def xor.assoc)

lemma block_cipherD:
  assumes "block_cipher E D" and "length key = 16" and "length b = 16"
  shows "length (E key b) = 16" and "length (D key b) = 16" and "D key (E key b) = b"
  using assms by (simp_all add: block_cipher_def)

text \<open>Induction over the 16-byte blocks of a buffer.\<close>

lemma block_induct [consumes 1, case_names Nil Block]:
  assumes "length xs mod 16 = 0"
    and "P []"
    and "\<And>b xs. length b = 16 \<Longrightarrow> length xs mod 16 = 0 \<Longrightarrow> P xs \<Longrightarrow> P (b @ xs)"
  shows "P xs"
  using assms(1)
proof (induction xs rule: length_induct)
  case (1 xs)
  show ?case
  proof (cases "xs = []")
    case True
    with assms(2) show ?thesis by simp
  next
    case False
    with "1.prems" have len: "16 \<le> length xs"
      by (metis length_0_conv mod_less not_less)
    then have rest: "length (drop 16 xs) mod 16 = 0"
      using "1.prems" by (simp add: mod_if)
    with "1.IH" False have "P (drop 16 xs)" by (simp add: length_drop)
    with assms(3) [of "take 16 xs" "drop 16 xs"] len rest show ?thesis by simp
  qed
qed

lemma cbc_encrypt_Nil [simp]: "cbc_encrypt E key iv [] = []"
  by (simp add: cbc_encrypt.simps)

lemma cbc_decrypt_Nil [simp]: "cbc_decrypt D key iv [] = []"
  by (simp add: cbc_decrypt.simps)

lemma cbc_encrypt_block:
  "length b = 16 \<Longrightarrow> cbc_encrypt E key iv (b @ pt) =
     E key (xor_bytes b iv) @ cbc_encrypt E key (E key (xor_bytes b iv)) pt"
  by (cases b) (simp_all add: cbc_encrypt.simps [of E key iv] Let_def)

lemma cbc_decrypt_block:
  "length b = 16 \<Longrightarrow> cbc_decrypt D key iv (b @ ct) =
     xor_bytes (D key b) iv @ cbc_decrypt D key b ct"
  by (cases b) (simp_all add: cbc_decrypt.simps [of D key iv])

lemma length_cbc_encrypt:
  assumes "length pt mod 16 = 0" and "block_cipher E D" and "length key = 16" and "length iv = 16"
  shows "length (cbc_encrypt E key iv pt) = length pt"
  using assms(1,4)
proof (induction pt arbitrary: iv rule: block_induct)
  case (Block b pt)
  then have "length (xor_bytes b iv) = 16" by simp
  with Block block_cipherD(1) [OF assms(2,3)] show ?case by (simp add: cbc_encrypt_block)
qed simp

lemma length_cbc_decrypt:
  assumes "length ct mod 16 = 0" and "block_cipher E D" and "length key = 16" and "length iv = 16"
  shows "length (cbc_decrypt D key iv ct) = length ct"
  using assms(1,4)
proof (induction ct arbitrary: iv rule: block_induct)
  case (Block b ct)
  with block_cipherD(2) [OF assms(2,3)] show ?case by (simp add: cbc_decrypt_block)
qed simp

lemma cbc_roundtrip:
  assumes "length pt mod 16 = 0" and "block_cipher E D" and "length key = 16" and "length iv = 16"
  shows "cbc_decrypt D key iv (cbc_encrypt E key iv pt) = pt"
  using assms(1,4)
proof (induction pt arbitrary: iv rule: block_induct)
  case (Block b pt)
  then have x: "length (xor_bytes b iv) = 16" by simp
  with Block block_cipherD [OF assms(2,3) x] show ?case
    by (simp add: cbc_encrypt_block cbc_decrypt_block xor_bytes_cancel)
qed simp

lemma pad_size: "1 \<le> 16 - n mod 16 \<and> 16 - n mod 16 \<le> (16 :: nat)"
  using mod_less_divisor [of 16 n] by simp

lemma length_pkcs7_pad: "length (pkcs7_pad pt) = 16 * (length pt div 16 + 1)"
proof -
  define q r where "q = length pt div 16" and "r = length pt mod 16"
  then have "length pt = 16 * q + r" and "r < 16" by simp_all
  then show ?thesis
    unfolding pkcs7_pad_def Let_def q_def [symmetric] r_def [symmetric] by simp
qed

lemma strip_pkcs7_pad: "strip_pad (pkcs7_pad pt) = pt"
proof -
  define n where "n = 16 - length pt mod 16"
  have n: "1 \<le> n" "n \<le> 16" unfolding n_def using pad_size by blast+
  then have "unat (last (pkcs7_pad pt)) = n"
    by (simp add: pkcs7_pad_def n_def [symmetric] unat_word_of_nat_byte)
  moreover have "pkcs7_pad pt = pt @ replicate n (word_of_nat n)" by (simp add: pkcs7_pad_def n_def)
  ultimately show ?thesis using n by (simp add: strip_pad_def Let_def)
qed

lemma aesEncrypt_Inr:
  "length key = 16 \<Longrightarrow> length iv = 16 \<Longrightarrow>
   aesEncrypt E key iv pt = Inr (cbc_encrypt E key iv (pkcs7_pad pt))"
  by (simp add: aesEncrypt_def check_key_iv_def)

lemma aesEncrypt_Inr_iff:
  "aesEncrypt E key iv pt = Inr ct \<longleftrightarrow>
   length key = 16 \<and> length iv = 16 \<and> ct = cbc_encrypt E key iv (pkcs7_pad pt)"
  by (auto simp: aesEncrypt_def check_key_iv_def)

lemma aesDecrypt_Inr_iff:
  "aesDecrypt D key iv ct = Inr pt \<longleftrightarrow>
   length key = 16 \<and> length iv = 16 \<and> length ct mod 16 = 0 \<and> pt = strip_pad (cbc_decrypt D key iv ct)"
  by (auto simp: aesDecrypt_def check_key_iv_def)

text \<open>A concrete block cipher for the witnesses: the block XORed with the key.\<close>

definition xor_cipher :: block_fun where
  "xor_cipher key b = xor_bytes b key"

lemma xor_cipher_ok: "block_cipher xor_cipher xor_cipher"
  by (simp add: block_cipher_def xor_cipher_def xor_bytes_cancel)

lemma aes_roundtrip_ct:
  assumes "block_cipher E D" and "aesEncrypt E key iv pt = Inr ct"
  shows "aesDecrypt D key iv ct = Inr pt" and "length ct = 16 * (length pt div 16 + 1)"
proof -
  from assms(2) have k: "length key = 16" "length iv = 16" and ct: "ct = cbc_encrypt E key iv (pkcs7_pad pt)"
    by (simp_all add: aesEncrypt_Inr_iff)
  have m: "length (pkcs7_pad pt) mod 16 = 0" by (simp add: length_pkcs7_pad)
  show len: "length ct = 16 * (length pt div 16 + 1)"
    using length_cbc_encrypt [OF m assms(1) k] ct length_pkcs7_pad by simp
  show "aesDecrypt D key iv ct = Inr pt"
    using len ct k cbc_roundtrip [OF m assms(1) k] by (simp add: aesDecrypt_Inr_iff strip_pkcs7_pad)
qed

text \<open>C33. Round trip of the session cipher: with a 16-byte key and IV, \<open>aesEncrypt\<close> succeeds on
  every plaintext, \<open>aesDecrypt\<close> with the same key and IV returns that plaintext exactly (in
  particular one that ends in bytes which look like padding), and the ciphertext is the plaintext
  rounded up to the next multiple of 16, so never empty.
\<close>

theorem aes_roundtrip:
  assumes "block_cipher E D" and "length key = 16" and "length iv = 16"
  shows "\<exists>ct. aesEncrypt E key iv pt = Inr ct \<and> aesDecrypt D key iv ct = Inr pt \<and>
              length ct = 16 * (length pt div 16 + 1)"
  using aesEncrypt_Inr [OF assms(2,3)] aes_roundtrip_ct [OF assms(1)] by blast

theorem aes_roundtrip_witness:
  "\<exists>ct. aesEncrypt xor_cipher (replicate 16 7) (replicate 16 9) [1, 2, 2] = Inr ct \<and>
        aesDecrypt xor_cipher (replicate 16 7) (replicate 16 9) ct = Inr [1, 2, 2] \<and>
        length ct = 16"
  using aes_roundtrip [OF xor_cipher_ok, of "replicate 16 7" "replicate 16 9" "[1, 2, 2]"] by simp

text \<open>Frames that are not padded at all (a plaintext of a multiple of 16 bytes encrypted as it
  is, the case for which \<open>aesDecrypt\<close> departs from PKCS#7): they are returned unchanged, except
  that a final byte between 1 and 16 is taken for padding and that many bytes of the message are
  lost.
\<close>

theorem aesDecrypt_unpadded:
  assumes "block_cipher E D" and "length key = 16" and "length iv = 16"
    and "length raw mod 16 = 0" and "raw \<noteq> []"
  shows "aesDecrypt D key iv (cbc_encrypt E key iv raw) =
           Inr (if unat (last raw) \<in> {1..16} then take (length raw - unat (last raw)) raw else raw)"
  using assms length_cbc_encrypt [OF assms(4,1,2,3)] cbc_roundtrip [OF assms(4,1,2,3)]
  by (simp add: aesDecrypt_def check_key_iv_def strip_pad_def Let_def)

theorem aesDecrypt_unpadded_witness:
  "aesDecrypt xor_cipher (replicate 16 7) (replicate 16 9)
     (cbc_encrypt xor_cipher (replicate 16 7) (replicate 16 9) (replicate 16 3)) = Inr (replicate 13 3)"
  using aesDecrypt_unpadded [OF xor_cipher_ok, of "replicate 16 7" "replicate 16 9" "replicate 16 3"]
  by simp

text \<open>When \<open>aesDecrypt\<close> fails, and with which error: a key or IV that is not 16 bytes long, or
  a ciphertext that is not a whole number of blocks. The empty ciphertext is not an error: it
  decrypts to the empty plaintext.
\<close>

theorem aesDecrypt_outcomes:
  "aesDecrypt D key iv ct =
     (if length key \<noteq> 16 then Inl (NodeError ''ERR_CRYPTO_INVALID_KEYLEN'')
      else if length iv \<noteq> 16 then Inl (NodeError ''ERR_CRYPTO_INVALID_IV'')
      else if length ct mod 16 \<noteq> 0 then Inl (NodeError ''ERR_OSSL_WRONG_FINAL_BLOCK_LENGTH'')
      else if ct = [] then Inr []
      else Inr (strip_pad (cbc_decrypt D key iv ct)))"
  by (simp add: aesDecrypt_def check_key_iv_def strip_pad_def)

subsection \<open>Session material and signatures\<close>

text \<open>The 40-byte session material is split as the firmware expects it: the key is its first 16
  bytes and the IV the next 16, so that key, IV and the unused rest are the material again;
  material of fewer than 32 bytes is refused.
\<close>

theorem deriveAesParams_split:
  "(\<exists>p. deriveAesParams sk = Inr p \<and> length (ap_key p) = 16 \<and> length (ap_iv p) = 16 \<and>
        ap_key p @ ap_iv p @ drop 32 sk = sk) = (32 \<le> length sk)"
proof -
  have 1: "take 16 (drop 16 sk) @ drop 32 sk = drop 16 sk"
    using append_take_drop_id [of 16 "drop 16 sk"] by simp
  have "take 16 sk @ take 16 (drop 16 sk) @ drop 32 sk = sk"
    unfolding 1 by (rule append_take_drop_id)
  then show ?thesis by (auto simp: deriveAesParams_def subarray_def)
qed

lemma deriveAesParams_Inr:
  "deriveAesParams sk = Inr p \<Longrightarrow>
   length (ap_key p) = 16 \<and> length (ap_iv p) = 16 \<and> ap_key p = take 16 sk \<and> ap_iv p = take 16 (drop 16 sk)"
  by (auto simp: deriveAesParams_def subarray_def split: if_splits)

text \<open>\<open>rsaVerify\<close> accepts exactly the signatures from which the public key recovers the
  expected hash, byte for byte; any failure to decrypt is a refusal, never an exception. So what
  \<open>rsaSign\<close> produced is accepted for its own hash and refused for every other.
\<close>

theorem rsaVerify_sign:
  assumes "\<And>h s. privateEncrypt node priv RSA_PKCS1 h = Inr s \<Longrightarrow> publicDecrypt node pub RSA_PKCS1 s = Inr h"
    and "rsaSign node priv hash = Inr sig"
  shows "rsaVerify node pub hash' sig \<longleftrightarrow> hash' = hash"
  using assms(1) [of hash sig] assms(2) by (auto simp: rsaVerify_def rsaSign_def)

definition toy_rsa :: "(unit, unit) node_rsa" where
  "toy_rsa =
     \<lparr>publicEncrypt = (\<lambda>_ _ _ m. Inr (0 # m)),
      privateDecrypt = (\<lambda>_ _ c. case c of [] \<Rightarrow> Inl (NodeError ''ERR_OSSL_RSA'') | _ # m \<Rightarrow> Inr m),
      privateEncrypt = (\<lambda>_ _ h. Inr (1 # h)),
      publicDecrypt = (\<lambda>_ _ s. case s of [] \<Rightarrow> Inl (NodeError ''ERR_OSSL_RSA'') | _ # h \<Rightarrow> Inr h)\<rparr>"

theorem rsaVerify_sign_witness:
  "rsaVerify toy_rsa () [5, 6] [1, 5, 6] \<and> \<not> rsaVerify toy_rsa () [5] [1, 5, 6]"
proof -
  have 1: "privateEncrypt toy_rsa () RSA_PKCS1 h = Inr s \<Longrightarrow> publicDecrypt toy_rsa () RSA_PKCS1 s = Inr h"
    for h s by (auto simp: toy_rsa_def)
  have 2: "rsaSign toy_rsa () [5, 6] = Inr [1, 5, 6]" by (simp add: rsaSign_def toy_rsa_def)
  from rsaVerify_sign [of toy_rsa "()" "()", OF 1 2, of "[5, 6]"]
    rsaVerify_sign [of toy_rsa "()" "()", OF 1 2, of "[5]"]
  show ?thesis by simp
qed

end
