(* ===== verification/Machine.thy ===== *)
theory Machine
  imports Main
begin

section \<open>Runs of an event-driven component\<close>

text \<open>
  Every stateful component of the program is an object whose methods and callbacks run to
  completion, one event after another. It is modelled by a step function that takes the state
  and an event to the next state and the list of visible effects, in their order. \<open>run\<close>
  folds a step function over a sequence of events; the locale \<open>machine\<close> is the contract
  under which an invariant of single steps is an invariant of all runs, and a condition on the
  effects of a step one on the effects of all runs.
\<close>

fun run :: "('s \<Rightarrow> 'e \<Rightarrow> 's \<times> 'o list) \<Rightarrow> 's \<Rightarrow> 'e list \<Rightarrow> 's \<times> 'o list" where
  "run step s [] = (s, [])"
| "run step s (e # es) =
     (let (s1, os) = step s e; (s2, os') = run step s1 es in (s2, os @ os'))"

lemma run_Cons:
  "run step s (e # es) =
     (fst (run step (fst (step s e)) es), snd (step s e) @ snd (run step (fst (step s e)) es))"
  by (simp add: split_beta)

declare run.simps(2) [simp del]

lemma run_append:
  "run step s (es @ fs) =
     (fst (run step (fst (run step s es)) fs),
      snd (run step s es) @ snd (run step (fst (run step s es)) fs))"
  by (induction es arbitrary: s) (simp_all add: run_Cons)

locale machine =
  fixes init :: 's
    and step :: "'s \<Rightarrow> 'e \<Rightarrow> 's \<times> 'o list"
    and inv :: "'s \<Rightarrow> bool"
    and good :: "'o \<Rightarrow> bool"
  assumes inv_init: "inv init"
    and inv_step: "inv s \<Longrightarrow> inv (fst (step s e))"
    and good_step: "inv s \<Longrightarrow> list_all good (snd (step s e))"
begin

lemma inv_run_from: "inv s \<Longrightarrow> inv (fst (run step s es))"
  by (induction es arbitrary: s) (simp_all add: run_Cons inv_step)

lemma inv_run: "inv (fst (run step init es))"
  by (rule inv_run_from) (rule inv_init)

lemma good_run_from: "inv s \<Longrightarrow> list_all good (snd (run step s es))"
  by (induction es arbitrary: s) (simp_all add: run_Cons inv_step good_step)

lemma good_run: "list_all good (snd (run step init es))"
  by (rule good_run_from) (rule inv_init)

end

end
