(* ===== verification/Handshake.thy ===== *)
theory Handshake
  imports Coap Messages Chunking Crypto Machine
begin

section \<open>The six-stage handshake (\<open>lib/handshake.js\<close>)\<close>

text \<open>
  \<open>runHandshake\<close> is an async function: straight-line code cut by six awaits. The model keeps
  the cuts. \<open>hs_pc\<close> says at which await the function is suspended, with the local variables
  that are live there; \<open>hs_start\<close> runs it from the call to the first await and \<open>hs_resume\<close>
  from the settling of the awaited promise to the next await, the return or the throw. Both give
  the bytes written to the socket on the way. \<open>hs_request\<close> names what is awaited.

  The environment holds what the code takes from \<open>node:crypto\<close>: the AES block functions, HMAC,
  and the values that the three calls of \<open>randomBuffer\<close> return in this run.
\<close>

subsection \<open>State\<close>

datatype stage =
    SEND_NONCE | READ_COREID | GET_COREKEY | SEND_SESSIONKEY | GET_HELLO | SEND_HELLO | DONE

text \<open>The stages are ordered as the protocol passes through them.\<close>

fun stage_index :: "stage \<Rightarrow> nat" where
  "stage_index SEND_NONCE = 1"
| "stage_index READ_COREID = 2"
| "stage_index GET_COREKEY = 3"
| "stage_index SEND_SESSIONKEY = 4"
| "stage_index GET_HELLO = 5"
| "stage_index SEND_HELLO = 6"
| "stage_index DONE = 7"

lemma stage_index_inject [simp]: "stage_index a = stage_index b \<longleftrightarrow> a = b"
  by (cases a; cases b) simp_all

instantiation stage :: linorder
begin

definition less_eq_stage :: "stage \<Rightarrow> stage \<Rightarrow> bool" where
  "less_eq_stage a b \<longleftrightarrow> stage_index a \<le> stage_index b"

definition less_stage :: "stage \<Rightarrow> stage \<Rightarrow> bool" where
  "less_stage a b \<longleftrightarrow> stage_index a < stage_index b"

instance
  by standard (auto simp: less_eq_stage_def less_stage_def simp flip: stage_index_inject)

end

record hs_env =
  env_E :: block_fun
  env_D :: block_fun
  env_hmac :: "bytes \<Rightarrow> bytes \<Rightarrow> bytes"
  env_serverPriv :: string
  env_nonce :: bytes
  env_sessionKey :: bytes
  env_counter :: bytes

record hs_result =
  r_coreId :: string
  r_sessionKey :: bytes
  r_aesKey :: bytes
  r_ivIn :: bytes
  r_ivOut :: bytes
  r_recvCounter :: int
  r_sendCounter :: int
  r_productId :: "nat option"
  r_firmwareVersion :: "nat option"

datatype hs_pc =
    AtReadCoreId
  | AtDecrypt bytes
  | AtCoreKey string "bytes option"
  | AtEncrypt string string
  | AtSign string bytes
  | AtHello string bytes bytes
  | Finished hs_result
  | Failed js_error

record progress =
  p_stage :: stage
  p_coreId :: "string option"

record hs_state =
  pc :: hs_pc
  prog :: progress

datatype hs_request =
    ReadBytes nat
  | PoolDecrypt string bytes
  | LoadCoreKey string "bytes option"
  | PoolEncrypt string bytes
  | PoolSign string bytes
  | ReadFrame

fun awaited :: "hs_env \<Rightarrow> hs_pc \<Rightarrow> hs_request option" where
  "awaited env AtReadCoreId = Some (ReadBytes 256)"
| "awaited env (AtDecrypt ct) = Some (PoolDecrypt (env_serverPriv env) ct)"
| "awaited env (AtCoreKey coreId der) = Some (LoadCoreKey coreId der)"
| "awaited env (AtEncrypt coreId pem) = Some (PoolEncrypt pem (env_sessionKey env))"
| "awaited env (AtSign coreId ct) =
     Some (PoolSign (env_serverPriv env) (env_hmac env ct (env_sessionKey env)))"
| "awaited env (AtHello coreId key iv) = Some ReadFrame"
| "awaited env (Finished r) = None"
| "awaited env (Failed e) = None"

text \<open>How an awaited promise settles: with a buffer, with the loader's answer, or rejected.\<close>

datatype hs_reply = GotBytes bytes | GotKey "string option" | Rejected js_error

subsection \<open>The segments between the awaits\<close>

definition NONCE_BYTES :: nat where "NONCE_BYTES = 40"
definition ID_BYTES :: nat where "ID_BYTES = 12"
definition SESSION_BYTES :: nat where "SESSION_BYTES = 40"

definition hs_fail :: "hs_state \<Rightarrow> js_error \<Rightarrow> hs_state \<times> bytes list" where
  "hs_fail s e = (s\<lparr>pc := Failed e\<rparr>, [])"

definition hs_start :: "hs_env \<Rightarrow> hs_state \<times> bytes list" where
  "hs_start env =
     (\<lparr>pc = AtReadCoreId, prog = \<lparr>p_stage = READ_COREID, p_coreId = None\<rparr>\<rparr>, [env_nonce env])"

definition after_decrypt :: "hs_env \<Rightarrow> hs_state \<Rightarrow> bytes \<Rightarrow> hs_state \<times> bytes list" where
  "after_decrypt env s plaintext =
     (if length plaintext < NONCE_BYTES + ID_BYTES then
        hs_fail s (HandshakeError ''plaintext too small'' (LengthField (length plaintext)))
      else if subarray plaintext 0 NONCE_BYTES \<noteq> env_nonce env then
        hs_fail s (HandshakeError ''nonce mismatch'' NoFields)
      else
        let coreId = to_hex (subarray plaintext NONCE_BYTES (NONCE_BYTES + ID_BYTES));
            inlineDer = (if length plaintext > NONCE_BYTES + ID_BYTES
                         then Some (drop (NONCE_BYTES + ID_BYTES) plaintext) else None)
        in (\<lparr>pc = AtCoreKey coreId inlineDer,
             prog = \<lparr>p_stage = GET_COREKEY, p_coreId = Some coreId\<rparr>\<rparr>, []))"

definition set_stage :: "stage \<Rightarrow> hs_state \<Rightarrow> hs_state" where
  "set_stage st s = s\<lparr>prog := (prog s)\<lparr>p_stage := st\<rparr>\<rparr>"

definition after_core_key :: "hs_state \<Rightarrow> string \<Rightarrow> string option \<Rightarrow> hs_state \<times> bytes list" where
  "after_core_key s coreId corePubPem =
     (case corePubPem of
        None \<Rightarrow> hs_fail s (HandshakeError ''core key not found'' (CoreIdField coreId))
      | Some pem \<Rightarrow>
          if pem = '''' then hs_fail s (HandshakeError ''core key not found'' (CoreIdField coreId))
          else ((set_stage SEND_SESSIONKEY s)\<lparr>pc := AtEncrypt coreId pem\<rparr>, []))"

definition after_sign :: "hs_env \<Rightarrow> hs_state \<Rightarrow> string \<Rightarrow> bytes \<Rightarrow> bytes \<Rightarrow> hs_state \<times> bytes list" where
  "after_sign env s coreId sessionCiphertext signature =
     (let out = sessionCiphertext @ signature in
      case deriveAesParams (env_sessionKey env) of
        Inl e \<Rightarrow> (s\<lparr>pc := Failed e\<rparr>, [out])
      | Inr p \<Rightarrow>
          ((set_stage GET_HELLO s)\<lparr>pc := AtHello coreId (ap_key p) (ap_iv p)\<rparr>, [out]))"

text \<open>The Hello that the server sends in stage 6.\<close>

definition server_hello :: "nat \<Rightarrow> coap_input" where
  "server_hello sendCounter =
     \<lparr>in_type = Type NON, in_code = Code POST, in_messageId = int sendCounter, in_token = Some [],
      in_options = Some [\<lparr>number = int (Option UriPath), val = ascii_bytes ''h''\<rparr>],
      in_payload = None\<rparr>"

definition hello_fields :: "coap_message \<Rightarrow> nat option \<times> nat option" where
  "hello_fields m =
     (if 4 \<le> length (payload m)
      then (Some (header_len (payload m)), Some (header_len (drop 2 (payload m))))
      else (None, None))"

definition send_hello ::
    "hs_env \<Rightarrow> hs_state \<Rightarrow> string \<Rightarrow> bytes \<Rightarrow> bytes \<Rightarrow> bytes \<Rightarrow> coap_message \<Rightarrow> hs_state \<times> bytes list" where
  "send_hello env s0 coreId aesKey ivInitial frameIn helloMsg =
     (let s = set_stage SEND_HELLO s0;
          sendCounter = header_len (env_counter env);
          sent = bindE (encode (server_hello sendCounter)) (\<lambda>plain.
                 bindE (aesEncrypt (env_E env) aesKey ivInitial plain) (\<lambda>ct.
                 bindE (encodeFrame ct) (\<lambda>w. Inr (ct, w))))
      in case sent of
           Inl e \<Rightarrow> hs_fail s e
         | Inr (ct, w) \<Rightarrow>
             ((set_stage DONE s)\<lparr>pc := Finished
                \<lparr>r_coreId = coreId, r_sessionKey = env_sessionKey env, r_aesKey = aesKey,
                 r_ivIn = subarray frameIn 0 16, r_ivOut = subarray ct 0 16,
                 r_recvCounter = messageId helloMsg, r_sendCounter = int sendCounter,
                 r_productId = fst (hello_fields helloMsg),
                 r_firmwareVersion = snd (hello_fields helloMsg)\<rparr>\<rparr>, [w]))"

definition after_hello ::
    "hs_env \<Rightarrow> hs_state \<Rightarrow> string \<Rightarrow> bytes \<Rightarrow> bytes \<Rightarrow> bytes \<Rightarrow> hs_state \<times> bytes list" where
  "after_hello env s coreId aesKey ivInitial frameIn =
     (case aesDecrypt (env_D env) aesKey ivInitial frameIn of
        Inl e \<Rightarrow> hs_fail s (HandshakeError ''hello AES decrypt failed'' (Cause (message e)))
      | Inr helloPlain \<Rightarrow>
          (case decode helloPlain of
             Inl e \<Rightarrow> hs_fail s (HandshakeError ''hello CoAP parse failed'' (Cause (message e)))
           | Inr helloMsg \<Rightarrow> send_hello env s coreId aesKey ivInitial frameIn helloMsg))"

text \<open>
  Resuming with the outcome of the awaited promise. A finished or failed handshake is not resumed,
  and no promise settles with a value of another kind than the one awaited, so the last equation
  is never reached by the session.
\<close>

fun hs_resume :: "hs_env \<Rightarrow> hs_state \<Rightarrow> hs_reply \<Rightarrow> hs_state \<times> bytes list" where
  "hs_resume env s reply =
     (case (pc s, reply) of
        (AtReadCoreId, GotBytes ct) \<Rightarrow> (s\<lparr>pc := AtDecrypt ct\<rparr>, [])
      | (AtReadCoreId, Rejected e) \<Rightarrow> hs_fail s e
      | (AtDecrypt ct, GotBytes plaintext) \<Rightarrow> after_decrypt env s plaintext
      | (AtDecrypt ct, Rejected e) \<Rightarrow>
          hs_fail s (HandshakeError ''RSA decrypt failed'' (Cause (message e)))
      | (AtCoreKey coreId der, GotKey k) \<Rightarrow> after_core_key s coreId k
      | (AtCoreKey coreId der, Rejected e) \<Rightarrow> hs_fail s e
      | (AtEncrypt coreId pem, GotBytes ct) \<Rightarrow> (s\<lparr>pc := AtSign coreId ct\<rparr>, [])
      | (AtEncrypt coreId pem, Rejected e) \<Rightarrow> hs_fail s e
      | (AtSign coreId ct, GotBytes signature) \<Rightarrow> after_sign env s coreId ct signature
      | (AtSign coreId ct, Rejected e) \<Rightarrow> hs_fail s e
      | (AtHello coreId key iv, GotBytes frame) \<Rightarrow> after_hello env s coreId key iv frame
      | (AtHello coreId key iv, Rejected e) \<Rightarrow> hs_fail s e
      | _ \<Rightarrow> (s, []))"

declare hs_resume.simps [simp del]

subsection \<open>The whole function\<close>

text \<open>The outcomes of the six awaits, in their order.\<close>

record hs_world =
  w_coreId_blob :: "js_error + bytes"
  w_plaintext :: "js_error + bytes"
  w_corePubPem :: "js_error + string option"
  w_sessionCiphertext :: "js_error + bytes"
  w_signature :: "js_error + bytes"
  w_helloFrame :: "js_error + bytes"

fun reply_bytes :: "js_error + bytes \<Rightarrow> hs_reply" where
  "reply_bytes (Inl e) = Rejected e"
| "reply_bytes (Inr b) = GotBytes b"

fun reply_key :: "js_error + string option \<Rightarrow> hs_reply" where
  "reply_key (Inl e) = Rejected e"
| "reply_key (Inr k) = GotKey k"

definition replies :: "hs_world \<Rightarrow> hs_reply list" where
  "replies w =
     [reply_bytes (w_coreId_blob w), reply_bytes (w_plaintext w), reply_key (w_corePubPem w),
      reply_bytes (w_sessionCiphertext w), reply_bytes (w_signature w), reply_bytes (w_helloFrame w)]"

definition runHandshake :: "hs_env \<Rightarrow> hs_world \<Rightarrow> hs_state \<times> bytes list" where
  "runHandshake env w =
     (let (s, out) = hs_start env; (s', out') = run (hs_resume env) s (replies w) in (s', out @ out'))"

subsection \<open>The handshake as one straight line\<close>

definition tag :: "stage \<Rightarrow> js_error + 'a \<Rightarrow> stage \<times> js_error + 'a" where
  "tag st x = (case x of Inl e \<Rightarrow> Inl (st, e) | Inr a \<Rightarrow> Inr a)"

definition wrap :: "string \<Rightarrow> js_error + 'a \<Rightarrow> js_error + 'a" where
  "wrap m x = (case x of Inl e \<Rightarrow> Inl (HandshakeError m (Cause (message e))) | Inr a \<Rightarrow> Inr a)"

lemma tag_simps [simp]: "tag st (Inl e) = Inl (st, e)" "tag st (Inr a) = Inr a"
  by (simp_all add: tag_def)

lemma wrap_simps [simp]:
  "wrap m (Inl e) = Inl (HandshakeError m (Cause (message e)))" "wrap m (Inr a) = Inr a"
  by (simp_all add: wrap_def)

lemma tag_Inr_iff [simp]: "tag st x = Inr a \<longleftrightarrow> x = Inr a"
  by (cases x) simp_all

lemma wrap_Inr_iff [simp]: "wrap m x = Inr a \<longleftrightarrow> x = Inr a"
  by (cases x) simp_all

definition identify :: "hs_env \<Rightarrow> bytes \<Rightarrow> js_error + string" where
  "identify env plaintext =
     (if length plaintext < 52 then Inl (HandshakeError ''plaintext too small'' (LengthField (length plaintext)))
      else if take 40 plaintext \<noteq> env_nonce env then Inl (HandshakeError ''nonce mismatch'' NoFields)
      else Inr (to_hex (take 12 (drop 40 plaintext))))"

definition require_key :: "string \<Rightarrow> string option \<Rightarrow> js_error + string" where
  "require_key coreId k =
     (if k = None \<or> k = Some '''' then Inl (HandshakeError ''core key not found'' (CoreIdField coreId))
      else Inr (the k))"

definition hello_out :: "hs_env \<Rightarrow> bytes \<Rightarrow> bytes \<Rightarrow> js_error + bytes \<times> bytes" where
  "hello_out env key iv =
     bindE (encode (server_hello (header_len (env_counter env)))) (\<lambda>plain.
     bindE (aesEncrypt (env_E env) key iv plain) (\<lambda>ct.
     bindE (encodeFrame ct) (\<lambda>w. Inr (ct, w))))"

definition straight_line :: "hs_env \<Rightarrow> hs_world \<Rightarrow> stage \<times> js_error + hs_result" where
  "straight_line env w =
     bindE (tag READ_COREID (w_coreId_blob w)) (\<lambda>blob.
     bindE (tag READ_COREID (wrap ''RSA decrypt failed'' (w_plaintext w))) (\<lambda>plaintext.
     bindE (tag READ_COREID (identify env plaintext)) (\<lambda>coreId.
     bindE (tag GET_COREKEY (w_corePubPem w)) (\<lambda>k.
     bindE (tag GET_COREKEY (require_key coreId k)) (\<lambda>pem.
     bindE (tag SEND_SESSIONKEY (w_sessionCiphertext w)) (\<lambda>ct.
     bindE (tag SEND_SESSIONKEY (w_signature w)) (\<lambda>signature.
     bindE (tag SEND_SESSIONKEY (deriveAesParams (env_sessionKey env))) (\<lambda>p.
     bindE (tag GET_HELLO (w_helloFrame w)) (\<lambda>frame.
     bindE (tag GET_HELLO (wrap ''hello AES decrypt failed''
              (aesDecrypt (env_D env) (ap_key p) (ap_iv p) frame))) (\<lambda>helloPlain.
     bindE (tag GET_HELLO (wrap ''hello CoAP parse failed'' (decode helloPlain))) (\<lambda>m.
     bindE (tag SEND_HELLO (hello_out env (ap_key p) (ap_iv p))) (\<lambda>(hct, hw).
       Inr \<lparr>r_coreId = coreId, r_sessionKey = env_sessionKey env, r_aesKey = ap_key p,
            r_ivIn = take 16 frame, r_ivOut = take 16 hct,
            r_recvCounter = messageId m, r_sendCounter = int (header_len (env_counter env)),
            r_productId = fst (hello_fields m), r_firmwareVersion = snd (hello_fields m)\<rparr>))))))))))))"

fun outcome :: "hs_state \<Rightarrow> (stage \<times> js_error + hs_result) option" where
  "outcome s =
     (case pc s of Finished r \<Rightarrow> Some (Inr r) | Failed e \<Rightarrow> Some (Inl (p_stage (prog s), e)) | _ \<Rightarrow> None)"

definition settled_hs :: "hs_state \<Rightarrow> bool" where
  "settled_hs s \<longleftrightarrow> (case pc s of Finished r \<Rightarrow> True | Failed e \<Rightarrow> True | _ \<Rightarrow> False)"

lemma resume_settled: "settled_hs s \<Longrightarrow> hs_resume env s r = (s, [])"
  by (auto simp: settled_hs_def hs_resume.simps split: hs_pc.splits)

lemma run_settled: "settled_hs s \<Longrightarrow> run (hs_resume env) s rs = (s, [])"
  by (induction rs) (simp_all add: run_Cons resume_settled)

lemma run_active:
  "\<not> settled_hs s \<Longrightarrow> run (hs_resume env) s (r # rs) =
     (fst (run (hs_resume env) (fst (hs_resume env s r)) rs),
      snd (hs_resume env s r) @ snd (run (hs_resume env) (fst (hs_resume env s r)) rs))"
  by (rule run_Cons)

lemmas hs_eval =
  run_settled run_active settled_hs_def hs_resume.simps hs_fail_def after_decrypt_def
  after_core_key_def after_sign_def after_hello_def send_hello_def set_stage_def Let_def
  subarray_def NONCE_BYTES_def ID_BYTES_def

lemma from_hello:
  assumes "pc s = AtHello coreId key iv" and "p_stage (prog s) = GET_HELLO"
  shows "outcome (fst (run (hs_resume env) s [reply_bytes x])) = Some
     (bindE (tag GET_HELLO x) (\<lambda>frame.
      bindE (tag GET_HELLO (wrap ''hello AES decrypt failed'' (aesDecrypt (env_D env) key iv frame))) (\<lambda>helloPlain.
      bindE (tag GET_HELLO (wrap ''hello CoAP parse failed'' (decode helloPlain))) (\<lambda>m.
      bindE (tag SEND_HELLO (hello_out env key iv)) (\<lambda>(hct, hw).
       Inr \<lparr>r_coreId = coreId, r_sessionKey = env_sessionKey env, r_aesKey = key,
            r_ivIn = take 16 frame, r_ivOut = take 16 hct,
            r_recvCounter = messageId m, r_sendCounter = int (header_len (env_counter env)),
            r_productId = fst (hello_fields m), r_firmwareVersion = snd (hello_fields m)\<rparr>)))))"
proof (cases x)
  case (Inr frame)
  show ?thesis
  proof (cases "aesDecrypt (env_D env) key iv frame")
    case dec: (Inr hp)
    show ?thesis
    proof (cases "decode hp")
      case cm: (Inr m)
      show ?thesis using assms Inr dec cm
        by (cases "hello_out env key iv") (auto simp: hs_eval hello_out_def [symmetric])
    qed (use assms Inr dec in \<open>simp add: hs_eval\<close>)
  qed (use assms Inr in \<open>simp add: hs_eval\<close>)
qed (use assms in \<open>simp add: hs_eval\<close>)

lemma from_hello_writes:
  assumes "pc s = AtHello coreId key iv"
  shows "snd (run (hs_resume env) s [reply_bytes x]) =
     (case bindE x (\<lambda>frame. bindE (aesDecrypt (env_D env) key iv frame) (\<lambda>hp.
           bindE (decode hp) (\<lambda>m. hello_out env key iv))) of
        Inl e \<Rightarrow> [] | Inr (hct, hw) \<Rightarrow> [hw])"
proof (cases x)
  case (Inr frame)
  show ?thesis
  proof (cases "aesDecrypt (env_D env) key iv frame")
    case dec: (Inr hp)
    show ?thesis
    proof (cases "decode hp")
      case cm: (Inr m)
      show ?thesis using assms Inr dec cm
        by (cases "hello_out env key iv") (auto simp: hs_eval hello_out_def [symmetric])
    qed (use assms Inr dec in \<open>simp add: hs_eval\<close>)
  qed (use assms Inr in \<open>simp add: hs_eval\<close>)
qed (use assms in \<open>simp add: hs_eval\<close>)

text \<open>The bytes on the wire: the nonce, then the session key message, then the Hello frame.\<close>

definition session_key_message :: "hs_env \<Rightarrow> hs_world \<Rightarrow> js_error + bytes" where
  "session_key_message env w =
     bindE (w_coreId_blob w) (\<lambda>blob.
     bindE (w_plaintext w) (\<lambda>plaintext.
     bindE (identify env plaintext) (\<lambda>coreId.
     bindE (w_corePubPem w) (\<lambda>k.
     bindE (require_key coreId k) (\<lambda>pem.
     bindE (w_sessionCiphertext w) (\<lambda>ct.
     bindE (w_signature w) (\<lambda>signature. Inr (ct @ signature))))))))"

definition hello_message :: "hs_env \<Rightarrow> hs_world \<Rightarrow> js_error + bytes" where
  "hello_message env w =
     bindE (deriveAesParams (env_sessionKey env)) (\<lambda>p.
     bindE (w_helloFrame w) (\<lambda>frame.
     bindE (aesDecrypt (env_D env) (ap_key p) (ap_iv p) frame) (\<lambda>helloPlain.
     bindE (decode helloPlain) (\<lambda>m.
     bindE (hello_out env (ap_key p) (ap_iv p)) (\<lambda>(hct, hw). Inr hw)))))"

fun unless_error :: "js_error + bytes \<Rightarrow> bytes list \<Rightarrow> bytes list" where
  "unless_error (Inl e) rest = []"
| "unless_error (Inr b) rest = b # rest"

definition wire_writes :: "hs_env \<Rightarrow> hs_world \<Rightarrow> bytes list" where
  "wire_writes env w =
     env_nonce env #
     unless_error (session_key_message env w) (unless_error (hello_message env w) [])"

lemma up_to_hello:
  assumes "w_coreId_blob w = Inr blob" "w_plaintext w = Inr pt" "identify env pt = Inr coreId"
    "w_corePubPem w = Inr (Some pem)" "pem \<noteq> []" "w_sessionCiphertext w = Inr ct"
    "w_signature w = Inr sig" "deriveAesParams (env_sessionKey env) = Inr p"
  shows "runHandshake env w =
     (let s = \<lparr>pc = AtHello coreId (ap_key p) (ap_iv p),
               prog = \<lparr>p_stage = GET_HELLO, p_coreId = Some coreId\<rparr>\<rparr>;
          (s', out) = run (hs_resume env) s [reply_bytes (w_helloFrame w)]
      in (s', [env_nonce env, ct @ sig] @ out))"
proof -
  from assms(3) have lens: "\<not> length pt < 52" "take 40 pt = env_nonce env"
    "coreId = to_hex (take 12 (drop 40 pt))" by (auto simp: identify_def split: if_splits)
  have "run (hs_resume env) (fst (hs_start env)) (butlast (replies w)) =
      (\<lparr>pc = AtHello coreId (ap_key p) (ap_iv p),
         prog = \<lparr>p_stage = GET_HELLO, p_coreId = Some coreId\<rparr>\<rparr>, [ct @ sig])"
    using assms lens by (simp add: replies_def hs_start_def hs_eval)
  moreover have "replies w = butlast (replies w) @ [reply_bytes (w_helloFrame w)]"
    by (simp add: replies_def)
  ultimately show ?thesis
    using run_append [of "hs_resume env" "fst (hs_start env)" "butlast (replies w)"
        "[reply_bytes (w_helloFrame w)]"]
    by (simp add: runHandshake_def hs_start_def split_beta Let_def)
qed


lemmas run_eval = runHandshake_def hs_start_def replies_def hs_eval

lemmas spec_defs = straight_line_def wire_writes_def session_key_message_def hello_message_def

lemma runHandshake_spec:
  "outcome (fst (runHandshake env w)) = Some (straight_line env w) \<and>
   snd (runHandshake env w) = wire_writes env w"
proof (cases "w_coreId_blob w")
  case blob: (Inr blob)
  show ?thesis
  proof (cases "w_plaintext w")
    case pt: (Inr pt)
    show ?thesis
    proof (cases "identify env pt")
      case id: (Inr coreId)
      then have lens: "\<not> length pt < 52" "take 40 pt = env_nonce env"
        "coreId = to_hex (take 12 (drop 40 pt))" by (auto simp: identify_def split: if_splits)
      show ?thesis
      proof (cases "bindE (w_corePubPem w) (require_key coreId)")
        case (Inl e)
        then consider e' where "w_corePubPem w = Inl e'" | "w_corePubPem w = Inr None"
          | "w_corePubPem w = Inr (Some [])"
          by (cases "w_corePubPem w") (auto simp: require_key_def split: if_splits)
        then show ?thesis
          by cases (use lens blob pt id in \<open>simp_all add: run_eval spec_defs require_key_def\<close>)
      next
        case (Inr pem)
        then have k: "w_corePubPem w = Inr (Some pem)" "pem \<noteq> []"
          by (auto simp: bindE_Inr_iff require_key_def split: if_splits)
        note known = blob pt id k
        show ?thesis
        proof (cases "bindE (w_sessionCiphertext w) (\<lambda>ct. w_signature w)")
          case (Inl e)
          with lens known show ?thesis
            by (cases "w_sessionCiphertext w"; cases "w_signature w")
               (simp_all add: run_eval spec_defs require_key_def)
        next
          case (Inr sig)
          then obtain ct where cs: "w_sessionCiphertext w = Inr ct" "w_signature w = Inr sig"
            by (auto simp: bindE_Inr_iff)
          show ?thesis
          proof (cases "deriveAesParams (env_sessionKey env)")
            case (Inl e)
            with lens known cs show ?thesis
              by (simp add: run_eval spec_defs require_key_def)
          next
            case p: (Inr p)
            show ?thesis
              unfolding up_to_hello [OF known cs p] Let_def split_beta fst_conv snd_conv
              by (subst from_hello, simp, simp, subst from_hello_writes, simp)
                 (use known cs p in \<open>auto simp: spec_defs require_key_def bindE_def
                    split: sum.splits\<close>)
          qed
        qed
      qed
    qed (use blob pt in \<open>auto simp: run_eval spec_defs identify_def split: if_splits\<close>)
  qed (use blob in \<open>simp add: run_eval spec_defs\<close>)
qed (simp add: run_eval spec_defs)

text \<open>C15. The handshake always ends, and as its straight-line reading says: whatever the six awaited
  promises settle to, the suspended-and-resumed function returns the result, or throws the error
  at the stage, that the sequence of reads, checks, cipher and RSA calls written one after the
  other gives. Every check and every rejection is covered, in the order of the code.
\<close>

theorem runHandshake_straight:
  "outcome (fst (runHandshake env w)) = Some (straight_line env w)"
  using runHandshake_spec by blast

subsection \<open>What success and failure guarantee\<close>

lemma outcome_Finished: "outcome s = Some (Inr r) \<longleftrightarrow> pc s = Finished r"
  by (cases "pc s") simp_all

lemma straight_line_success:
  assumes "straight_line env w = Inr r"
  obtains blob pt pem ct sig p frame hp m hct hw where
    "w_coreId_blob w = Inr blob" "w_plaintext w = Inr pt" "identify env pt = Inr (r_coreId r)"
    "w_corePubPem w = Inr (Some pem)" "pem \<noteq> []" "w_sessionCiphertext w = Inr ct"
    "w_signature w = Inr sig" "deriveAesParams (env_sessionKey env) = Inr p"
    "w_helloFrame w = Inr frame" "aesDecrypt (env_D env) (ap_key p) (ap_iv p) frame = Inr hp"
    "decode hp = Inr m" "hello_out env (ap_key p) (ap_iv p) = Inr (hct, hw)"
    "r = \<lparr>r_coreId = r_coreId r, r_sessionKey = env_sessionKey env, r_aesKey = ap_key p,
          r_ivIn = take 16 frame, r_ivOut = take 16 hct, r_recvCounter = messageId m,
          r_sendCounter = int (header_len (env_counter env)),
          r_productId = fst (hello_fields m), r_firmwareVersion = snd (hello_fields m)\<rparr>"
proof -
  from assms obtain blob pt coreId k pem ct sig p frame hp m hct hw where *:
    "w_coreId_blob w = Inr blob" "w_plaintext w = Inr pt" "identify env pt = Inr coreId"
    "w_corePubPem w = Inr k" "require_key coreId k = Inr pem" "w_sessionCiphertext w = Inr ct"
    "w_signature w = Inr sig" "deriveAesParams (env_sessionKey env) = Inr p"
    "w_helloFrame w = Inr frame" "aesDecrypt (env_D env) (ap_key p) (ap_iv p) frame = Inr hp"
    "decode hp = Inr m" "hello_out env (ap_key p) (ap_iv p) = Inr (hct, hw)"
    "r = \<lparr>r_coreId = coreId, r_sessionKey = env_sessionKey env, r_aesKey = ap_key p,
          r_ivIn = take 16 frame, r_ivOut = take 16 hct, r_recvCounter = messageId m,
          r_sendCounter = int (header_len (env_counter env)),
          r_productId = fst (hello_fields m), r_firmwareVersion = snd (hello_fields m)\<rparr>"
    unfolding straight_line_def bindE_Inr_iff tag_Inr_iff wrap_Inr_iff
    by (elim exE conjE) (auto split: prod.splits)
  from *(5) have "k = Some pem" "pem \<noteq> []" by (auto simp: require_key_def split: if_splits)
  with * that show ?thesis by simp
qed

text \<open>What leaves the server, and when: first the nonce, always; the session key message only
  after the device has echoed that nonce inside a decryptable message, a non-empty key is on file
  for the identity it claimed, and both RSA operations succeeded; the encrypted Hello only after
  the device's own Hello has been decrypted and parsed under the session key. Nothing else is
  written, and nothing is written by a step that fails.
\<close>

theorem runHandshake_writes:
  "snd (runHandshake env w) = wire_writes env w"
  using runHandshake_spec by blast

lemma finished_straight: "pc (fst (runHandshake env w)) = Finished r \<longleftrightarrow> straight_line env w = Inr r"
  using runHandshake_spec [of env w] outcome_Finished [of "fst (runHandshake env w)" r] by auto

subsection \<open>A concrete handshake\<close>

text \<open>
  With the toy cipher, a key equal to the IV encrypts the first block to itself, so the Hello
  frame below is the padded Hello of a device with product id 5 and firmware version 3.
\<close>

definition toy_env :: hs_env where
  "toy_env =
     \<lparr>env_E = xor_cipher, env_D = xor_cipher, env_hmac = (\<lambda>d k. []), env_serverPriv = ''PEM'',
      env_nonce = replicate 40 1, env_sessionKey = replicate 40 2, env_counter = [0x12, 0x34]\<rparr>"

definition toy_world :: hs_world where
  "toy_world =
     \<lparr>w_coreId_blob = Inr [], w_plaintext = Inr (replicate 40 1 @ replicate 12 0xAB),
      w_corePubPem = Inr (Some ''DEVICE PEM''), w_sessionCiphertext = Inr [3], w_signature = Inr [4],
      w_helloFrame = Inr [0x50, 2, 0xAB, 0xCD, 0xB1, 0x68, 0xFF, 0, 5, 0, 3, 5, 5, 5, 5, 5]\<rparr>"

lemma replicate_16: "replicate 16 (b :: byte) = [b, b, b, b, b, b, b, b, b, b, b, b, b, b, b, b]"
  by (simp add: numeral_eq_Suc)

lemma toy_params:
  "deriveAesParams (env_sessionKey toy_env) = Inr \<lparr>ap_key = replicate 16 2, ap_iv = replicate 16 2\<rparr>"
  by (simp add: toy_env_def deriveAesParams_def subarray_def)

lemma toy_hello:
  "bindE (w_helloFrame toy_world) (aesDecrypt xor_cipher (replicate 16 2) (replicate 16 2)) =
     Inr [0x50, 2, 0xAB, 0xCD, 0xB1, 0x68, 0xFF, 0, 5, 0, 3]"
  by (simp add: toy_world_def replicate_16 aesDecrypt_def check_key_iv_def cbc_decrypt.simps
      xor_bytes_def xor_cipher_def strip_pad_def)

lemma toy_hello_parsed:
  "decode [0x50, 2, 0xAB, 0xCD, 0xB1, 0x68, 0xFF, 0, 5, 0, 3] =
     Inr \<lparr>mtype = 1, mcode = 2, messageId = 0xABCD, token = [],
          options = [\<lparr>number = Num 11, val = [0x68]\<rparr>], payload = [0, 5, 0, 3]\<rparr>"
  by (simp add: decode_eval)

lemma toy_hello_out: "\<exists>x. hello_out toy_env (replicate 16 2) (replicate 16 2) = Inr x"
proof -
  have "header_len (env_counter toy_env) = 0x1234" by (simp add: toy_env_def header_len_def)
  moreover have "encode (server_hello 0x1234) = Inr [0x50, 2, 0x12, 0x34, 0xB1, 0x68]"
    by (simp add: server_hello_def encode_eval ascii_bytes_def)
  moreover obtain ct where ct: "aesEncrypt xor_cipher (replicate 16 2) (replicate 16 2)
      [0x50, 2, 0x12, 0x34, 0xB1, 0x68] = Inr ct" using aesEncrypt_Inr by simp
  moreover from aes_roundtrip_ct(2) [OF xor_cipher_ok ct] have "length ct = 16" by simp
  ultimately show ?thesis by (simp add: hello_out_def encodeFrame_def toy_env_def)
qed

lemma toy_finishes: "\<exists>r. pc (fst (runHandshake toy_env toy_world)) = Finished r"
proof -
  obtain x where x: "hello_out toy_env (replicate 16 2) (replicate 16 2) = Inr x"
    using toy_hello_out by blast
  have w: "w_coreId_blob toy_world = Inr []" "w_plaintext toy_world = Inr (replicate 40 1 @ replicate 12 0xAB)"
    "w_corePubPem toy_world = Inr (Some ''DEVICE PEM'')" "w_sessionCiphertext toy_world = Inr [3]"
    "w_signature toy_world = Inr [4]" "env_D toy_env = xor_cipher"
    by (simp_all add: toy_world_def toy_env_def)
  have i: "identify toy_env (replicate 40 1 @ replicate 12 0xAB) = Inr (to_hex (replicate 12 0xAB))"
    by (simp add: identify_def toy_env_def)
  obtain f where f: "w_helloFrame toy_world = Inr f" by (simp add: toy_world_def)
  from toy_hello f have d: "aesDecrypt xor_cipher (replicate 16 2) (replicate 16 2) f =
      Inr [0x50, 2, 0xAB, 0xCD, 0xB1, 0x68, 0xFF, 0, 5, 0, 3]" by simp
  show ?thesis unfolding finished_straight straight_line_def
    by (cases x) (simp add: w i f d x toy_params toy_hello_parsed require_key_def)
qed

text \<open>A handshake that succeeds has authenticated the device's freshness and has its key: the
  decrypted message began with the very nonce sent, the reported core id is the hexadecimal form
  of the 12 bytes after it, the loader returned a non-empty key for that id, and three messages
  were written (nonce, session key message, Hello).
\<close>

theorem runHandshake_authenticates:
  assumes "pc (fst (runHandshake env w)) = Finished r"
  shows "\<exists>pt pem ct sig hw.
           w_plaintext w = Inr pt \<and> take 40 pt = env_nonce env \<and>
           r_coreId r = to_hex (take 12 (drop 40 pt)) \<and>
           w_corePubPem w = Inr (Some pem) \<and> pem \<noteq> [] \<and>
           w_sessionCiphertext w = Inr ct \<and> w_signature w = Inr sig \<and>
           snd (runHandshake env w) = [env_nonce env, ct @ sig, hw]"
proof -
  from assms have "straight_line env w = Inr r" by (simp add: finished_straight)
  then obtain blob pt pem ct sig p frame hp m hct hw where *:
    "w_coreId_blob w = Inr blob" "w_plaintext w = Inr pt" "identify env pt = Inr (r_coreId r)"
    "w_corePubPem w = Inr (Some pem)" "pem \<noteq> []" "w_sessionCiphertext w = Inr ct"
    "w_signature w = Inr sig" "deriveAesParams (env_sessionKey env) = Inr p"
    "w_helloFrame w = Inr frame" "aesDecrypt (env_D env) (ap_key p) (ap_iv p) frame = Inr hp"
    "decode hp = Inr m" "hello_out env (ap_key p) (ap_iv p) = Inr (hct, hw)"
    by (rule straight_line_success)
  then have "wire_writes env w = [env_nonce env, ct @ sig, hw]"
    by (simp add: spec_defs require_key_def)
  moreover from *(3) have "take 40 pt = env_nonce env" "r_coreId r = to_hex (take 12 (drop 40 pt))"
    by (auto simp: identify_def split: if_splits)
  ultimately show ?thesis using * by (auto simp: runHandshake_spec)
qed

theorem runHandshake_authenticates_witness:
  "\<exists>hw. snd (runHandshake toy_env toy_world) = [replicate 40 1, [3, 4], hw]"
proof -
  from toy_finishes obtain r where "pc (fst (runHandshake toy_env toy_world)) = Finished r" ..
  from runHandshake_authenticates [OF this] show ?thesis
    by (auto simp: toy_env_def toy_world_def)
qed

lemma hello_out_Inr:
  "hello_out env key iv = Inr (hct, hw) \<longleftrightarrow>
     (\<exists>plain. encode (server_hello (header_len (env_counter env))) = Inr plain \<and>
        aesEncrypt (env_E env) key iv plain = Inr hct \<and> encodeFrame hct = Inr hw)"
  by (auto simp: hello_out_def bindE_Inr_iff)

lemma decoded_frame_length:
  assumes "aesDecrypt D key iv frame = Inr hp" and "decode hp = Inr m"
  shows "16 \<le> length frame"
proof (rule ccontr)
  assume "\<not> 16 \<le> length frame"
  moreover from assms(1) have "length frame mod 16 = 0" by (simp add: aesDecrypt_Inr_iff)
  ultimately have "frame = []" by simp
  with assms(1) have "hp = []" by (simp add: aesDecrypt_Inr_iff strip_pad_def)
  with assms(2) show False by (simp add: decode_def)
qed

text \<open>C30. The session state a successful handshake hands over is well formed: the core id is 24
  lower-case hexadecimal digits, the AES key and both IVs are 16 bytes (the IVs being the first 16
  bytes of the two Hello frames), and both message counters fit in 16 bits.
\<close>

theorem runHandshake_result_wf:
  assumes "pc (fst (runHandshake env w)) = Finished r"
    and "block_cipher (env_E env) (env_D env)"
  shows "length (r_coreId r) = 24 \<and> set (r_coreId r) \<subseteq> set hex_digits \<and>
         length (r_aesKey r) = 16 \<and> length (r_ivIn r) = 16 \<and> length (r_ivOut r) = 16 \<and>
         r_recvCounter r \<in> {0..65535} \<and> r_sendCounter r \<in> {0..65535}"
proof -
  from assms(1) have "straight_line env w = Inr r" by (simp add: finished_straight)
  then obtain blob pt pem ct sig p frame hp m hct hw where *:
    "identify env pt = Inr (r_coreId r)" "deriveAesParams (env_sessionKey env) = Inr p"
    "aesDecrypt (env_D env) (ap_key p) (ap_iv p) frame = Inr hp"
    "decode hp = Inr m" "hello_out env (ap_key p) (ap_iv p) = Inr (hct, hw)"
    and r: "r = \<lparr>r_coreId = r_coreId r, r_sessionKey = env_sessionKey env, r_aesKey = ap_key p,
          r_ivIn = take 16 frame, r_ivOut = take 16 hct, r_recvCounter = messageId m,
          r_sendCounter = int (header_len (env_counter env)),
          r_productId = fst (hello_fields m), r_firmwareVersion = snd (hello_fields m)\<rparr>"
    by (rule straight_line_success)
  from *(1) have id: "r_coreId r = to_hex (take 12 (drop 40 pt))" "52 \<le> length pt"
    by (auto simp: identify_def split: if_splits)
  then have "length (r_coreId r) = 24" and "set (r_coreId r) \<subseteq> set hex_digits"
    by (auto dest: to_hex_chars)
  moreover have "length (ap_key p) = 16" using deriveAesParams_Inr [OF *(2)] by (elim conjE)
  moreover have "length (take 16 frame) = 16" using decoded_frame_length [OF *(3,4)] by simp
  moreover from *(5) obtain plain where "aesEncrypt (env_E env) (ap_key p) (ap_iv p) plain = Inr hct"
    by (auto simp: hello_out_Inr)
  from aes_roundtrip_ct(2) [OF assms(2) this] have "length (take 16 hct) = 16" by simp
  moreover have "messageId m \<in> {0..65535}" using decode_fields [OF *(4)] by simp
  moreover have "header_len (env_counter env) < 65536" by (rule header_len_bound)
  moreover have "r_aesKey r = ap_key p" "r_ivIn r = take 16 frame" "r_ivOut r = take 16 hct"
    "r_recvCounter r = messageId m" "r_sendCounter r = int (header_len (env_counter env))"
    by (subst r, simp)+
  ultimately show ?thesis by auto
qed

theorem runHandshake_result_wf_witness:
  "\<exists>r. pc (fst (runHandshake toy_env toy_world)) = Finished r \<and> length (r_coreId r) = 24 \<and>
       length (r_ivIn r) = 16 \<and> length (r_ivOut r) = 16"
proof -
  from toy_finishes obtain r where r: "pc (fst (runHandshake toy_env toy_world)) = Finished r" ..
  moreover have "block_cipher (env_E toy_env) (env_D toy_env)"
    by (simp add: toy_env_def xor_cipher_ok)
  ultimately show ?thesis using runHandshake_result_wf [OF r] by blast
qed

subsection \<open>The stages as the progress object shows them\<close>

definition stage_fits :: "hs_state \<Rightarrow> bool" where
  "stage_fits s \<longleftrightarrow>
     (case pc s of
        AtReadCoreId \<Rightarrow> p_stage (prog s) = READ_COREID \<and> p_coreId (prog s) = None
      | AtDecrypt ct \<Rightarrow> p_stage (prog s) = READ_COREID \<and> p_coreId (prog s) = None
      | AtCoreKey c der \<Rightarrow> p_stage (prog s) = GET_COREKEY \<and> p_coreId (prog s) = Some c
      | AtEncrypt c pem \<Rightarrow> p_stage (prog s) = SEND_SESSIONKEY \<and> p_coreId (prog s) = Some c
      | AtSign c ct \<Rightarrow> p_stage (prog s) = SEND_SESSIONKEY \<and> p_coreId (prog s) = Some c
      | AtHello c key iv \<Rightarrow> p_stage (prog s) = GET_HELLO \<and> p_coreId (prog s) = Some c
      | Finished r \<Rightarrow> p_stage (prog s) = DONE \<and> p_coreId (prog s) = Some (r_coreId r)
      | Failed e \<Rightarrow> p_stage (prog s) < DONE \<and>
          (p_coreId (prog s) = None \<longleftrightarrow> p_stage (prog s) \<le> READ_COREID))"

lemmas stage_order = less_eq_stage_def less_stage_def

lemma stage_step:
  assumes "stage_fits s"
  shows "stage_fits (fst (hs_resume env s r))" and "p_stage (prog s) \<le> p_stage (prog (fst (hs_resume env s r)))"
  using assms
  by (cases "pc s"; cases r;
      auto simp: stage_fits_def hs_resume.simps hs_fail_def after_decrypt_def after_core_key_def
        after_sign_def after_hello_def send_hello_def set_stage_def Let_def stage_order
        split: if_splits option.splits sum.splits)+

interpretation hs: machine "fst (hs_start env)" "hs_resume env" stage_fits "\<lambda>_. True" for env
proof unfold_locales
  show "stage_fits (fst (hs_start env))" by (simp add: stage_fits_def hs_start_def)
qed (simp_all add: stage_step list.pred_True del: hs_resume.simps)

text \<open>C31. The progress object tells the truth at every moment, for any sequence of answers: the stage
  it shows is the one of the await the handshake is suspended at (or failed at), the core id is
  known exactly once the message that carries it has been checked, and the stage never goes back.
\<close>

theorem handshake_progress:
  "stage_fits (fst (run (hs_resume env) (fst (hs_start env)) rs)) \<and>
   p_stage (prog (fst (run (hs_resume env) (fst (hs_start env)) rs))) \<le>
     p_stage (prog (fst (run (hs_resume env) (fst (hs_start env)) (rs @ rs'))))"
proof
  let ?s = "fst (run (hs_resume env) (fst (hs_start env)) rs)"
  show fits: "stage_fits ?s" by (rule hs.inv_run)
  have "stage_fits s \<Longrightarrow> p_stage (prog s) \<le> p_stage (prog (fst (run (hs_resume env) s rs')))" for s
    by (induction rs' arbitrary: s) (auto simp: run_Cons intro: stage_step order_trans)
  from this [OF fits] show
    "p_stage (prog ?s) \<le> p_stage (prog (fst (run (hs_resume env) (fst (hs_start env)) (rs @ rs'))))"
    by (simp add: run_append)
qed

end
