(* ===== verification/Handshake_Agreement.thy ===== *)
theory Handshake_Agreement
  imports Handshake
begin

section \<open>The handshake against a correct device\<close>

text \<open>
  The other end of the protocol is the firmware, which is not in the repository; what it does is
  written down in \<open>simulateDevice\<close> of \<open>test/handshake.test.js\<close>. The definitions below are that
  function, one per stage. The theorem says that the server's \<open>runHandshake\<close> and this device end in
  agreement on everything the session later relies on.
\<close>

subsection \<open>The device of the test\<close>

definition device_identify ::
    "('pub, 'priv) node_rsa \<Rightarrow> 'pub \<Rightarrow> bytes \<Rightarrow> bytes \<Rightarrow> bytes \<Rightarrow> js_error + bytes" where
  "device_identify node serverPub rnd idBuf nonce = rsaEncrypt node serverPub rnd (nonce @ idBuf)"

definition device_session ::
    "('pub, 'priv) node_rsa \<Rightarrow> (bytes \<Rightarrow> bytes \<Rightarrow> bytes) \<Rightarrow> 'priv \<Rightarrow> 'pub \<Rightarrow> bytes \<Rightarrow> js_error + bytes" where
  "device_session node hmac devicePriv serverPub sessBlob =
     (let sessCt = subarray sessBlob 0 128; signature = subarray sessBlob 128 384 in
      bindE (rsaDecrypt node devicePriv sessCt) (\<lambda>sessionKey.
        if rsaVerify node serverPub (hmac sessCt sessionKey) signature then Inr sessionKey
        else Inl (Error ''virtual device: HMAC mismatch'')))"

definition device_hello_msg :: "nat \<Rightarrow> bytes \<Rightarrow> coap_input" where
  "device_hello_msg helloMessageId info =
     \<lparr>in_type = Type NON, in_code = Code POST, in_messageId = int helloMessageId, in_token = Some [],
      in_options = Some [\<lparr>number = int (Option UriPath), val = ascii_bytes ''h''\<rparr>],
      in_payload = Some info\<rparr>"

definition device_hello :: "block_fun \<Rightarrow> bytes \<Rightarrow> nat \<Rightarrow> bytes \<Rightarrow> js_error + bytes" where
  "device_hello E sessionKey helloMessageId info =
     bindE (encode (device_hello_msg helloMessageId info))
       (aesEncrypt E (subarray sessionKey 0 16) (subarray sessionKey 16 32))"

definition device_finish :: "block_fun \<Rightarrow> bytes \<Rightarrow> bytes \<Rightarrow> (bytes \<times> coap_message) option" where
  "device_finish D sessionKey wire =
     (case device_next wire of
        None \<Rightarrow> None
      | Some (frame, rest) \<Rightarrow>
          (case bindE (aesDecrypt D (subarray sessionKey 0 16) (subarray sessionKey 16 32) frame) decode of
             Inl e \<Rightarrow> None | Inr m \<Rightarrow> Some (frame, m)))"

subsection \<open>The Hello messages\<close>

lemma server_hello_plain:
  "n < 65536 \<Longrightarrow> \<exists>plain. encode (server_hello n) = Inr plain \<and> length plain = 6"
  by (simp add: server_hello_def encode_eval ascii_bytes_def)

lemma server_hello_read:
  assumes "encode (server_hello n) = Inr plain" and "n < 65536"
  shows "decode plain = Inr (decoded_form (server_hello n)) \<and>
         messageId (decoded_form (server_hello n)) = int n \<and>
         classify (decoded_form (server_hello n)) = Some ''Hello''"
proof -
  have "classify (decoded_form (server_hello n)) = Some ''Hello''"
    unfolding classify_row
    by (simp add: decoded_form_def server_hello_def first_uri_path_def as_decoded_def table_eval)
  with decode_of_encode [OF assms(1)] assms(2) show ?thesis
    by (simp add: decoded_form_def server_hello_def mask_mod)
qed

subsection \<open>Agreement\<close>

text \<open>
  What PKCS#1 v1.5 gives for a matching key pair: what one key does to a message, the other undoes.
\<close>

definition key_pair :: "('pub, 'priv) node_rsa \<Rightarrow> 'pub \<Rightarrow> 'priv \<Rightarrow> bool" where
  "key_pair node pub priv \<longleftrightarrow>
     (\<forall>rnd x y. publicEncrypt node pub RSA_PKCS1 rnd x = Inr y \<longrightarrow>
        privateDecrypt node priv RSA_PKCS1 y = Inr x) \<and>
     (\<forall>x y. privateEncrypt node priv RSA_PKCS1 x = Inr y \<longrightarrow>
        publicDecrypt node pub RSA_PKCS1 y = Inr x)"

lemma key_pair_decrypt:
  "key_pair node pub priv \<Longrightarrow> rsaEncrypt node pub rnd x = Inr y \<Longrightarrow> rsaDecrypt node priv y = Inr x"
  by (auto simp: key_pair_def rsaEncrypt_def rsaDecrypt_def)

lemma key_pair_verify:
  "key_pair node pub priv \<Longrightarrow> rsaSign node priv x = Inr y \<Longrightarrow> rsaVerify node pub x y"
  by (auto simp: key_pair_def rsaSign_def rsaVerify_def)

text \<open>The device checks the blob of stage 4 and recovers the key that the server drew.\<close>

lemma device_session_agrees:
  assumes "key_pair node serverPub serverPriv" and "key_pair node devicePub devicePriv"
    and "rsaEncrypt node devicePub rnd key = Inr ct" and "length ct = 128"
    and "rsaSign node serverPriv (hmac ct key) = Inr sig" and "length sig = 256"
  shows "device_session node hmac devicePriv serverPub (ct @ sig) = Inr key"
  using key_pair_decrypt [OF assms(2,3)] key_pair_verify [OF assms(1,5)] assms(4,6)
  by (simp add: device_session_def subarray_def)

lemma device_hello_ok:
  assumes "32 \<le> length key"
  shows "\<exists>frame. device_hello E key mid info = Inr frame"
proof -
  obtain plain where "encode (device_hello_msg mid info) = Inr plain"
    by (rule encode_ordinary [of "device_hello_msg mid info"])
       (auto simp: device_hello_msg_def ascii_bytes_def)
  with assms aesEncrypt_Inr [of "take 16 key" "take 16 (drop 16 key)"] show ?thesis
    by (simp add: device_hello_def subarray_def)
qed

lemma finished_state:
  assumes "pc (fst (runHandshake env w)) = Finished r"
  shows "fst (runHandshake env w) =
           \<lparr>pc = Finished r, prog = \<lparr>p_stage = DONE, p_coreId = Some (r_coreId r)\<rparr>\<rparr>"
proof -
  have "stage_fits (fst (runHandshake env w))"
    using hs.inv_run [of env "replies w"] by (simp add: runHandshake_def split_beta Let_def)
  with assms show ?thesis by (simp add: stage_fits_def)
qed

text \<open>The server reads the device's Hello, and the device the server's.\<close>

lemma device_hello_read:
  assumes "block_cipher E D" and "device_hello E key mid info = Inr frame"
  shows "bindE (aesDecrypt D (take 16 key) (take 16 (drop 16 key)) frame) decode =
           Inr (decoded_form (device_hello_msg mid info))"
proof -
  from assms(2) obtain plain where "encode (device_hello_msg mid info) = Inr plain"
    and "aesEncrypt E (take 16 key) (take 16 (drop 16 key)) plain = Inr frame"
    by (auto simp: device_hello_def bindE_Inr_iff subarray_def)
  with decode_of_encode aes_roundtrip_ct(1) [OF assms(1)] show ?thesis by simp
qed

lemma server_hello_sent:
  assumes "block_cipher (env_E env) D" and "32 \<le> length key"
  obtains ct w where "hello_out env (take 16 key) (take 16 (drop 16 key)) = Inr (ct, w)"
    and "device_finish D key w = Some (ct, decoded_form (server_hello (header_len (env_counter env))))"
proof -
  let ?k = "take 16 key" and ?iv = "take 16 (drop 16 key)" and ?n = "header_len (env_counter env)"
  obtain plain where plain: "encode (server_hello ?n) = Inr plain" "length plain = 6"
    using server_hello_plain [OF header_len_bound] by blast
  obtain ct where ct: "aesEncrypt (env_E env) ?k ?iv plain = Inr ct"
    using aesEncrypt_Inr [of ?k ?iv] assms(2) by simp
  note rt = aes_roundtrip_ct [OF assms(1) ct]
  from rt(2) plain(2) have "length ct = 16" by simp
  then obtain w where w: "encodeFrame ct = Inr w" by (simp add: encodeFrame_def)
  from device.split_enc [OF w, of "[]"] have "device_next w = Some (ct, [])" by simp
  with rt(1) server_hello_read [OF plain(1) header_len_bound]
  have "device_finish D key w = Some (ct, decoded_form (server_hello ?n))"
    by (simp add: device_finish_def subarray_def)
  moreover have "hello_out env ?k ?iv = Inr (ct, w)" using plain ct w by (simp add: hello_out_Inr)
  ultimately show ?thesis by (rule that [rotated])
qed

definition honest_world ::
    "('pub, 'priv) node_rsa \<Rightarrow> hs_env \<Rightarrow> 'pub \<Rightarrow> 'priv \<Rightarrow> 'pub \<Rightarrow> 'priv \<Rightarrow> bytes \<Rightarrow> bytes \<Rightarrow> string \<Rightarrow> bytes \<Rightarrow>
     nat \<Rightarrow> bytes \<Rightarrow> hs_world" where
  "honest_world node env serverPub serverPriv devicePub devicePriv rnd1 rnd2 pem idBuf mid info =
     (let blob = device_identify node serverPub rnd1 idBuf (env_nonce env);
          ct = rsaEncrypt node devicePub rnd2 (env_sessionKey env);
          sig = bindE ct (\<lambda>c. rsaSign node serverPriv (env_hmac env c (env_sessionKey env)))
      in \<lparr>w_coreId_blob = blob,
          w_plaintext = bindE blob (rsaDecrypt node serverPriv),
          w_corePubPem = Inr (Some pem),
          w_sessionCiphertext = ct,
          w_signature = sig,
          w_helloFrame =
            bindE ct (\<lambda>c. bindE sig (\<lambda>s.
            bindE (device_session node (env_hmac env) devicePriv serverPub (c @ s)) (\<lambda>key.
              device_hello (env_E env) key mid info)))\<rparr>)"

text \<open>What the server's side of an honest run is, from what the six awaits give.\<close>

lemma honest_run:
  assumes "w_coreId_blob w = Inr blob" and "w_plaintext w = Inr (env_nonce env @ idBuf)"
    and "length (env_nonce env) = 40" and "length idBuf = 12"
    and "w_corePubPem w = Inr (Some pem)" and "pem \<noteq> []"
    and "w_sessionCiphertext w = Inr ct" and "w_signature w = Inr sig" and "32 \<le> length (env_sessionKey env)"
    and "w_helloFrame w = Inr frame"
    and "aesDecrypt (env_D env) (take 16 (env_sessionKey env)) (take 16 (drop 16 (env_sessionKey env))) frame = Inr hp"
    and "decode hp = Inr m"
    and "hello_out env (take 16 (env_sessionKey env)) (take 16 (drop 16 (env_sessionKey env))) = Inr (hct, hw)"
  shows "runHandshake env w =
           (\<lparr>pc = Finished \<lparr>r_coreId = to_hex idBuf, r_sessionKey = env_sessionKey env,
               r_aesKey = take 16 (env_sessionKey env), r_ivIn = take 16 frame, r_ivOut = take 16 hct,
               r_recvCounter = messageId m, r_sendCounter = int (header_len (env_counter env)),
               r_productId = fst (hello_fields m), r_firmwareVersion = snd (hello_fields m)\<rparr>,
             prog = \<lparr>p_stage = DONE, p_coreId = Some (to_hex idBuf)\<rparr>\<rparr>,
            [env_nonce env, ct @ sig, hw])"
    (is "_ = (\<lparr>pc = Finished ?r, prog = ?p\<rparr>, ?ws)")
proof -
  have id: "identify env (env_nonce env @ idBuf) = Inr (to_hex idBuf)"
    using assms(3,4) by (simp add: identify_def)
  have p: "deriveAesParams (env_sessionKey env) =
      Inr \<lparr>ap_key = take 16 (env_sessionKey env), ap_iv = take 16 (drop 16 (env_sessionKey env))\<rparr>"
    using assms(9) by (simp add: deriveAesParams_def subarray_def)
  have "straight_line env w = Inr ?r"
    using p assms by (simp add: straight_line_def id require_key_def)
  then have "fst (runHandshake env w) = \<lparr>pc = Finished ?r, prog = ?p\<rparr>"
    using finished_state [of env w ?r] by (simp add: finished_straight)
  moreover have "wire_writes env w = ?ws"
    using p assms by (simp add: spec_defs id require_key_def)
  then have "snd (runHandshake env w) = ?ws" by (simp add: runHandshake_spec)
  ultimately show ?thesis by (metis prod.collapse)
qed

text \<open>C3. End to end: against a device that follows the protocol, with key pairs that match and keys
  of the sizes in use (128-byte ciphertexts, 256-byte signatures), the handshake finishes and both
  sides agree. The device accepts the signed session key and recovers the key the server drew; the
  server reports the identity the device sent, the message id of its Hello and what its payload
  says; the IVs the server keeps are the first 16 bytes of the two Hello frames as each side saw
  them; and the device reads the server's answer as a \<open>Hello\<close> with the server's counter as id.
\<close>

theorem handshake_agreement:
  assumes "block_cipher (env_E env) (env_D env)"
    and "key_pair node serverPub serverPriv" and "key_pair node devicePub devicePriv"
    and "length (env_nonce env) = 40" and "32 \<le> length (env_sessionKey env)"
    and "length idBuf = 12" and "pem \<noteq> ''''" and "mid < 65536"
    and "device_identify node serverPub rnd1 idBuf (env_nonce env) = Inr blob"
    and "rsaEncrypt node devicePub rnd2 (env_sessionKey env) = Inr ct" and "length ct = 128"
    and "rsaSign node serverPriv (env_hmac env ct (env_sessionKey env)) = Inr sig" and "length sig = 256"
  shows "\<exists>r hw frame frame' m.
      runHandshake env (honest_world node env serverPub serverPriv devicePub devicePriv rnd1 rnd2 pem idBuf mid info) =
        (\<lparr>pc = Finished r, prog = \<lparr>p_stage = DONE, p_coreId = Some (to_hex idBuf)\<rparr>\<rparr>,
         [env_nonce env, ct @ sig, hw]) \<and>
      r_coreId r = to_hex idBuf \<and>
      device_session node (env_hmac env) devicePriv serverPub (ct @ sig) = Inr (r_sessionKey r) \<and>
      device_hello (env_E env) (r_sessionKey r) mid info = Inr frame \<and>
      device_finish (env_D env) (r_sessionKey r) hw = Some (frame', m) \<and>
      r_aesKey r = take 16 (r_sessionKey r) \<and>
      r_ivIn r = take 16 frame \<and> r_ivOut r = take 16 frame' \<and>
      r_recvCounter r = int mid \<and> messageId m = r_sendCounter r \<and> classify m = Some ''Hello'' \<and>
      (4 \<le> length info \<longrightarrow>
         r_productId r = Some (header_len info) \<and> r_firmwareVersion r = Some (header_len (drop 2 info)))"
proof -
  let ?key = "env_sessionKey env" and ?n = "header_len (env_counter env)"
  let ?w = "honest_world node env serverPub serverPriv devicePub devicePriv rnd1 rnd2 pem idBuf mid info"
  let ?m = "decoded_form (device_hello_msg mid info)"
  note sess = device_session_agrees [where hmac = "env_hmac env", OF assms(2,3,10,11,12,13)]
  have pt: "rsaDecrypt node serverPriv blob = Inr (env_nonce env @ idBuf)"
    using key_pair_decrypt [OF assms(2)] assms(9) unfolding device_identify_def by blast
  obtain frame where frame: "device_hello (env_E env) ?key mid info = Inr frame"
    using device_hello_ok assms(5) by blast
  obtain hp where hp: "aesDecrypt (env_D env) (take 16 ?key) (take 16 (drop 16 ?key)) frame = Inr hp"
      "decode hp = Inr ?m"
    using device_hello_read [OF assms(1) frame] by (auto simp: bindE_Inr_iff)
  obtain hct hw where out: "hello_out env (take 16 ?key) (take 16 (drop 16 ?key)) = Inr (hct, hw)"
    and fin: "device_finish (env_D env) ?key hw = Some (hct, decoded_form (server_hello ?n))"
    using server_hello_sent [OF assms(1,5)] .
  have w: "w_coreId_blob ?w = Inr blob" "w_plaintext ?w = Inr (env_nonce env @ idBuf)"
    "w_corePubPem ?w = Inr (Some pem)" "w_sessionCiphertext ?w = Inr ct" "w_signature ?w = Inr sig"
    "w_helloFrame ?w = Inr frame"
    using assms(9,10,12) pt sess frame by (simp_all add: honest_world_def)
  note run = honest_run [OF w(1,2) assms(4,6) w(3) assms(7) w(4,5) assms(5) w(6) hp out]
  have m: "messageId ?m = int mid" "payload ?m = info"
    using assms(8) by (simp_all add: decoded_form_def device_hello_msg_def mask_mod)
  have "messageId (decoded_form (server_hello ?n)) = int ?n"
      "classify (decoded_form (server_hello ?n)) = Some ''Hello''"
    using server_hello_plain [OF header_len_bound] server_hello_read [OF _ header_len_bound] by blast+
  then show ?thesis using sess frame fin m
    by (subst run) (auto simp: hello_fields_def)
qed

text \<open>
  The hypotheses can hold: keys whose ciphertexts are length-prefixed messages padded with zeros to
  128 and 256 bytes, and the toy cipher.
\<close>

definition block_rsa :: "(unit, unit) node_rsa" where
  "block_rsa =
     (let box = (\<lambda>n m :: bytes. if length m \<le> 100 then Inr (word_of_nat (length m) # m @ replicate (n - length m) 0)
                        else Inl (NodeError ''ERR_OSSL_RSA''));
          unbox = (\<lambda>c :: bytes. case c of [] \<Rightarrow> Inl (NodeError ''ERR_OSSL_RSA'') | l # m \<Rightarrow> Inr (take (unat l) m))
      in \<lparr>publicEncrypt = (\<lambda>_ _ _. box 127), privateDecrypt = (\<lambda>_ _. unbox),
          privateEncrypt = (\<lambda>_ _. box 255), publicDecrypt = (\<lambda>_ _. unbox)\<rparr>)"

lemma block_rsa_pair: "key_pair block_rsa () ()"
proof -
  have "unat (word_of_nat (length (x :: bytes)) :: byte) = length x" if "length x \<le> 100" for x
    using that by (simp add: unat_of_nat take_bit_nat_eq_self)
  then show ?thesis
    by (auto simp: key_pair_def block_rsa_def Let_def split: if_splits)
qed

theorem handshake_agreement_witness:
  "\<exists>r hw. runHandshake toy_env
        (honest_world block_rsa toy_env () () () () [] [] ''PEM'' (replicate 12 0xAB) 7 [0, 5, 0, 3]) =
      (\<lparr>pc = Finished r, prog = \<lparr>p_stage = DONE, p_coreId = Some (to_hex (replicate 12 0xAB))\<rparr>\<rparr>, hw) \<and>
     r_recvCounter r = 7 \<and> r_productId r = Some 5 \<and> r_firmwareVersion r = Some 3"
proof -
  have env: "block_cipher (env_E toy_env) (env_D toy_env)" "length (env_nonce toy_env) = 40"
    "32 \<le> length (env_sessionKey toy_env)"
    by (simp_all add: toy_env_def xor_cipher_ok)
  obtain blob where blob:
    "device_identify block_rsa () [] (replicate 12 0xAB) (env_nonce toy_env) = Inr blob"
    by (simp add: device_identify_def rsaEncrypt_def block_rsa_def Let_def toy_env_def)
  obtain ct where ct: "rsaEncrypt block_rsa () [] (env_sessionKey toy_env) = Inr ct" "length ct = 128"
    by (simp add: rsaEncrypt_def block_rsa_def Let_def toy_env_def)
  obtain sig where sig: "rsaSign block_rsa () (env_hmac toy_env ct (env_sessionKey toy_env)) = Inr sig"
    "length sig = 256"
    by (simp add: rsaSign_def block_rsa_def Let_def toy_env_def)
  have "header_len [0, 5, 0, 3] = 5" "header_len (drop 2 [0, 5, 0, 3]) = 3"
    by (simp_all add: header_len_def)
  then show ?thesis
    using handshake_agreement [OF env(1) block_rsa_pair block_rsa_pair env(2,3) _ _ _ blob ct sig,
        where pem = "''PEM''" and mid = 7 and info = "[0, 5, 0, 3]"] by auto
qed

end
