(* ===== verification/Byte_Queue.thy ===== *)
theory Byte_Queue
  imports Prelude Machine
begin

section \<open>The byte queue behind a session's reads (\<open>ByteQueue\<close> in \<open>lib/session.js\<close>)\<close>

text \<open>
  \<open>push\<close>, \<open>close\<close>, \<open>read\<close> and the private \<open>_drain\<close>. A read returns a promise; the model
  identifies it by a ticket, and settling it is an effect: \<open>Resolve\<close> with the bytes or
  \<open>Reject\<close> with the error.
\<close>

record 'w byte_queue =
  q_buf :: bytes
  q_waiters :: "('w \<times> nat) list"
  q_closed :: bool

datatype 'w settled = Resolve 'w bytes | Reject 'w js_error

definition new_byte_queue :: "'w byte_queue" where
  "new_byte_queue = \<lparr>q_buf = [], q_waiters = [], q_closed = False\<rparr>"

definition socket_closed :: js_error where
  "socket_closed = Error ''socket closed''"

fun drain_loop ::
    "bytes \<Rightarrow> bool \<Rightarrow> ('w \<times> nat) list \<Rightarrow> bytes \<times> ('w \<times> nat) list \<times> 'w settled list" where
  "drain_loop buf cl [] = (buf, [], [])"
| "drain_loop buf cl ((w, want) # ws) =
     (if want \<le> length buf then
        let (buf', ws', es) = drain_loop (drop want buf) cl ws
        in (buf', ws', Resolve w (take want buf) # es)
      else if cl then
        let (buf', ws', es) = drain_loop buf cl ws
        in (buf', ws', Reject w socket_closed # es)
      else (buf, (w, want) # ws, []))"

definition drain :: "'w byte_queue \<Rightarrow> 'w byte_queue \<times> 'w settled list" where
  "drain q =
     (let (buf, ws, es) = drain_loop (q_buf q) (q_closed q) (q_waiters q)
      in (q\<lparr>q_buf := buf, q_waiters := ws\<rparr>, es))"

definition push :: "'w byte_queue \<Rightarrow> bytes \<Rightarrow> 'w byte_queue \<times> 'w settled list" where
  "push q b = drain (q\<lparr>q_buf := q_buf q @ b\<rparr>)"

definition close :: "'w byte_queue \<Rightarrow> 'w byte_queue \<times> 'w settled list" where
  "close q = drain (q\<lparr>q_closed := True\<rparr>)"

definition read :: "'w byte_queue \<Rightarrow> 'w \<Rightarrow> nat \<Rightarrow> 'w byte_queue \<times> 'w settled list" where
  "read q w n = drain (q\<lparr>q_waiters := q_waiters q @ [(w, n)]\<rparr>)"

datatype 'w queue_op = Push bytes | Close | Read 'w nat

fun queue_step :: "'w byte_queue \<Rightarrow> 'w queue_op \<Rightarrow> 'w byte_queue \<times> 'w settled list" where
  "queue_step q (Push b) = push q b"
| "queue_step q Close = close q"
| "queue_step q (Read w n) = read q w n"

subsection \<open>The drain loop\<close>

fun delivered :: "'w settled list \<Rightarrow> bytes" where
  "delivered [] = []"
| "delivered (Resolve w b # es) = b @ delivered es"
| "delivered (Reject w e # es) = delivered es"

text \<open>The outcome a read of \<open>want\<close> bytes may have.\<close>

fun answers :: "'w \<times> nat \<Rightarrow> 'w settled \<Rightarrow> bool" where
  "answers (w, want) (Resolve w' b) \<longleftrightarrow> w' = w \<and> length b = want"
| "answers (w, want) (Reject w' e) \<longleftrightarrow> w' = w \<and> e = socket_closed"

lemma delivered_append [simp]: "delivered (es @ fs) = delivered es @ delivered fs"
  by (induction es rule: delivered.induct) simp_all

text \<open>One round of the loop, by its three outcomes.\<close>

lemma drain_loop_cases:
  assumes "drain_loop buf cl ((w, want) # ws) = (buf', ws', es)"
  obtains (enough) es' where "want \<le> length buf" "drain_loop (drop want buf) cl ws = (buf', ws', es')"
      "es = Resolve w (take want buf) # es'"
    | (closed) es' where "\<not> want \<le> length buf" "cl" "drain_loop buf cl ws = (buf', ws', es')"
      "es = Reject w socket_closed # es'"
    | (wait) "\<not> want \<le> length buf" "\<not> cl" "buf' = buf" "ws' = (w, want) # ws" "es = []"
  using assms by (auto split: if_splits prod.splits)

lemma drain_loop_bytes: "drain_loop buf cl ws = (buf', ws', es) \<Longrightarrow> delivered es @ buf' = buf"
proof (induction buf cl ws arbitrary: buf' ws' es rule: drain_loop.induct)
  case (2 buf cl w want ws)
  from "2.prems" show ?case
  proof (cases rule: drain_loop_cases)
    case (enough es')
    with "2.IH"(1) have "delivered es' @ buf' = drop want buf" by blast
    with enough show ?thesis by simp
  next
    case (closed es')
    with "2.IH"(2) show ?thesis by simp
  qed simp
qed simp

lemma drain_loop_order:
  "drain_loop buf cl ws = (buf', ws', es) \<Longrightarrow>
   \<exists>served. ws = served @ ws' \<and> list_all2 answers served es"
proof (induction buf cl ws arbitrary: buf' ws' es rule: drain_loop.induct)
  case (2 buf cl w want ws)
  from "2.prems" show ?case
  proof (cases rule: drain_loop_cases)
    case (enough es')
    with "2.IH"(1) obtain d where "ws = d @ ws'" "list_all2 answers d es'" by blast
    with enough show ?thesis by (intro exI [of _ "(w, want) # d"]) simp
  next
    case (closed es')
    with "2.IH"(2) obtain d where "ws = d @ ws'" "list_all2 answers d es'" by blast
    with closed show ?thesis by (intro exI [of _ "(w, want) # d"]) simp
  qed simp
qed simp

text \<open>A queue is drained: its first waiter lacks bytes, and a closed queue has no waiter.\<close>

definition drained :: "'w byte_queue \<Rightarrow> bool" where
  "drained q \<longleftrightarrow>
     (case q_waiters q of [] \<Rightarrow> True | (w, want) # _ \<Rightarrow> length (q_buf q) < want \<and> \<not> q_closed q)"

lemma drain_loop_drained:
  "drain_loop buf cl ws = (buf', ws', es) \<Longrightarrow>
   (case ws' of [] \<Rightarrow> True | (w, want) # _ \<Rightarrow> length buf' < want \<and> \<not> cl)"
  by (induction buf cl ws arbitrary: buf' ws' es rule: drain_loop.induct)
     (auto split: if_splits prod.splits)

lemma drain_drained: "drained (fst (drain q))"
  using drain_loop_drained [of "q_buf q" "q_closed q" "q_waiters q"]
  by (auto simp: drain_def drained_def split: prod.splits list.splits)

lemma queue_step_drained: "drained (fst (queue_step q opn))"
  by (cases opn) (simp_all add: push_def close_def read_def drain_drained)

interpretation queue: machine new_byte_queue queue_step drained "\<lambda>_. True"
proof unfold_locales
  show "drained new_byte_queue" by (simp add: drained_def new_byte_queue_def)
qed (simp_all add: queue_step_drained list.pred_True)

subsection \<open>What a run of a queue guarantees\<close>

fun pushed :: "'w queue_op list \<Rightarrow> bytes" where
  "pushed [] = []"
| "pushed (Push b # ops) = b @ pushed ops"
| "pushed (_ # ops) = pushed ops"

fun reads :: "'w queue_op list \<Rightarrow> ('w \<times> nat) list" where
  "reads [] = []"
| "reads (Read w n # ops) = (w, n) # reads ops"
| "reads (_ # ops) = reads ops"

lemma drain_delivered: "delivered (snd (drain q)) @ q_buf (fst (drain q)) = q_buf q"
  using drain_loop_bytes [of "q_buf q" "q_closed q" "q_waiters q"]
  by (auto simp: drain_def split: prod.splits)

lemma drain_served:
  "\<exists>served. q_waiters q = served @ q_waiters (fst (drain q)) \<and> list_all2 answers served (snd (drain q))"
  using drain_loop_order [of "q_buf q" "q_closed q" "q_waiters q"]
  by (auto simp: drain_def split: prod.splits)

lemma drain_closed [simp]: "q_closed (fst (drain q)) = q_closed q"
  by (simp add: drain_def split_beta)

lemma queue_step_delivered:
  "delivered (snd (queue_step q opn)) @ q_buf (fst (queue_step q opn)) = q_buf q @ pushed [opn]"
  by (cases opn) (simp_all add: push_def close_def read_def drain_delivered)

lemma queue_step_served:
  "\<exists>served. q_waiters q @ reads [opn] = served @ q_waiters (fst (queue_step q opn)) \<and>
            list_all2 answers served (snd (queue_step q opn))"
proof (cases opn)
  case (Push b)
  then show ?thesis using drain_served [of "q\<lparr>q_buf := q_buf q @ b\<rparr>"] by (simp add: push_def)
next
  case Close
  then show ?thesis using drain_served [of "q\<lparr>q_closed := True\<rparr>"] by (simp add: close_def)
next
  case (Read w n)
  then show ?thesis
    using drain_served [of "q\<lparr>q_waiters := q_waiters q @ [(w, n)]\<rparr>"] by (simp add: read_def)
qed

lemma pushed_Cons: "pushed (opn # ops) = pushed [opn] @ pushed ops"
  by (cases opn) simp_all

lemma reads_Cons: "reads (opn # ops) = reads [opn] @ reads ops"
  by (cases opn) simp_all

lemma run_delivered:
  "delivered (snd (run queue_step q ops)) @ q_buf (fst (run queue_step q ops)) = q_buf q @ pushed ops"
proof (induction ops arbitrary: q)
  case (Cons opn ops)
  from Cons.IH [of "fst (queue_step q opn)"] queue_step_delivered [of q opn] show ?case
    unfolding run_Cons pushed_Cons [of opn ops] by simp
qed simp

lemma run_served:
  "\<exists>served. q_waiters q @ reads ops = served @ q_waiters (fst (run queue_step q ops)) \<and>
            list_all2 answers served (snd (run queue_step q ops))"
proof (induction ops arbitrary: q)
  case (Cons opn ops)
  let ?q1 = "fst (queue_step q opn)"
  from queue_step_served [of q opn] obtain s1 where
    1: "q_waiters q @ reads [opn] = s1 @ q_waiters ?q1" "list_all2 answers s1 (snd (queue_step q opn))"
    by blast
  from Cons.IH [of ?q1] obtain s2 where
    2: "q_waiters ?q1 @ reads ops = s2 @ q_waiters (fst (run queue_step ?q1 ops))"
       "list_all2 answers s2 (snd (run queue_step ?q1 ops))" by blast
  have "q_waiters q @ reads (opn # ops) = (s1 @ s2) @ q_waiters (fst (run queue_step q (opn # ops)))"
    unfolding run_Cons reads_Cons [of opn ops] append.assoc fst_conv 2(1) [symmetric]
    using 1(1) by (simp only: append.assoc [symmetric])
  moreover have "list_all2 answers (s1 @ s2) (snd (run queue_step q (opn # ops)))"
    using 1(2) 2(2) by (simp add: run_Cons list_all2_appendI)
  ultimately show ?case by blast
qed simp

lemma queue_answers_in_order_aux:
  "\<exists>served. reads ops = served @ q_waiters (fst (run queue_step new_byte_queue ops)) \<and>
            list_all2 answers served (snd (run queue_step new_byte_queue ops))"
  using run_served [of new_byte_queue ops] by (auto simp: new_byte_queue_def)

text \<open>The queue is closed from its first \<open>close\<close> on.\<close>

lemma queue_step_closed: "q_closed (fst (queue_step q opn)) \<longleftrightarrow> q_closed q \<or> opn = Close"
  by (cases opn) (simp_all add: push_def close_def read_def)

lemma queue_run_closed: "q_closed (fst (run queue_step q ops)) \<longleftrightarrow> q_closed q \<or> Close \<in> set ops"
  by (induction ops arbitrary: q) (auto simp: run_Cons queue_step_closed)

text \<open>A read is rejected only by a closed queue that holds too few bytes for it.\<close>

lemma drain_loop_starves:
  "drain_loop buf cl ws = (buf', ws', pre @ Reject w e # post) \<Longrightarrow>
   cl \<and> length buf < length (delivered pre) + snd (ws ! length pre)"
proof (induction buf cl ws arbitrary: buf' ws' pre rule: drain_loop.induct)
  case (2 buf cl v want ws)
  from "2.prems" show ?case
  proof (cases rule: drain_loop_cases)
    case (enough es')
    then obtain pre' where p: "pre = Resolve v (take want buf) # pre'" "es' = pre' @ Reject w e # post"
      by (cases pre) auto
    with "2.IH"(1) enough have "cl \<and> length (drop want buf) < length (delivered pre') + snd (ws ! length pre')"
      by blast
    with p enough(1) show ?thesis by auto
  next
    case (closed es')
    show ?thesis
    proof (cases pre)
      case (Cons x pre')
      with closed have p: "pre = Reject v socket_closed # pre'" "es' = pre' @ Reject w e # post" by simp_all
      with "2.IH"(2) closed have "length buf < length (delivered pre') + snd (ws ! length pre')" by blast
      with p closed(2) show ?thesis by simp
    qed (use closed in simp)
  qed simp
qed simp

lemma drain_starves:
  "snd (drain q) = pre @ Reject w e # post \<Longrightarrow>
   q_closed q \<and> length (q_buf q) < length (delivered pre) + snd (q_waiters q ! length pre)"
  using drain_loop_starves [of "q_buf q" "q_closed q" "q_waiters q"]
  by (simp add: drain_def split: prod.splits)

lemma queue_step_rejects:
  assumes "snd (queue_step q opn) = pre @ Reject w e # post"
  shows "(q_closed q \<or> opn = Close) \<and>
         length (q_buf q @ pushed [opn]) < length (delivered pre) + snd ((q_waiters q @ reads [opn]) ! length pre)"
  using assms by (cases opn) (auto simp: push_def close_def read_def dest: drain_starves)

lemma history_append: "pushed (ops @ ops') = pushed ops @ pushed ops'" "reads (ops @ ops') = reads ops @ reads ops'"
  by (induction ops rule: pushed.induct) simp_all

text \<open>
  The reads rejected in a run. When the read after those answered by \<open>pre\<close> was rejected, \<open>k\<close>
  operations had been called: one of them was a \<open>close\<close>, and what they had pushed and the reads
  before had not taken was less than it wanted.
\<close>

definition starved :: "'w queue_op list \<Rightarrow> 'w settled list \<Rightarrow> bool" where
  "starved ops pre \<longleftrightarrow>
     (\<exists>k\<le>length ops. Close \<in> set (take k ops) \<and>
        length (pushed (take k ops)) < length (delivered pre) + snd (reads ops ! length pre))"

lemma run_rejects:
  "snd (run queue_step new_byte_queue ops) = pre @ Reject w e # post \<Longrightarrow> starved ops pre"
proof (induction ops arbitrary: pre post rule: rev_induct)
  case (snoc opn ops)
  let ?q = "fst (run queue_step new_byte_queue ops)" and ?out = "snd (run queue_step new_byte_queue ops)"
  obtain served where r: "reads ops = served @ q_waiters ?q" and "list_all2 answers served ?out"
    using queue_answers_in_order_aux by blast
  then have l: "length served = length ?out" by (blast dest: list_all2_lengthD)
  have "?out @ snd (queue_step ?q opn) = pre @ Reject w e # post"
    using snoc.prems by (simp add: run_append run_Cons)
  then consider
    (old) post' where "?out = pre @ Reject w e # post'"
  | (new) pre' where "pre = ?out @ pre'" "snd (queue_step ?q opn) = pre' @ Reject w e # post"
    unfolding append_eq_append_conv2
  proof (elim exE disjE conjE, goal_cases)
    case (1 us)
    then show ?case by (cases us) auto
  next
    case (2 us)
    then show ?case by blast
  qed
  then show ?case
  proof cases
    case old
    from snoc.IH [OF old] obtain k where k: "k \<le> length ops" "Close \<in> set (take k ops)"
      "length (pushed (take k ops)) < length (delivered pre) + snd (reads ops ! length pre)"
      unfolding starved_def by blast
    have "length pre < length (reads ops)" using l r old by simp
    with k show ?thesis unfolding starved_def
      by (intro exI [of _ k]) (simp add: history_append nth_append)
  next
    case new
    note rej = queue_step_rejects [OF new(2)]
    have "delivered ?out @ q_buf ?q = pushed ops" using run_delivered [of new_byte_queue ops] by (simp add: new_byte_queue_def)
    then have "length (pushed (ops @ [opn])) = length (delivered ?out) + length (q_buf ?q @ pushed [opn])"
      by (metis append.assoc history_append(1) length_append)
    moreover have "reads (ops @ [opn]) ! length pre = (q_waiters ?q @ reads [opn]) ! length pre'"
      by (simp only: history_append r append.assoc new(1) length_append nth_append_length_plus flip: l)
    moreover have "Close \<in> set (ops @ [opn])"
      using rej queue_run_closed [of new_byte_queue ops] by (auto simp: new_byte_queue_def)
    ultimately show ?thesis using rej unfolding starved_def
      by (intro exI [of _ "Suc (length ops)"]) (simp add: new(1))
  qed
qed simp

text \<open>C27. What the reads of a queue get, after any sequence of pushes, reads and closes. The settled
  promises are those of the first reads, in order, each settled once: with exactly the number of
  bytes it asked for, or with the rejection \<open>socket closed\<close>. The bytes handed out, put one after
  another, followed by those still buffered, are exactly the bytes pushed. A read is rejected only
  after a \<open>close\<close>, at a moment when the bytes not yet handed out were too few for it. The reads not
  settled are still waiting, and only because the first of them lacks bytes and there has been no
  \<open>close\<close>.
\<close>

theorem queue_answers_in_order:
  assumes "run queue_step new_byte_queue ops = (q, out)"
  shows "(\<exists>served. reads ops = served @ q_waiters q \<and> list_all2 answers served out) \<and>
         delivered out @ q_buf q = pushed ops \<and>
         (\<forall>pre w e post. out = pre @ Reject w e # post \<longrightarrow> starved ops pre) \<and>
         (case q_waiters q of [] \<Rightarrow> True | (w, want) # _ \<Rightarrow> length (q_buf q) < want \<and> Close \<notin> set ops)"
proof (intro conjI)
  from assms have q: "q = fst (run queue_step new_byte_queue ops)" and out: "out = snd (run queue_step new_byte_queue ops)"
    by simp_all
  show "\<exists>served. reads ops = served @ q_waiters q \<and> list_all2 answers served out"
    unfolding q out by (rule queue_answers_in_order_aux)
  show "delivered out @ q_buf q = pushed ops"
    using run_delivered [of new_byte_queue ops] by (simp add: q out new_byte_queue_def)
  show "\<forall>pre w e post. out = pre @ Reject w e # post \<longrightarrow> starved ops pre"
    unfolding out by (intro allI impI) (rule run_rejects)
  have "drained q" unfolding q by (rule queue.inv_run)
  moreover have "q_closed q \<longleftrightarrow> Close \<in> set ops"
    using queue_run_closed [of new_byte_queue ops] by (simp add: q new_byte_queue_def)
  ultimately show "case q_waiters q of [] \<Rightarrow> True | (w, want) # _ \<Rightarrow> length (q_buf q) < want \<and> Close \<notin> set ops"
    by (simp add: drained_def split: list.splits prod.splits)
qed

text \<open>Two reads of two bytes, of which a closed queue with three bytes can serve one.\<close>

theorem queue_answers_in_order_witness:
  "let ops = [Read ''a'' 2, Push [1, 2, 3], Close, Read ''b'' 2] in
     starved ops [Resolve ''a'' [1, 2]] \<and> reads ops = [(''a'', 2), (''b'', 2)] \<and>
     (\<exists>served. reads ops = served \<and> list_all2 answers served [Resolve ''a'' [1, 2], Reject ''b'' socket_closed])"
proof -
  let ?ops = "[Read ''a'' 2, Push [1, 2, 3], Close, Read ''b'' 2]"
  have r: "run queue_step new_byte_queue ?ops =
      (\<lparr>q_buf = [3], q_waiters = [], q_closed = True\<rparr>, [Resolve ''a'' [1, 2]] @ Reject ''b'' socket_closed # [])"
    by (simp add: run_Cons new_byte_queue_def read_def push_def close_def drain_def)
  show ?thesis using queue_answers_in_order [OF r] by (simp add: Let_def)
qed

text \<open>No read hangs once the queue is closed: in any run that contains a \<open>close\<close>, before or
  after the reads, every read has been settled, and their number is the number of answers.
\<close>

theorem queue_close_settles_all:
  assumes "Close \<in> set ops"
  shows "list_all2 answers (reads ops) (snd (run queue_step new_byte_queue ops))"
proof -
  let ?q = "fst (run queue_step new_byte_queue ops)"
  have "q_closed ?q" and "drained ?q" using assms queue_run_closed [of new_byte_queue ops] queue.inv_run by blast+
  then have "q_waiters ?q = []" by (auto simp: drained_def split: list.splits)
  with queue_answers_in_order_aux [of ops] show ?thesis by auto
qed

theorem queue_close_settles_all_witness:
  "list_all2 answers [(''a'', 2), (''b'', 2)] [Resolve ''a'' [1, 2], Reject ''b'' socket_closed]"
proof -
  let ?ops = "[Read ''a'' 2, Push [1, 2, 3], Close, Read ''b'' 2]"
  have "Close \<in> set ?ops" by simp
  from queue_close_settles_all [OF this] show ?thesis
    by (simp add: run_Cons new_byte_queue_def read_def push_def close_def drain_def)
qed

end
