(* ===== verification/Session.thy ===== *)
theory Session
  imports Handshake Byte_Queue "HOL-Library.AList"
begin

section \<open>The session of one device (class \<open>Session\<close> of \<open>lib/session.js\<close>)\<close>

text \<open>
  A session is driven by events: calls of its methods, socket events, timers, and the promises it
  awaits. \<open>session_step\<close> is the handler of one event; it takes the object to its next state and
  the list of visible effects in their order (socket writes, emitted events, settled promises).

  \<open>run()\<close> is the one asynchronous method. Its position is \<open>task\<close>: before the call, inside
  \<open>runHandshake\<close> (whose suspended state is that of theory \<open>Handshake\<close>), at the test of the
  \<open>while\<close> loop, awaiting \<open>readFrame\<close>, or ended. A read of the byte queue that has been settled
  is kept in \<open>woken\<close> until the continuation runs, which is the event \<open>Micro\<close>. The runtime runs
  continuations before the next I/O event, but listeners called from inside a handler may call
  the session's methods first; the model lets any event come in between, so what holds for all
  sequences of events holds for all real schedules. The result of \<open>runHandshake\<close> is adopted in the
  step of its last segment; in \<open>run\<close> only other continuations can come between the two.

  Assumed of the host, as \<open>Gateway\<close> does it: \<open>run()\<close> is called once, and the session has an
  \<open>error\<close> listener (an \<open>EventEmitter\<close> without one throws). A timer is only known to be armed
  or not; its duration is the runtime's matter.
\<close>

subsection \<open>State, events and effects\<close>

datatype session_state = Opening | Handshaking | Connected | Closed

text \<open>What a read of the queue is for: the blob of stage 2, a frame's header, a frame's body.\<close>

datatype reader = CoreIdBytes | FrameHead | FrameBody

datatype task = NotRun | InHandshake hs_state | LoopCheck | AwaitFrame | Ended

text \<open>
  \<open>_pending\<close> is an insertion-ordered map from the token's hex form to the request's callbacks,
  here the request's number; \<open>timers\<close> holds the armed request timers with what their closures
  captured: the key, the name and the timeout. The fields that start as \<open>null\<close> are options.
\<close>

record session =
  st :: session_state
  inq :: "reader byte_queue"
  woken :: "reader settled list"
  task :: task
  idle_armed :: bool
  pending :: "(string \<times> nat) list"
  timers :: "(nat \<times> string \<times> string \<times> nat) list"
  next_req :: nat
  coreId :: "string option"
  sessionKey :: "bytes option"
  aesKey :: "bytes option"
  ivIn :: "bytes option"
  ivOut :: "bytes option"
  recvCounter :: int
  sendCounter :: int
  lastHeard :: nat
  productId :: "nat option"
  firmwareVersion :: "nat option"
  hs_progress :: "progress option"
  hs_error :: "js_error option"

record send_opts =
  o_payload :: "bytes option"
  o_options :: "int coap_option list option"
  o_messageId :: "int option"
  o_token :: "bytes option"
  o_type :: "int option"

record request_opts =
  ro_payload :: "bytes option"
  ro_options :: "int coap_option list option"
  ro_timeoutMs :: "nat option"

datatype event =
    CallRun
  | Data nat bytes
  | SocketError js_error
  | SocketClosed
  | IdleTimeout
  | RequestTimeout nat
  | Settle hs_reply
  | Micro
  | CallSend string send_opts
  | CallRequest string request_opts byte
  | CallDisconnect

datatype effect =
    Write bytes
  | SocketEnd
  | Ask hs_request
  | EmitHandshake hs_result
  | EmitMessage "string option" coap_message
  | EmitError js_error
  | EmitClose
  | ResolveReq nat coap_message
  | RejectReq nat js_error
  | Returned int
  | Thrown js_error

definition new_session :: "nat \<Rightarrow> session" where
  "new_session now =
     \<lparr>st = Opening, inq = new_byte_queue, woken = [], task = NotRun, idle_armed = False,
      pending = [], timers = [], next_req = 0, coreId = None, sessionKey = None, aesKey = None, ivIn = None,
      ivOut = None, recvCounter = 0, sendCounter = 0, lastHeard = now, productId = None,
      firmwareVersion = None, hs_progress = None, hs_error = None\<rparr>"

subsection \<open>The queue\<close>

definition wake :: "session \<Rightarrow> reader byte_queue \<times> reader settled list \<Rightarrow> session" where
  "wake s r = s\<lparr>inq := fst r, woken := woken s @ snd r\<rparr>"

definition read_queue :: "reader \<Rightarrow> nat \<Rightarrow> session \<Rightarrow> session" where
  "read_queue w n s = wake s (read (inq s) w n)"

subsection \<open>Closing\<close>

definition finalize :: "session \<Rightarrow> session \<times> effect list" where
  "finalize s =
     (if st s = Closed then (s, [])
      else let s1 = s\<lparr>st := Closed, idle_armed := False,
                     timers := fold (\<lambda>(key, rid). AList.delete rid) (pending s) (timers s),
                     pending := []\<rparr>
           in (wake s1 (close (inq s1)),
               map (\<lambda>(key, rid). RejectReq rid (Error ''session closed'')) (pending s) @ [EmitClose]))"

definition disconnect :: "session \<Rightarrow> session \<times> effect list" where
  "disconnect s =
     (if st s = Closed then (s, [])
      else let (s', fx) = finalize s in (s', SocketEnd # fx))"

text \<open>\<open>emit('error', err)\<close> followed by \<open>disconnect()\<close>.\<close>

definition fail_session :: "js_error \<Rightarrow> session \<Rightarrow> session \<times> effect list" where
  "fail_session e s = (let (s', fx) = disconnect s in (s', EmitError e # fx))"

subsection \<open>Sending\<close>

text \<open>The cipher calls throw a \<open>TypeError\<close> while key and IV are still \<open>null\<close>.\<close>

definition with_keys ::
    "bytes option \<Rightarrow> bytes option \<Rightarrow> (bytes \<Rightarrow> bytes \<Rightarrow> js_error + 'a) \<Rightarrow> js_error + 'a" where
  "with_keys key iv f =
     (case (key, iv) of
        (Some k, Some v) \<Rightarrow> f k v
      | _ \<Rightarrow> Inl (NodeError ''ERR_INVALID_ARG_TYPE''))"

type_synonym 'a act = "session \<times> effect list \<times> (js_error + 'a)"

definition sendPlain :: "hs_env \<Rightarrow> bytes \<Rightarrow> session \<Rightarrow> unit act" where
  "sendPlain env plain s =
     (case with_keys (aesKey s) (ivOut s) (\<lambda>k v. aesEncrypt (env_E env) k v plain) of
        Inl e \<Rightarrow> (s, [], Inl e)
      | Inr ct \<Rightarrow>
          let s1 = s\<lparr>ivOut := Some (subarray ct 0 16)\<rparr> in
          (case encodeFrame ct of
             Inl e \<Rightarrow> (s1, [], Inl e)
           | Inr w \<Rightarrow> (s1, [Write w], Inr ())))"

definition alloc_id :: "send_opts \<Rightarrow> session \<Rightarrow> int \<times> session" where
  "alloc_id opts s =
     (case o_messageId opts of
        None \<Rightarrow> (sendCounter s AND 0xFFFF, s\<lparr>sendCounter := (sendCounter s + 1) AND 0xFFFF\<rparr>)
      | Some i \<Rightarrow> (i AND 0xFFFF, s))"

definition uri_options :: "message_spec \<Rightarrow> int coap_option list" where
  "uri_options sp =
     (case s_uri sp of
        None \<Rightarrow> []
      | Some uri \<Rightarrow>
          if uri = '''' then [] else [\<lparr>number = int (Option UriPath), val = ascii_bytes uri\<rparr>])"

definition send_message :: "message_spec \<Rightarrow> send_opts \<Rightarrow> int \<Rightarrow> coap_input" where
  "send_message sp opts mid =
     \<lparr>in_type = (case o_type opts of None \<Rightarrow> s_type sp | Some t \<Rightarrow> t), in_code = s_code sp,
      in_messageId = mid,
      in_token = Some (or_empty (o_token opts)),
      in_options = Some (uri_options sp @ or_empty (o_options opts)),
      in_payload = o_payload opts\<rparr>"

definition send :: "hs_env \<Rightarrow> string \<Rightarrow> send_opts \<Rightarrow> session \<Rightarrow> int act" where
  "send env name opts s =
     (case message_spec name of
        None \<Rightarrow> (s, [], Inl (Error (''unknown message: '' @ name)))
      | Some sp \<Rightarrow>
          let (mid, s1) = alloc_id opts s in
          (case encode (send_message sp opts mid) of
             Inl e \<Rightarrow> (s1, [], Inl e)
           | Inr plain \<Rightarrow>
               let (s2, fx, r) = sendPlain env plain s1 in
               (s2, fx, bindE r (\<lambda>_. Inr mid))))"

definition request_send :: "request_opts \<Rightarrow> byte \<Rightarrow> send_opts" where
  "request_send opts rnd =
     \<lparr>o_payload = ro_payload opts, o_options = ro_options opts, o_messageId = None,
      o_token = Some [rnd], o_type = None\<rparr>"

definition request :: "hs_env \<Rightarrow> string \<Rightarrow> request_opts \<Rightarrow> byte \<Rightarrow> session \<Rightarrow> session \<times> effect list" where
  "request env name opts rnd s =
     (let rid = next_req s; s0 = s\<lparr>next_req := rid + 1\<rparr> in
      if st s \<noteq> Connected then (s0, [RejectReq rid (Error ''session not connected'')])
      else
        let key = to_hex [rnd];
            timeoutMs = (case ro_timeoutMs opts of None \<Rightarrow> 5000 | Some ms \<Rightarrow> ms);
            s1 = s0\<lparr>timers := AList.update rid (key, name, timeoutMs) (timers s0),
                    pending := AList.update key rid (pending s0)\<rparr>;
            (s2, fx, r) = send env name (request_send opts rnd) s1
        in (case r of
              Inr _ \<Rightarrow> (s2, fx)
            | Inl e \<Rightarrow>
                (s2\<lparr>pending := AList.delete key (pending s2), timers := AList.delete rid (timers s2)\<rparr>,
                 fx @ [RejectReq rid e])))"

definition request_timeout :: "nat \<Rightarrow> session \<Rightarrow> session \<times> effect list" where
  "request_timeout rid s =
     (case map_of (timers s) rid of
        None \<Rightarrow> (s, [])
      | Some (key, name, ms) \<Rightarrow>
          (s\<lparr>timers := AList.delete rid (timers s), pending := AList.delete key (pending s)\<rparr>,
           [RejectReq rid (Error (''device request '' @ [CHR 0x27] @ name @ [CHR 0x27] @
              '' timed out after '' @ dec ms @ ''ms''))]))"

subsection \<open>Receiving\<close>

definition ping_ack :: "coap_message \<Rightarrow> coap_input" where
  "ping_ack msg =
     \<lparr>in_type = Type ACK, in_code = Code Empty, in_messageId = messageId msg,
      in_token = Some (token msg), in_options = None, in_payload = None\<rparr>"

text \<open>What \<open>_handleFrame\<close> does with a decoded message.\<close>

definition dispatch :: "hs_env \<Rightarrow> coap_message \<Rightarrow> session \<Rightarrow> unit act" where
  "dispatch env msg s =
     (if classify msg = Some ''Ping'' then
        (case encode (ping_ack msg) of
           Inl e \<Rightarrow> (s, [], Inl e)
         | Inr plain \<Rightarrow> sendPlain env plain s)
      else
        (case (if token msg = [] then None else map_of (pending s) (to_hex (token msg))) of
           Some rid \<Rightarrow>
             (s\<lparr>pending := AList.delete (to_hex (token msg)) (pending s),
                timers := AList.delete rid (timers s)\<rparr>, [ResolveReq rid msg], Inr ())
         | None \<Rightarrow> (s, [EmitMessage (classify msg) msg], Inr ())))"

definition handleFrame :: "hs_env \<Rightarrow> bytes \<Rightarrow> session \<Rightarrow> unit act" where
  "handleFrame env ciphertext s =
     (case with_keys (aesKey s) (ivIn s) (\<lambda>k v. aesDecrypt (env_D env) k v ciphertext) of
        Inl e \<Rightarrow>
          let (s', fx) = fail_session (Error (''AES decrypt failed: '' @ message e)) s
          in (s', fx, Inr ())
      | Inr plaintext \<Rightarrow>
          let s1 = s\<lparr>ivIn := Some (subarray ciphertext 0 16)\<rparr> in
          (case decode plaintext of
             Inl e \<Rightarrow> (s1, [EmitError (Error (''CoAP decode failed: '' @ message e))], Inr ())
           | Inr msg \<Rightarrow> dispatch env msg (s1\<lparr>recvCounter := messageId msg\<rparr>)))"

subsection \<open>The asynchronous method \<open>run\<close>\<close>

text \<open>The \<open>catch\<close> block, which ends the method.\<close>

definition run_catch :: "js_error \<Rightarrow> session \<Rightarrow> session \<times> effect list" where
  "run_catch e s =
     (let s1 = s\<lparr>task := Ended, hs_error := Some e\<rparr> in
      if st s1 \<noteq> Closed then fail_session e s1 else (s1, []))"

definition adopt :: "hs_result \<Rightarrow> session \<Rightarrow> session" where
  "adopt r s =
     s\<lparr>coreId := Some (r_coreId r), sessionKey := Some (r_sessionKey r), aesKey := Some (r_aesKey r), ivIn := Some (r_ivIn r),
       ivOut := Some (r_ivOut r), recvCounter := r_recvCounter r, sendCounter := r_sendCounter r,
       productId := r_productId r, firmwareVersion := r_firmwareVersion r,
       st := Connected, task := LoopCheck\<rparr>"

text \<open>After a segment of \<open>runHandshake\<close>: start what it awaits next, or take its outcome.\<close>

definition after_segment :: "hs_env \<Rightarrow> hs_state \<times> bytes list \<Rightarrow> session \<Rightarrow> session \<times> effect list" where
  "after_segment env seg s =
     (let hs = fst seg;
          out = map Write (snd seg);
          s1 = s\<lparr>task := InHandshake hs, hs_progress := Some (prog hs)\<rparr>
      in case pc hs of
           Finished r \<Rightarrow> (adopt r s1, out @ [EmitHandshake r])
         | Failed e \<Rightarrow> let (s2, fx) = run_catch e s1 in (s2, out @ fx)
         | AtReadCoreId \<Rightarrow> (read_queue CoreIdBytes 256 s1, out)
         | AtHello c k v \<Rightarrow> (read_queue FrameHead 3 s1, out)
         | _ \<Rightarrow> (s1, out @ (case awaited env (pc hs) of None \<Rightarrow> [] | Some req \<Rightarrow> [Ask req])))"

definition resume_handshake :: "hs_env \<Rightarrow> hs_state \<Rightarrow> hs_reply \<Rightarrow> session \<Rightarrow> session \<times> effect list" where
  "resume_handshake env hs reply s = after_segment env (hs_resume env hs reply) s"

text \<open>The loop body after \<open>readFrame\<close>; what \<open>_handleFrame\<close> throws is caught by \<open>run\<close>.\<close>

definition got_frame :: "hs_env \<Rightarrow> bytes \<Rightarrow> session \<Rightarrow> session \<times> effect list" where
  "got_frame env frame s =
     (let (s1, fx, r) = handleFrame env frame (s\<lparr>task := LoopCheck\<rparr>) in
      case r of
        Inr _ \<Rightarrow> (s1, fx)
      | Inl e \<Rightarrow> let (s2, fx') = run_catch e s1 in (s2, fx @ fx'))"

text \<open>A settled read of the queue resumes \<open>run\<close>.\<close>

fun resume_read :: "hs_env \<Rightarrow> reader settled \<Rightarrow> session \<Rightarrow> session \<times> effect list" where
  "resume_read env (Resolve FrameHead head) s = (read_queue FrameBody (header_len head) s, [])"
| "resume_read env (Resolve w b) s =
     (case task s of
        InHandshake hs \<Rightarrow> resume_handshake env hs (GotBytes b) s
      | AwaitFrame \<Rightarrow> got_frame env b s
      | _ \<Rightarrow> (s, []))"
| "resume_read env (Reject w e) s =
     (case task s of
        InHandshake hs \<Rightarrow> resume_handshake env hs (Rejected e) s
      | AwaitFrame \<Rightarrow> run_catch e s
      | _ \<Rightarrow> (s, []))"

definition loop_check :: "session \<Rightarrow> session" where
  "loop_check s =
     (if st s = Connected then read_queue FrameHead 3 (s\<lparr>task := AwaitFrame\<rparr>) else s\<lparr>task := Ended\<rparr>)"

definition micro :: "hs_env \<Rightarrow> session \<Rightarrow> session \<times> effect list" where
  "micro env s =
     (case woken s of
        r # rs \<Rightarrow> resume_read env r (s\<lparr>woken := rs\<rparr>)
      | [] \<Rightarrow> if task s = LoopCheck then (loop_check s, []) else (s, []))"

definition start_run :: "hs_env \<Rightarrow> session \<Rightarrow> session \<times> effect list" where
  "start_run env s = after_segment env (hs_start env) (s\<lparr>idle_armed := True, st := Handshaking\<rparr>)"

text \<open>A promise of the pool or of the key loader settles.\<close>

definition settle :: "hs_env \<Rightarrow> hs_reply \<Rightarrow> session \<Rightarrow> session \<times> effect list" where
  "settle env reply s =
     (case task s of
        InHandshake hs \<Rightarrow>
          (case pc hs of
             AtDecrypt ct \<Rightarrow> resume_handshake env hs reply s
           | AtCoreKey c der \<Rightarrow> resume_handshake env hs reply s
           | AtEncrypt c pem \<Rightarrow> resume_handshake env hs reply s
           | AtSign c ct \<Rightarrow> resume_handshake env hs reply s
           | _ \<Rightarrow> (s, []))
      | _ \<Rightarrow> (s, []))"

subsection \<open>One event\<close>

definition on_data :: "nat \<Rightarrow> bytes \<Rightarrow> session \<Rightarrow> session" where
  "on_data now chunk s = (let s1 = s\<lparr>lastHeard := now, idle_armed := True\<rparr> in wake s1 (push (inq s1) chunk))"

definition idle_timeout :: "session \<Rightarrow> session \<times> effect list" where
  "idle_timeout s =
     (if idle_armed s then fail_session (Error ''idle timeout'') (s\<lparr>idle_armed := False\<rparr>) else (s, []))"

definition call_send :: "hs_env \<Rightarrow> string \<Rightarrow> send_opts \<Rightarrow> session \<Rightarrow> session \<times> effect list" where
  "call_send env name opts s =
     (let (s1, fx, r) = send env name opts s in
      (s1, fx @ [case r of Inl e \<Rightarrow> Thrown e | Inr mid \<Rightarrow> Returned mid]))"

fun session_step :: "hs_env \<Rightarrow> session \<Rightarrow> event \<Rightarrow> session \<times> effect list" where
  "session_step env s CallRun = (if task s = NotRun then start_run env s else (s, []))"
| "session_step env s (Data now chunk) = (on_data now chunk s, [])"
| "session_step env s (SocketError e) = fail_session e s"
| "session_step env s SocketClosed = finalize s"
| "session_step env s IdleTimeout = idle_timeout s"
| "session_step env s (RequestTimeout rid) = request_timeout rid s"
| "session_step env s (Settle reply) = settle env reply s"
| "session_step env s Micro = micro env s"
| "session_step env s (CallSend name opts) = call_send env name opts s"
| "session_step env s (CallRequest name opts rnd) = request env name opts rnd s"
| "session_step env s CallDisconnect = disconnect s"

end
