(* ===== verification/Session_Life.thy ===== *)
theory Session_Life
  imports Session
begin

section \<open>The life of a session: opening, closing, and what a late handshake does\<close>

text \<open>
  How often \<open>close\<close> is emitted, over all sequences of events. A handler either keeps the session's
  state (\<open>keeps\<close>), or shuts it (\<open>shuts\<close>), or finishes the handshake; \<open>life_step\<close> is the common
  balance of the three, and adds up over runs.
\<close>

fun is_close :: "effect \<Rightarrow> bool" where
  "is_close EmitClose \<longleftrightarrow> True"
| "is_close _ \<longleftrightarrow> False"

fun is_handshake :: "effect \<Rightarrow> bool" where
  "is_handshake (EmitHandshake r) \<longleftrightarrow> True"
| "is_handshake _ \<longleftrightarrow> False"

definition closes :: "effect list \<Rightarrow> nat" where
  "closes fx = length (filter is_close fx)"

definition hands :: "effect list \<Rightarrow> nat" where
  "hands fx = length (filter is_handshake fx)"

text \<open>The number of \<open>handshake\<close> events that come after a \<open>close\<close>.\<close>

fun late :: "bool \<Rightarrow> effect list \<Rightarrow> nat" where
  "late c [] = 0"
| "late c (e # es) =
     (if is_close e then late True es
      else if is_handshake e \<and> c then Suc (late c es) else late c es)"

lemma counts_append [simp]:
  "closes (fx @ gx) = closes fx + closes gx" "hands (fx @ gx) = hands fx + hands gx"
  by (simp_all add: closes_def hands_def)

lemma counts_simps [simp]:
  "closes [] = 0" "hands [] = 0"
  "closes (e # fx) = of_bool (is_close e) + closes fx"
  "hands (e # fx) = of_bool (is_handshake e) + hands fx"
  by (simp_all add: closes_def hands_def)

lemma late_append: "late c (fx @ gx) = late c fx + late (c \<or> 0 < closes fx) gx"
  by (induction fx arbitrary: c) auto

lemma late_none: "hands fx = 0 \<Longrightarrow> late c fx = 0"
  by (induction fx arbitrary: c) (auto split: if_splits)

lemma counts_map [simp]:
  "(\<And>x. \<not> is_close (f x)) \<Longrightarrow> closes (map f xs) = 0"
  "(\<And>x. \<not> is_handshake (f x)) \<Longrightarrow> hands (map f xs) = 0"
  by (induction xs) simp_all

definition keeps :: "session \<Rightarrow> session \<times> effect list \<Rightarrow> bool" where
  "keeps s r \<longleftrightarrow>
     st (fst r) = st s \<and> task (fst r) = task s \<and> closes (snd r) = 0 \<and> hands (snd r) = 0"

definition shuts :: "session \<Rightarrow> session \<times> effect list \<Rightarrow> bool" where
  "shuts s r \<longleftrightarrow>
     st (fst r) = Closed \<and> task (fst r) = task s \<and> hands (snd r) = 0 \<and>
     closes (snd r) = of_bool (st s \<noteq> Closed)"

definition in_handshake :: "session \<Rightarrow> bool" where
  "in_handshake s \<longleftrightarrow> (case task s of InHandshake hs \<Rightarrow> True | _ \<Rightarrow> False)"

text \<open>The balance of one handler.\<close>

definition life_step :: "session \<Rightarrow> session \<times> effect list \<Rightarrow> bool" where
  "life_step s r \<longleftrightarrow>
     closes (snd r) + of_bool (st s = Closed) = of_bool (st (fst r) = Closed) + late (st s = Closed) (snd r) \<and>
     (hands (snd r) = 0 \<or> hands (snd r) = 1 \<and> closes (snd r) = 0 \<and> in_handshake s \<and> \<not> in_handshake (fst r)) \<and>
     (in_handshake (fst r) \<longrightarrow> in_handshake s) \<and> (task (fst r) = NotRun \<longrightarrow> task s = NotRun)"

lemma keeps_life: "keeps s r \<Longrightarrow> life_step s r"
  by (simp add: keeps_def life_step_def late_none in_handshake_def)

lemma shuts_life: "shuts s r \<Longrightarrow> life_step s r"
  by (simp add: shuts_def life_step_def late_none in_handshake_def)

subsection \<open>The handlers\<close>

lemma wake_simps [simp]:
  "st (wake s r) = st s" "task (wake s r) = task s" "pending (wake s r) = pending s"
  "timers (wake s r) = timers s" "next_req (wake s r) = next_req s" "aesKey (wake s r) = aesKey s"
  "ivIn (wake s r) = ivIn s" "ivOut (wake s r) = ivOut s"
  by (simp_all add: wake_def)

lemma read_queue_simps [simp]:
  "st (read_queue w n s) = st s" "task (read_queue w n s) = task s"
  "pending (read_queue w n s) = pending s" "timers (read_queue w n s) = timers s"
  "next_req (read_queue w n s) = next_req s" "aesKey (read_queue w n s) = aesKey s"
  "ivIn (read_queue w n s) = ivIn s" "ivOut (read_queue w n s) = ivOut s"
  by (simp_all add: read_queue_def)

lemma finalize_shuts: "shuts s (finalize s)"
  by (simp add: shuts_def finalize_def Let_def split_beta)

lemma disconnect_shuts: "shuts s (disconnect s)"
  using finalize_shuts [of s] by (auto simp: shuts_def disconnect_def split_beta)

lemma fail_shuts: "shuts s (fail_session e s)"
  using disconnect_shuts [of s] by (simp add: shuts_def fail_session_def split_beta)

text \<open>Handlers of the third kind give a session, effects, and a result or an exception.\<close>

abbreviation act_effects :: "'a act \<Rightarrow> session \<times> effect list" where
  "act_effects r \<equiv> (fst r, fst (snd r))"

lemma sendPlain_keeps: "keeps s (act_effects (sendPlain env plain s))"
  by (simp add: keeps_def sendPlain_def Let_def split: sum.split)

lemma alloc_id_simps [simp]:
  "st (snd (alloc_id opts s)) = st s" "task (snd (alloc_id opts s)) = task s"
  "timers (snd (alloc_id opts s)) = timers s" "pending (snd (alloc_id opts s)) = pending s"
  "next_req (snd (alloc_id opts s)) = next_req s" "aesKey (snd (alloc_id opts s)) = aesKey s"
  "ivIn (snd (alloc_id opts s)) = ivIn s" "ivOut (snd (alloc_id opts s)) = ivOut s"
  "inq (snd (alloc_id opts s)) = inq s" "woken (snd (alloc_id opts s)) = woken s"
  by (simp_all add: alloc_id_def split: option.split)

lemma send_keeps: "keeps s (act_effects (send env name opts s))"
  using sendPlain_keeps [of "snd (alloc_id opts s)" env]
  by (simp add: keeps_def send_def split_beta split: option.split sum.split)

lemma call_send_keeps: "keeps s (call_send env name opts s)"
  using send_keeps [of s env name opts]
  by (simp add: keeps_def call_send_def split_beta split: sum.split)

lemma request_keeps: "keeps s (request env name opts rnd s)"
  using send_keeps
  by (simp add: keeps_def request_def Let_def split_beta split: sum.split)

lemma timeout_keeps: "keeps s (request_timeout rid s)"
  by (simp add: keeps_def request_timeout_def split: option.split prod.split)

lemma dispatch_keeps: "keeps s (act_effects (dispatch env msg s))"
  using sendPlain_keeps [of s env]
  by (simp add: keeps_def dispatch_def split: sum.split option.split)

lemma handleFrame_life:
  "keeps s (act_effects (handleFrame env ct s)) \<or> shuts s (act_effects (handleFrame env ct s))"
  using dispatch_keeps [of "_\<lparr>recvCounter := _\<rparr>" env] fail_shuts
  by (simp add: handleFrame_def Let_def split_beta keeps_def shuts_def split: sum.split)

lemma handleFrame_throws:
  "snd (snd (handleFrame env ct s)) = Inl e \<Longrightarrow> keeps s (act_effects (handleFrame env ct s))"
  using dispatch_keeps [of "_\<lparr>recvCounter := _\<rparr>" env]
  by (auto simp: handleFrame_def Let_def split_beta keeps_def split: sum.splits)

lemma run_catch_shuts: "task s \<noteq> NotRun \<Longrightarrow> life_step s (run_catch e s)"
  using fail_shuts [of "s\<lparr>task := Ended, hs_error := Some e\<rparr>" e]
  by (auto simp: run_catch_def Let_def life_step_def shuts_def late_none in_handshake_def)

lemma hands_Write [simp]: "hands (map Write ws) = 0" "closes (map Write ws) = 0"
  by simp_all

lemma after_segment_life:
  assumes "in_handshake s"
  shows "life_step s (after_segment env seg s)"
proof -
  let ?s1 = "s\<lparr>task := InHandshake (fst seg), hs_progress := Some (prog (fst seg))\<rparr>"
  note eval = after_segment_def Let_def life_step_def in_handshake_def late_none late_append
  show ?thesis
  proof (cases "pc (fst seg)")
    case (Failed e)
    have "life_step ?s1 (run_catch e ?s1)" by (rule run_catch_shuts) simp
    then show ?thesis using assms Failed by (auto simp: eval split_beta split: task.splits)
  qed (use assms in \<open>auto simp: eval adopt_def split: task.splits\<close>)
qed

lemma resume_life: "in_handshake s \<Longrightarrow> life_step s (resume_handshake env hs reply s)"
  by (simp add: resume_handshake_def after_segment_life)

lemma read_queue_life: "life_step s (read_queue w n s, [])"
  by (rule keeps_life) (simp add: keeps_def)

lemma got_frame_life:
  assumes "task s = AwaitFrame"
  shows "life_step s (got_frame env ct s)"
proof -
  let ?s0 = "s\<lparr>task := LoopCheck\<rparr>"
  let ?r = "handleFrame env ct ?s0"
  show ?thesis
  proof (cases "snd (snd ?r)")
    case (Inr u)
    then show ?thesis
      using handleFrame_life [of ?s0 env ct] assms
      by (auto simp: got_frame_def split_beta keeps_def shuts_def life_step_def late_none in_handshake_def)
  next
    case (Inl e)
    then have k: "keeps ?s0 (act_effects ?r)"
      using handleFrame_throws by blast
    have "life_step (fst ?r) (run_catch e (fst ?r))"
      by (rule run_catch_shuts) (use k in \<open>simp add: keeps_def\<close>)
    then show ?thesis using Inl k assms
      by (auto simp: got_frame_def split_beta keeps_def life_step_def late_append late_none in_handshake_def)
  qed
qed

lemma skip_life: "life_step s (s, [])"
  by (rule keeps_life) (simp add: keeps_def)

lemma settled_read_life:
  assumes "\<And>hs. task s = InHandshake hs \<Longrightarrow> life_step s (f hs)" and "task s = AwaitFrame \<Longrightarrow> life_step s g"
  shows "life_step s (case task s of InHandshake hs \<Rightarrow> f hs | AwaitFrame \<Rightarrow> g | _ \<Rightarrow> (s, []))"
  using assms skip_life by (auto split: task.split)

lemma in_handshakeI: "task s = InHandshake hs \<Longrightarrow> in_handshake s"
  by (simp add: in_handshake_def)

lemma resume_read_life: "life_step s (resume_read env r s)"
  by (cases "(env, r, s)" rule: resume_read.cases)
     (auto intro!: read_queue_life settled_read_life resume_life got_frame_life run_catch_shuts
        intro: in_handshakeI)

lemma micro_life: "life_step s (micro env s)"
proof (cases "woken s")
  case Nil
  then show ?thesis
    by (simp add: micro_def loop_check_def life_step_def in_handshake_def late_none)
next
  case (Cons r rs)
  with resume_read_life [of "s\<lparr>woken := rs\<rparr>" env r] show ?thesis
    by (simp add: micro_def life_step_def in_handshake_def)
qed

lemma settle_life: "life_step s (settle env reply s)"
  using resume_life [OF in_handshakeI] skip_life
  by (simp add: settle_def split: task.split hs_pc.split)

lemma idle_life: "life_step s (idle_timeout s)"
proof (cases "idle_armed s")
  case True
  have "shuts s (fail_session (Error ''idle timeout'') (s\<lparr>idle_armed := False\<rparr>))"
    using fail_shuts [of "s\<lparr>idle_armed := False\<rparr>"] by (simp add: shuts_def)
  with True show ?thesis by (simp add: idle_timeout_def shuts_life)
qed (simp add: idle_timeout_def skip_life)

lemma on_data_keeps: "keeps s (on_data now chunk s, [])"
  by (simp add: on_data_def Let_def keeps_def)

lemmas handler_life =
  keeps_life [OF on_data_keeps] keeps_life [OF call_send_keeps] keeps_life [OF request_keeps]
  keeps_life [OF timeout_keeps] shuts_life [OF finalize_shuts] shuts_life [OF disconnect_shuts]
  shuts_life [OF fail_shuts] idle_life micro_life settle_life

lemma step_life: "task s \<noteq> NotRun \<Longrightarrow> life_step s (session_step env s e)"
  by (cases e) (simp_all only: session_step.simps handler_life if_False skip_life)

subsection \<open>Runs\<close>

lemma run_life:
  assumes "task s \<noteq> NotRun" and "in_handshake s \<longrightarrow> (c \<longleftrightarrow> st s = Closed)"
  shows "closes (snd (run (session_step env) s es)) + of_bool (st s = Closed) =
           of_bool (st (fst (run (session_step env) s es)) = Closed) +
           late c (snd (run (session_step env) s es)) \<and>
         hands (snd (run (session_step env) s es)) \<le> of_bool (in_handshake s)"
  using assms
proof (induction es arbitrary: s c)
  case (Cons e es)
  let ?r = "session_step env s e"
  let ?c = "c \<or> 0 < closes (snd ?r)"
  have l: "life_step s ?r" by (rule step_life [OF Cons.prems(1)])
  then have same: "late c (snd ?r) = late (st s = Closed) (snd ?r)"
    using Cons.prems(2) by (auto simp: life_step_def late_none)
  have "in_handshake (fst ?r) \<longrightarrow> (?c \<longleftrightarrow> st (fst ?r) = Closed)"
    using l Cons.prems(2) by (auto simp: life_step_def late_none of_bool_def split: if_splits)
  moreover have "task (fst ?r) \<noteq> NotRun" using l Cons.prems(1) by (auto simp: life_step_def)
  ultimately have ih: "closes (snd (run (session_step env) (fst ?r) es)) + of_bool (st (fst ?r) = Closed) =
        of_bool (st (fst (run (session_step env) (fst ?r) es)) = Closed) +
        late ?c (snd (run (session_step env) (fst ?r) es))"
    "hands (snd (run (session_step env) (fst ?r) es)) \<le> of_bool (in_handshake (fst ?r))"
    using Cons.IH [of "fst ?r" ?c] by simp_all
  from ih(2) have "hands (snd (run (session_step env) (fst ?r) es)) \<le> 1"
    by (rule order_trans) simp
  with ih l same show ?case by (auto simp: run_Cons late_append life_step_def)
qed simp

lemma start_run_eq:
  "start_run env s = (read_queue CoreIdBytes 256
      (s\<lparr>idle_armed := True, st := Handshaking,
         task := InHandshake (fst (hs_start env)), hs_progress := Some (prog (fst (hs_start env)))\<rparr>),
      [Write (env_nonce env)])"
  by (simp add: start_run_def after_segment_def hs_start_def)

text \<open>C20. \<open>close\<close> events and the state agree, for every sequence of events after \<open>run()\<close>: \<open>close\<close>
  has been emitted once if the session is closed and not at all if it is not, except that each
  handshake which completes although the session had been closed adds one; and that happens at
  most once. So \<open>close\<close> is emitted exactly once unless a handshake outlives its session.
\<close>

theorem session_close_count:
  "closes (snd (run (session_step env) (new_session now) (CallRun # es))) =
     of_bool (st (fst (run (session_step env) (new_session now) (CallRun # es))) = Closed) +
     late False (snd (run (session_step env) (new_session now) (CallRun # es))) \<and>
   late False (snd (run (session_step env) (new_session now) (CallRun # es))) \<le> 1"
proof -
  define s where "s = fst (start_run env (new_session now))"
  have r: "run (session_step env) (new_session now) (CallRun # es) =
      (fst (run (session_step env) s es), Write (env_nonce env) # snd (run (session_step env) s es))"
    by (simp add: run_Cons s_def start_run_eq new_session_def)
  have s: "st s = Handshaking" "in_handshake s" "task s \<noteq> NotRun"
    by (simp_all add: s_def start_run_eq in_handshake_def)
  have "late c fx \<le> hands fx" for c fx by (induction fx arbitrary: c) (auto intro: le_SucI)
  then have "late False (snd (run (session_step env) s es)) \<le> hands (snd (run (session_step env) s es))" .
  with run_life [of s False env es] s show ?thesis by (simp add: r)
qed

lemmas step_eval =
  run_Cons start_run_eq new_session_def on_data_def wake_def read_queue_def read_def push_def
  drain_def new_byte_queue_def hs_start_def micro_def resume_handshake_def hs_resume.simps
  after_segment_def finalize_def close_def split_beta Let_def


lemma late_start:
  assumes "length blob = 256" and "length head = 3"
  shows "\<exists>s. run (session_step env) (new_session now)
            [CallRun, Data t (blob @ head @ frame), Micro, SocketClosed] =
           (s, [Write (env_nonce env), Ask (PoolDecrypt (env_serverPriv env) blob), EmitClose]) \<and>
         task s = InHandshake \<lparr>pc = AtDecrypt blob, prog = \<lparr>p_stage = READ_COREID, p_coreId = None\<rparr>\<rparr> \<and>
         st s = Closed \<and> woken s = [] \<and>
         inq s = \<lparr>q_buf = head @ frame, q_waiters = [], q_closed = True\<rparr>"
  using assms by (simp add: step_eval)


lemma settle_chain:
  assumes "task s = InHandshake \<lparr>pc = AtDecrypt blob, prog = \<lparr>p_stage = READ_COREID, p_coreId = None\<rparr>\<rparr>"
    and "identify env pt = Inr c" and "pem \<noteq> []" and "deriveAesParams (env_sessionKey env) = Inr p"
  shows "\<exists>asks. closes asks = 0 \<and> hands asks = 0 \<and>
     run (session_step env) s [Settle (GotBytes pt), Settle (GotKey (Some pem)), Settle (GotBytes ct),
          Settle (GotBytes sig)] =
       (let hs = \<lparr>pc = AtHello c (ap_key p) (ap_iv p), prog = \<lparr>p_stage = GET_HELLO, p_coreId = Some c\<rparr>\<rparr> in
        read_queue FrameHead 3 (s\<lparr>task := InHandshake hs, hs_progress := Some (prog hs)\<rparr>), asks)"
proof -
  from assms(2) have "\<not> length pt < 52" "take 40 pt = env_nonce env"
    "c = to_hex (take 12 (drop 40 pt))" by (auto simp: identify_def split: if_splits)
  with assms(1,3,4) show ?thesis
    by (simp add: run_Cons settle_def resume_handshake_def after_segment_def hs_resume.simps
        after_decrypt_def after_core_key_def after_sign_def set_stage_def subarray_def
        NONCE_BYTES_def ID_BYTES_def Let_def)
qed

lemma late_end:
  assumes "task s = InHandshake hs" and "pc hs = AtHello c k v" and "st s = Closed" and "woken s = []"
    and "inq s = \<lparr>q_buf = head @ frame, q_waiters = [], q_closed = True\<rparr>"
    and "length head = 3" and "header_len head = length frame"
    and "hs_resume env hs (GotBytes frame) = (hs', [w])" and "pc hs' = Finished r"
  shows "closes (snd (run (session_step env) (read_queue FrameHead 3 s) [Micro, Micro, Micro, Micro])) = 1 \<and>
         hands (snd (run (session_step env) (read_queue FrameHead 3 s) [Micro, Micro, Micro, Micro])) = 1"
proof -
  let ?s1 = "s\<lparr>inq := \<lparr>q_buf = frame, q_waiters = [], q_closed = True\<rparr>, woken := [Resolve FrameHead head]\<rparr>"
  let ?s2 = "s\<lparr>inq := \<lparr>q_buf = [], q_waiters = [], q_closed = True\<rparr>, woken := [Resolve FrameBody frame]\<rparr>"
  let ?q = "\<lparr>q_buf = [], q_waiters = [], q_closed = True\<rparr> :: reader byte_queue"
  let ?s3 = "adopt r (s\<lparr>inq := ?q, woken := [], task := InHandshake hs', hs_progress := Some (prog hs')\<rparr>)"
  let ?s4 = "?s3\<lparr>task := AwaitFrame, woken := [Reject FrameHead socket_closed]\<rparr>"
  have s: "read_queue FrameHead 3 s = ?s1"
    using assms by (simp add: read_queue_def wake_def read_def drain_def)
  have 1: "micro env ?s1 = (?s2, [])"
    using assms by (simp add: micro_def read_queue_def wake_def read_def drain_def)
  have 2: "micro env ?s2 = (?s3, [Write w, EmitHandshake r])"
    using assms by (simp add: micro_def resume_handshake_def after_segment_def)
  have 3: "micro env ?s3 = (?s4, [])"
    using assms by (simp add: micro_def adopt_def loop_check_def read_queue_def wake_def read_def drain_def)
  have 4: "closes (snd (micro env ?s4)) = 1" "hands (snd (micro env ?s4)) = 0"
    by (simp_all add: micro_def adopt_def run_catch_def fail_session_def disconnect_def finalize_def
        split_beta Let_def)
  show ?thesis unfolding s by (simp add: run_Cons 1 2 3 4)
qed

text \<open>C37. A handshake outlives its session: nothing stops \<open>run()\<close> when the session is closed while the
  handshake awaits the crypto pool or the key loader. If the bytes of a Hello are already buffered
  behind the identity blob and the handshake would succeed on them, then, after the socket has
  closed and \<open>close\<close> has been emitted, the session becomes \<open>connected\<close> again, emits \<open>handshake\<close>,
  and then \<open>close\<close> a second time, although \<open>close\<close> is documented to be emitted exactly once.
\<close>

theorem session_closes_twice:
  assumes "pc (fst (runHandshake env w)) = Finished r"
    and "w_coreId_blob w = Inr blob" and "length blob = 256"
    and "w_plaintext w = Inr pt" and "w_corePubPem w = Inr (Some pem)"
    and "w_sessionCiphertext w = Inr ct" and "w_signature w = Inr sig"
    and "w_helloFrame w = Inr frame" and "length head = 3" and "header_len head = length frame"
  shows "\<exists>fx. snd (run (session_step env) (new_session now)
      [CallRun, Data t (blob @ head @ frame), Micro, SocketClosed,
       Settle (GotBytes pt), Settle (GotKey (Some pem)), Settle (GotBytes ct), Settle (GotBytes sig),
       Micro, Micro, Micro, Micro]) = fx \<and> closes fx = 2 \<and> hands fx = 1"
proof -
  from assms(1) have "straight_line env w = Inr r" by (simp add: finished_straight)
  then obtain p hp m hct hw where *:
    "identify env pt = Inr (r_coreId r)" "pem \<noteq> []" "deriveAesParams (env_sessionKey env) = Inr p"
    "aesDecrypt (env_D env) (ap_key p) (ap_iv p) frame = Inr hp" "decode hp = Inr m"
    "hello_out env (ap_key p) (ap_iv p) = Inr (hct, hw)"
    by (rule straight_line_success) (use assms in auto)
  let ?hs = "\<lparr>pc = AtHello (r_coreId r) (ap_key p) (ap_iv p),
              prog = \<lparr>p_stage = GET_HELLO, p_coreId = Some (r_coreId r)\<rparr>\<rparr>"
  obtain s1 where s1: "run (session_step env) (new_session now)
         [CallRun, Data t (blob @ head @ frame), Micro, SocketClosed] =
       (s1, [Write (env_nonce env), Ask (PoolDecrypt (env_serverPriv env) blob), EmitClose])"
    and t1: "task s1 = InHandshake \<lparr>pc = AtDecrypt blob, prog = \<lparr>p_stage = READ_COREID, p_coreId = None\<rparr>\<rparr>"
      "st s1 = Closed" "woken s1 = []" "inq s1 = \<lparr>q_buf = head @ frame, q_waiters = [], q_closed = True\<rparr>"
    using late_start [OF assms(3,9)] by blast
  let ?s2 = "s1\<lparr>task := InHandshake ?hs, hs_progress := Some (prog ?hs)\<rparr>"
  obtain asks where s2: "closes asks = 0" "hands asks = 0"
    "run (session_step env) s1 [Settle (GotBytes pt), Settle (GotKey (Some pem)), Settle (GotBytes ct),
          Settle (GotBytes sig)] = (read_queue FrameHead 3 ?s2, asks)"
    using settle_chain [OF t1(1) *(1-3)] by (auto simp: Let_def)
  have hello: "\<exists>hs' r'. hs_resume env ?hs (GotBytes frame) = (hs', [hw]) \<and> pc hs' = Finished r'"
    using * by (simp add: hs_resume.simps after_hello_def send_hello_def Let_def hello_out_def [symmetric])
  then obtain hs' r' where "hs_resume env ?hs (GotBytes frame) = (hs', [hw])" "pc hs' = Finished r'" by blast
  from late_end [of ?s2 ?hs _ _ _ head frame env, OF _ _ _ _ _ assms(9,10) this] t1
  have s3: "closes (snd (run (session_step env) (read_queue FrameHead 3 ?s2) [Micro, Micro, Micro, Micro])) = 1"
    "hands (snd (run (session_step env) (read_queue FrameHead 3 ?s2) [Micro, Micro, Micro, Micro])) = 1"
    by simp_all
  let ?es1 = "[CallRun, Data t (blob @ head @ frame), Micro, SocketClosed]"
  let ?es2 = "[Settle (GotBytes pt), Settle (GotKey (Some pem)), Settle (GotBytes ct), Settle (GotBytes sig)]"
  let ?es3 = "[Micro, Micro, Micro, Micro]"
  have "snd (run (session_step env) (new_session now) (?es1 @ ?es2 @ ?es3)) =
      [Write (env_nonce env), Ask (PoolDecrypt (env_serverPriv env) blob), EmitClose] @ asks @
      snd (run (session_step env) (read_queue FrameHead 3 ?s2) ?es3)"
    by (simp only: run_append s1 s2(3) fst_conv snd_conv append.assoc)
  with s2(1,2) s3 show ?thesis by simp
qed


text \<open>The toy handshake, against a session whose socket closes while the pool decrypts.\<close>

theorem session_closes_twice_witness:
  "\<exists>es. closes (snd (run (session_step toy_env) (new_session 0) (CallRun # es))) = 2"
proof -
  let ?frame = "[0x50, 2, 0xAB, 0xCD, 0xB1, 0x68, 0xFF, 0, 5, 0, 3, 5, 5, 5, 5, 5] :: bytes"
  let ?blob = "replicate 256 0 :: bytes"
  let ?w = "toy_world\<lparr>w_coreId_blob := Inr ?blob\<rparr>"
  have "straight_line toy_env ?w = straight_line toy_env toy_world"
    by (simp add: straight_line_def toy_world_def)
  with toy_finishes obtain r where r: "pc (fst (runHandshake toy_env ?w)) = Finished r"
    by (auto simp: finished_straight)
  have w: "w_coreId_blob ?w = Inr ?blob" "length ?blob = 256"
    "w_plaintext ?w = Inr (replicate 40 1 @ replicate 12 0xAB)" "w_corePubPem ?w = Inr (Some ''DEVICE PEM'')"
    "w_sessionCiphertext ?w = Inr [3]" "w_signature ?w = Inr [4]" "w_helloFrame ?w = Inr ?frame"
    "length [0 :: byte, 16, 0xFF] = 3" "header_len [0, 16, 0xFF] = length ?frame"
    by (simp_all add: toy_world_def header_len_def)
  show ?thesis using session_closes_twice [OF r w, of 0 1] by blast
qed

end
