(* ===== verification/Session_Requests.thy ===== *)
theory Session_Requests
  imports Session_Life "HOL-Library.Multiset"
begin

section \<open>Requests and their answers (\<open>request\<close>, its timer, \<open>_handleFrame\<close>, \<open>_finalize\<close>)\<close>

text \<open>
  Every call of \<open>request\<close> returns a promise, numbered by \<open>next_req\<close>. This theory follows the
  promises: \<open>settlements\<close> are the numbers settled by a list of effects, and \<open>books\<close> is the
  invariant that ties them to the armed timers and the pending map.
\<close>

fun settles :: "effect \<Rightarrow> nat list" where
  "settles (ResolveReq rid m) = [rid]"
| "settles (RejectReq rid e) = [rid]"
| "settles _ = []"

definition settlements :: "effect list \<Rightarrow> nat list" where
  "settlements fx = concat (map settles fx)"

lemma settlements_simps [simp]:
  "settlements [] = []" "settlements (e # fx) = settles e @ settlements fx"
  "settlements (fx @ gx) = settlements fx @ settlements gx"
  by (simp_all add: settlements_def)

lemma settlements_Write [simp]: "settlements (map Write ws) = []"
  by (induction ws) simp_all

lemma settlements_rejects: "settlements (map (\<lambda>(key, rid). RejectReq rid e) ps) = map snd ps"
  by (induction ps) auto

text \<open>
  The invariant. Timers have distinct, already issued numbers; tokens are distinct; every pending
  entry has its timer armed, and that timer would delete this very entry; and there are pending
  entries only while connected.
\<close>

definition books :: "session \<Rightarrow> bool" where
  "books s \<longleftrightarrow>
     distinct (map fst (timers s)) \<and> (\<forall>rid\<in>fst ` set (timers s). rid < next_req s) \<and>
     distinct (map fst (pending s)) \<and> distinct (map snd (pending s)) \<and>
     (\<forall>(key, rid)\<in>set (pending s). \<exists>name ms. map_of (timers s) rid = Some (key, name, ms)) \<and>
     (st s \<noteq> Connected \<longrightarrow> pending s = [])"

text \<open>The balance of a handler: promises issued are promises settled or timers armed.\<close>

definition balanced :: "session \<Rightarrow> session \<times> effect list \<Rightarrow> bool" where
  "balanced s r \<longleftrightarrow>
     next_req s \<le> next_req (fst r) \<and>
     mset (settlements (snd r)) + mset (map fst (timers (fst r))) =
       mset (map fst (timers s)) + mset [next_req s ..< next_req (fst r)]"

definition accounts :: "session \<Rightarrow> session \<times> effect list \<Rightarrow> bool" where
  "accounts s r \<longleftrightarrow> (books s \<longrightarrow> books (fst r) \<and> balanced s r)"

lemma accounts_same:
  assumes "timers (fst r) = timers s" and "pending (fst r) = pending s" and "next_req (fst r) = next_req s"
    and "st (fst r) = st s \<or> st (fst r) = Connected \<or> pending s = []" and "settlements (snd r) = []"
  shows "accounts s r"
  using assms by (auto simp: accounts_def books_def balanced_def)

lemma accounts_trans:
  assumes "accounts s (s1, fx)" and "accounts s1 (s2, gx)"
  shows "accounts s (s2, fx @ gx)"
  unfolding accounts_def
proof
  assume "books s"
  with assms have b: "books s2" "balanced s (s1, fx)" "balanced s1 (s2, gx)"
    by (simp_all add: accounts_def)
  then have "[next_req s ..< next_req s2] = [next_req s ..< next_req s1] @ [next_req s1 ..< next_req s2]"
    unfolding balanced_def by (metis fst_conv le_Suc_ex upt_add_eq_append)
  then have i: "mset [next_req s ..< next_req s2] = mset [next_req s ..< next_req s1] + mset [next_req s1 ..< next_req s2]"
    by simp
  have "balanced s (s2, fx @ gx)"
    using b(2,3) unfolding balanced_def fst_conv snd_conv settlements_simps mset_append i
    by (metis (no_types, lifting) add.assoc add.left_commute le_trans)
  with b(1) show "books (fst (s2, fx @ gx)) \<and> balanced s (s2, fx @ gx)" by simp
qed

subsection \<open>Deleting from the timers\<close>

lemma delete_filter: "AList.delete k xs = filter (\<lambda>x. fst x \<noteq> k) xs"
  by (induction xs) auto

lemma mset_delete:
  assumes "distinct (map fst xs)" and "k \<in> fst ` set xs"
  shows "add_mset k (mset (map fst (AList.delete k xs))) = mset (map fst xs)"
  using assms
proof (induction xs)
  case (Cons x xs)
  show ?case
  proof (cases "fst x = k")
    case True
    with Cons.prems have "k \<notin> fst ` set xs" by auto
    then have "filter (\<lambda>x. fst x \<noteq> k) xs = xs" by (metis (mono_tags, lifting) filter_True imageI)
    with True show ?thesis by (simp add: delete_filter)
  next
    case False
    with Cons show ?thesis by (auto simp: delete_filter)
  qed
qed simp

lemma fold_delete_keys:
  "map fst (fold (\<lambda>(key, rid). AList.delete rid) ps xs) = filter (\<lambda>k. k \<notin> snd ` set ps) (map fst xs)"
proof (induction ps arbitrary: xs)
  case (Cons p ps)
  obtain key rid where "p = (key, rid)" by (cases p)
  then show ?case using Cons.IH [of "AList.delete rid xs"]
    by (auto simp: delete_filter filter_map comp_def intro: filter_cong)
qed simp

subsection \<open>Adding an entry\<close>

lemma update_fresh: "k \<notin> fst ` set xs \<Longrightarrow> AList.update k v xs = xs @ [(k, v)]"
  by (induction xs) auto

lemma update_entries:
  "distinct (map fst xs) \<Longrightarrow> set (AList.update k v xs) = insert (k, v) {x \<in> set xs. fst x \<noteq> k}"
proof (induction xs)
  case (Cons x xs)
  then show ?case by (cases x) force
qed simp

lemma distinct_update_values:
  "distinct (map snd xs) \<Longrightarrow> v \<notin> snd ` set xs \<Longrightarrow> distinct (map snd (AList.update k v xs))"
proof (induction xs)
  case (Cons x xs)
  have "snd ` set (AList.update k v xs) \<subseteq> insert v (snd ` set xs)"
    by (induction xs) auto
  with Cons show ?case by (cases x) auto
qed simp

subsection \<open>The handlers\<close>

lemma booksD:
  assumes "books s"
  shows "distinct (map fst (timers s))" "distinct (map fst (pending s))" "distinct (map snd (pending s))"
    "\<And>rid. rid \<in> fst ` set (timers s) \<Longrightarrow> rid < next_req s"
    "\<And>key rid. (key, rid) \<in> set (pending s) \<Longrightarrow> \<exists>name ms. map_of (timers s) rid = Some (key, name, ms)"
    "st s \<noteq> Connected \<Longrightarrow> pending s = []"
  using assms unfolding books_def by (simp, simp, simp, blast, blast, simp)

text \<open>Removing one pending entry together with its timer.\<close>

lemma remove_entry:
  assumes "books s" and "map_of (timers s) rid = Some (key, name, ms)"
    and "timers s' = AList.delete rid (timers s)" and "pending s' = AList.delete key (pending s)"
    and "next_req s' = next_req s" and "st s' = st s"
  shows "books s'"
    and "add_mset rid (mset (map fst (timers s'))) = mset (map fst (timers s))"
proof -
  note b = booksD [OF assms(1)]
  have "rid \<in> fst ` set (timers s)" using assms(2) by (force dest: map_of_SomeD)
  with b(1) show "add_mset rid (mset (map fst (timers s'))) = mset (map fst (timers s))"
    unfolding assms(3) by (rule mset_delete)
  have "\<exists>name ms. map_of (timers s') r = Some (k, name, ms)" if "(k, r) \<in> set (pending s')" for k r
  proof -
    from that have k: "(k, r) \<in> set (pending s)" "k \<noteq> key" by (auto simp: assms(4) delete_filter)
    with b(5) obtain n m where "map_of (timers s) r = Some (k, n, m)" by blast
    moreover from this assms(2) k(2) have "r \<noteq> rid" by auto
    ultimately show ?thesis by (simp add: assms(3) delete_conv)
  qed
  moreover have "distinct (map fst (timers s'))" "distinct (map fst (pending s'))"
    "distinct (map snd (pending s'))"
    using b(1-3) by (simp_all add: assms(3,4) delete_filter distinct_map_filter)
  ultimately show "books s'"
    using b(4,6) assms(5,6) unfolding books_def by (auto simp: assms(3,4) delete_filter)
qed

lemma finalize_accounts: "accounts s (finalize s)"
proof (cases "st s = Closed")
  case True
  then show ?thesis by (simp add: finalize_def accounts_same)
next
  case False
  show ?thesis unfolding accounts_def
  proof
    assume "books s"
    note b = booksD [OF this]
    let ?s' = "fst (finalize s)"
    have t: "map fst (timers ?s') = filter (\<lambda>k. k \<notin> snd ` set (pending s)) (map fst (timers s))"
      using False by (simp add: finalize_def Let_def fold_delete_keys)
    have p: "pending ?s' = []" "next_req ?s' = next_req s" "st ?s' = Closed"
      using False by (simp_all add: finalize_def Let_def)
    have "snd ` set (pending s) \<subseteq> fst ` set (timers s)"
      using b(5) by (force dest: map_of_SomeD)
    then have "set (map snd (pending s)) = set (filter (\<lambda>k. k \<in> snd ` set (pending s)) (map fst (timers s)))"
      by auto
    then have "mset (map snd (pending s)) = mset (filter (\<lambda>k. k \<in> snd ` set (pending s)) (map fst (timers s)))"
      using b(1,3) by (subst set_eq_iff_mset_eq_distinct [symmetric]) simp_all
    then have "mset (settlements (snd (finalize s))) + mset (map fst (timers ?s')) = mset (map fst (timers s))"
      using False unfolding t
      by (simp add: finalize_def Let_def settlements_rejects multiset_partition [symmetric])
    moreover have "distinct (map fst (timers ?s'))" "fst ` set (timers ?s') \<subseteq> fst ` set (timers s)"
      using b(1) t by (simp, metis (no_types) filter_is_subset set_map)
    ultimately show "books ?s' \<and> balanced s (finalize s)"
      using b(4) p by (auto simp: books_def balanced_def)
  qed
qed

lemma disconnect_accounts: "accounts s (disconnect s)"
  using finalize_accounts [of s]
  by (auto simp: disconnect_def accounts_def balanced_def split_beta)

lemma fail_accounts: "accounts s (fail_session e s)"
  using disconnect_accounts [of s]
  by (auto simp: fail_session_def accounts_def balanced_def split_beta)

text \<open>Sending touches neither the timers nor the pending map.\<close>

definition plainly :: "session \<Rightarrow> session \<times> effect list \<Rightarrow> bool" where
  "plainly s r \<longleftrightarrow> timers (fst r) = timers s \<and> pending (fst r) = pending s \<and>
     next_req (fst r) = next_req s \<and> st (fst r) = st s \<and> settlements (snd r) = []"

lemma plainly_accounts: "plainly s r \<Longrightarrow> accounts s r"
  by (simp add: plainly_def accounts_same)

lemma sendPlain_plainly: "plainly s (act_effects (sendPlain env plain s))"
  by (simp add: plainly_def sendPlain_def Let_def split: sum.split)

lemma send_plainly: "plainly s (act_effects (send env name opts s))"
  using sendPlain_plainly [of "snd (alloc_id opts s)" env]
  by (simp add: plainly_def send_def split_beta split: option.split sum.split)

lemma call_send_plainly: "plainly s (call_send env name opts s)"
  using send_plainly [of s env name opts]
  by (simp add: plainly_def call_send_def split_beta split: sum.split)

lemma timeout_accounts: "accounts s (request_timeout rid s)"
proof (cases "map_of (timers s) rid")
  case None
  then show ?thesis by (simp add: request_timeout_def accounts_same)
next
  case (Some x)
  obtain key name ms where x: "x = (key, name, ms)" by (cases x)
  let ?s' = "s\<lparr>timers := AList.delete rid (timers s), pending := AList.delete key (pending s)\<rparr>"
  show ?thesis
    using remove_entry [of s rid key name ms ?s'] Some
    by (auto simp: request_timeout_def x accounts_def balanced_def)
qed

lemma dispatch_accounts: "accounts s (act_effects (dispatch env msg s))"
proof (cases "classify msg \<noteq> Some ''Ping'' \<and> token msg \<noteq> [] \<and> map_of (pending s) (to_hex (token msg)) \<noteq> None")
  case True
  then obtain rid where rid: "map_of (pending s) (to_hex (token msg)) = Some rid" by blast
  show ?thesis unfolding accounts_def
  proof
    assume b: "books s"
    from rid have "(to_hex (token msg), rid) \<in> set (pending s)" by (rule map_of_SomeD)
    with booksD(5) [OF b] obtain n m where "map_of (timers s) rid = Some (to_hex (token msg), n, m)" by blast
    from remove_entry [OF b this, of "s\<lparr>pending := AList.delete (to_hex (token msg)) (pending s),
        timers := AList.delete rid (timers s)\<rparr>"] True rid
    show "books (fst (act_effects (dispatch env msg s))) \<and> balanced s (act_effects (dispatch env msg s))"
      by (simp add: dispatch_def balanced_def)
  qed
next
  case False
  then have "plainly s (act_effects (dispatch env msg s))"
    using sendPlain_plainly [of s env]
    by (auto simp: dispatch_def plainly_def split: sum.split)
  then show ?thesis by (rule plainly_accounts)
qed

lemma field_accounts:
  assumes "accounts s0 (s1, fx)"
    and "timers s0 = timers s" "pending s0 = pending s" "next_req s0 = next_req s" "st s0 = st s"
  shows "accounts s (s1, fx)"
  using assms by (auto simp: accounts_def books_def balanced_def)

lemma handleFrame_accounts: "accounts s (act_effects (handleFrame env ct s))"
proof (cases "with_keys (aesKey s) (ivIn s) (\<lambda>k v. aesDecrypt (env_D env) k v ct)")
  case (Inl e)
  then show ?thesis using fail_accounts by (simp add: handleFrame_def split_beta)
next
  case (Inr pt)
  show ?thesis
  proof (cases "decode pt")
    case (Inl e)
    with Inr show ?thesis by (simp add: handleFrame_def accounts_same)
  next
    case (Inr m)
    let ?s = "s\<lparr>ivIn := Some (subarray ct 0 16), recvCounter := messageId m\<rparr>"
    from dispatch_accounts have "accounts s (act_effects (dispatch env m ?s))"
      by (rule field_accounts) simp_all
    with Inr \<open>_ = Inr pt\<close> show ?thesis by (simp add: handleFrame_def)
  qed
qed

text \<open>A new request enters both maps under a number that neither has.\<close>

lemma enter_books:
  fixes key name :: string and ms :: nat
  assumes "books s" and "st s = Connected"
  defines "s1 \<equiv> s\<lparr>next_req := next_req s + 1, timers := AList.update (next_req s) (key, name, ms) (timers s),
        pending := AList.update key (next_req s) (pending s)\<rparr>"
  shows "books s1" and "timers s1 = timers s @ [(next_req s, key, name, ms)]" and "next_req s1 = Suc (next_req s)"
proof -
  let ?rid = "next_req s"
  note b = booksD [OF assms(1)]
  have fresh: "?rid \<notin> fst ` set (timers s)" using b(4) by blast
  then show t1: "timers s1 = timers s @ [(?rid, key, name, ms)]"
    by (simp add: s1_def update_fresh)
  show n: "next_req s1 = Suc ?rid" by (simp add: s1_def)
  have old: "rid < ?rid" if "(k, rid) \<in> set (pending s)" for k rid
    using b(4,5) that by (force dest: map_of_SomeD)
  have p1: "set (pending s1) = insert (key, ?rid) {x \<in> set (pending s). fst x \<noteq> key}"
    using b(2) by (simp add: s1_def update_entries)
  have "\<exists>name ms. map_of (timers s1) rid = Some (k, name, ms)" if "(k, rid) \<in> set (pending s1)" for k rid
    using that b(5) fresh unfolding p1 t1 by (auto simp: map_add_Some_iff map_of_eq_None_iff)
  moreover have "distinct (map snd (pending s1))"
    using b(3) old by (auto simp: s1_def intro!: distinct_update_values dest: old)
  moreover have "distinct (map fst (pending s1))" using b(2) by (simp add: s1_def distinct_update)
  moreover have "distinct (map fst (timers s1))" using b(1) fresh by (simp add: t1)
  moreover have "rid < next_req s1" if "rid \<in> fst ` set (timers s1)" for rid
    using that b(4) [of rid] unfolding t1 n by force
  ultimately show "books s1" using assms(2) by (auto simp: books_def s1_def)
qed

lemma request_accounts: "accounts s (request env name opts rnd s)"
proof (cases "st s = Connected")
  case False
  then show ?thesis
    by (auto simp: request_def Let_def accounts_def balanced_def books_def)
next
  case True
  show ?thesis unfolding accounts_def
  proof
    assume bs: "books s"
    let ?rid = "next_req s" and ?key = "to_hex [rnd]"
    define ms where "ms = (case ro_timeoutMs opts of None \<Rightarrow> 5000 | Some ms \<Rightarrow> ms)"
    define s1 where "s1 = s\<lparr>next_req := ?rid + 1, timers := AList.update ?rid (?key, name, ms) (timers s),
        pending := AList.update ?key ?rid (pending s)\<rparr>"
    have b1: "books s1" and t1: "timers s1 = timers s @ [(?rid, ?key, name, ms)]" and n1: "next_req s1 = Suc ?rid"
      using enter_books [OF bs True] unfolding s1_def by blast+
    have fresh: "?rid \<notin> fst ` set (timers s)" using booksD(4) [OF bs] by blast
    let ?r = "send env name (request_send opts rnd) s1"
    have pl: "plainly s1 (act_effects ?r)" by (rule send_plainly)
    have req: "request env name opts rnd s =
        (case snd (snd ?r) of
           Inr _ \<Rightarrow> (fst ?r, fst (snd ?r))
         | Inl e \<Rightarrow> ((fst ?r)\<lparr>pending := AList.delete ?key (pending (fst ?r)),
                     timers := AList.delete ?rid (timers (fst ?r))\<rparr>, fst (snd ?r) @ [RejectReq ?rid e]))"
      by (cases "snd (snd ?r)") (use True in \<open>simp_all add: request_def Let_def split_beta s1_def ms_def\<close>)
    have b2: "books (fst ?r)" using b1 pl by (auto simp: books_def plainly_def)
    show "books (fst (request env name opts rnd s)) \<and> balanced s (request env name opts rnd s)"
    proof (cases "snd (snd ?r)")
      case (Inr mid)
      with b2 pl t1 n1 show ?thesis by (simp add: req balanced_def plainly_def)
    next
      case (Inl e)
      let ?s3 = "(fst ?r)\<lparr>pending := AList.delete ?key (pending (fst ?r)),
          timers := AList.delete ?rid (timers (fst ?r))\<rparr>"
      have "map_of (timers (fst ?r)) ?rid = Some (?key, name, ms)"
        using pl t1 fresh by (auto simp: plainly_def map_add_Some_iff map_of_eq_None_iff)
      from remove_entry [OF b2 this, of ?s3] Inl pl t1 n1 show ?thesis
        by (auto simp: req balanced_def plainly_def)
    qed
  qed
qed

lemma run_catch_accounts: "accounts s (run_catch e s)"
proof -
  have "accounts s (fail_session e (s\<lparr>task := Ended, hs_error := Some e\<rparr>))"
    using fail_accounts [of "s\<lparr>task := Ended, hs_error := Some e\<rparr>" e]
    by (cases "fail_session e (s\<lparr>task := Ended, hs_error := Some e\<rparr>)") (auto elim: field_accounts)
  then show ?thesis by (simp add: run_catch_def Let_def accounts_same)
qed

lemma after_segment_accounts: "accounts s (after_segment env seg s)"
proof (cases "pc (fst seg)")
  case (Failed e)
  let ?s1 = "s\<lparr>task := InHandshake (fst seg), hs_progress := Some (prog (fst seg))\<rparr>"
  have "accounts s (?s1, map Write (snd seg))" by (simp add: accounts_same)
  moreover have "accounts ?s1 (run_catch e ?s1)" by (rule run_catch_accounts)
  ultimately have "accounts s (fst (run_catch e ?s1), map Write (snd seg) @ snd (run_catch e ?s1))"
    by (intro accounts_trans) simp_all
  with Failed show ?thesis by (simp add: after_segment_def Let_def split_beta)
qed (simp_all add: after_segment_def Let_def adopt_def accounts_same)

lemma got_frame_accounts: "accounts s (got_frame env ct s)"
proof -
  let ?r = "handleFrame env ct (s\<lparr>task := LoopCheck\<rparr>)"
  have h: "accounts s (act_effects ?r)"
    using handleFrame_accounts by (rule field_accounts) simp_all
  show ?thesis
  proof (cases "snd (snd ?r)")
    case (Inl e)
    have "accounts (fst ?r) (run_catch e (fst ?r))" by (rule run_catch_accounts)
    with h have "accounts s (fst (run_catch e (fst ?r)), fst (snd ?r) @ snd (run_catch e (fst ?r)))"
      by (intro accounts_trans) simp_all
    with Inl show ?thesis by (simp add: got_frame_def split_beta)
  next
    case (Inr u)
    with h show ?thesis by (simp add: got_frame_def split_beta)
  qed
qed

lemma resume_read_accounts: "accounts s (resume_read env r s)"
  by (cases "(env, r, s)" rule: resume_read.cases)
     (auto simp: resume_handshake_def after_segment_accounts got_frame_accounts run_catch_accounts
        accounts_same split: task.split)

lemma micro_accounts: "accounts s (micro env s)"
proof (cases "woken s")
  case Nil
  then show ?thesis by (simp add: micro_def loop_check_def accounts_same)
next
  case (Cons r rs)
  with resume_read_accounts [of "s\<lparr>woken := rs\<rparr>" env r] show ?thesis
    by (cases "resume_read env r (s\<lparr>woken := rs\<rparr>)") (auto simp: micro_def elim: field_accounts)
qed

lemma step_accounts:
  assumes "task s \<noteq> NotRun"
  shows "accounts s (session_step env s e)"
proof (cases e)
  case IdleTimeout
  have "accounts s (fail_session (Error ''idle timeout'') (s\<lparr>idle_armed := False\<rparr>))"
    using fail_accounts [of "s\<lparr>idle_armed := False\<rparr>" "Error ''idle timeout''"]
    by (cases "fail_session (Error ''idle timeout'') (s\<lparr>idle_armed := False\<rparr>)") (auto elim: field_accounts)
  then show ?thesis using IdleTimeout by (simp add: idle_timeout_def accounts_same)
next
  case (Settle reply)
  then show ?thesis
    by (simp add: settle_def resume_handshake_def after_segment_accounts accounts_same
        split: task.split hs_pc.split)
qed (use assms in \<open>simp_all add: on_data_def Let_def accounts_same fail_accounts finalize_accounts
      timeout_accounts micro_accounts request_accounts disconnect_accounts
      plainly_accounts [OF call_send_plainly]\<close>)

lemma run_accounts:
  "task s \<noteq> NotRun \<Longrightarrow> accounts s (run (session_step env) s es)"
proof (induction es arbitrary: s)
  case Nil
  then show ?case by (simp add: accounts_same)
next
  case (Cons e es)
  from step_life [OF Cons.prems] have "task (fst (session_step env s e)) \<noteq> NotRun"
    using Cons.prems by (auto simp: life_step_def)
  from accounts_trans [of s "fst (session_step env s e)" "snd (session_step env s e)"]
    step_accounts [OF Cons.prems, of env e] Cons.IH [OF this]
  show ?case by (simp add: run_Cons)
qed

lemma started_accounts:
  fixes env :: hs_env and now :: nat and es :: "event list"
  defines "r \<equiv> run (session_step env) (new_session now) (CallRun # es)"
  shows "books (fst r)" and "balanced (new_session now) r"
proof -
  let ?s = "fst (start_run env (new_session now))"
  have r: "r = (fst (run (session_step env) ?s es), Write (env_nonce env) # snd (run (session_step env) ?s es))"
    by (simp add: r_def run_Cons start_run_eq new_session_def)
  have "books ?s" and t: "task ?s \<noteq> NotRun" by (simp_all add: start_run_eq books_def new_session_def)
  with run_accounts [OF t, of env es] show "books (fst r)" "balanced (new_session now) r"
    by (simp_all add: r accounts_def balanced_def start_run_eq new_session_def)
qed

text \<open>C14. No request is lost and none is answered twice: after any sequence of events, the promises
  settled so far together with the armed request timers are exactly the requests issued, each once.
  So every promise that \<open>request\<close> returned has been resolved or rejected exactly once, or still
  has the timer that will reject it.
\<close>

theorem request_settled_once:
  "mset (settlements (snd (run (session_step env) (new_session now) (CallRun # es)))) +
   mset (map fst (timers (fst (run (session_step env) (new_session now) (CallRun # es))))) =
     mset [0 ..< next_req (fst (run (session_step env) (new_session now) (CallRun # es)))]"
  using started_accounts(2) [where env = env and now = now and es = es] by (simp add: balanced_def new_session_def)

end
