(* ===== verification/Session_Frames.thy ===== *)
theory Session_Frames
  imports Session_Life
begin

section \<open>The frame pump of a session, under every schedule\<close>

text \<open>
  After the handshake a session reads the byte stream in two steps per frame, a header of three
  bytes and a body, from a queue that fills as chunks arrive. This theory relates that pump to the
  framing of \<open>lib/chunking.js\<close>: \<open>todo\<close> is the list of frames the session will still handle if
  given more bytes will arrive, and one step of the session removes from it what it handles.
  Everything holds for all sequences of events, so for every way the network cuts the stream and
  for every interleaving with timers and method calls.
\<close>

definition frames :: "bytes \<Rightarrow> bytes list" where
  "frames buf = fst (feed_loop buf [])"

lemma frames_stuck: "next_frame buf = None \<Longrightarrow> frames buf = []"
  by (simp add: frames_def reader.drain_stuck)

lemma frames_step: "next_frame buf = Some (f, rest) \<Longrightarrow> frames buf = f # frames rest"
  by (simp add: frames_def reader.drain_step)

lemma frames_short: "length buf < 3 \<Longrightarrow> frames buf = []"
  by (rule frames_stuck) (simp add: next_frame_def)

text \<open>Only the length in a header matters, not its third byte.\<close>

lemma frames_header:
  assumes "length head = 3"
  shows "frames (head @ buf) =
    (if header_len head \<le> length buf then take (header_len head) buf # frames (drop (header_len head) buf)
     else [])"
proof -
  have h: "header_len (head @ buf) = header_len head" by (rule header_len_append) (simp add: assms)
  have "next_frame (head @ buf) =
      (if header_len head \<le> length buf then Some (take (header_len head) buf, drop (header_len head) buf)
       else None)"
    using assms by (simp add: next_frame_def h subarray_def)
  then show ?thesis by (simp add: frames_stuck frames_step)
qed

subsection \<open>What a session still has to do\<close>

text \<open>
  Where the pump stands between two events: at the test of the loop, waiting for a header or for a
  body, with one of these in hand, with a rejected read in hand, or ended.
\<close>

datatype position =
    Check | WaitHead | GotHead bytes | WaitBody nat | GotBody bytes | Stopped reader js_error | Over

fun at_position :: "session \<Rightarrow> position \<Rightarrow> bool" where
  "at_position s Check \<longleftrightarrow> task s = LoopCheck \<and> woken s = [] \<and> q_waiters (inq s) = []"
| "at_position s WaitHead \<longleftrightarrow> task s = AwaitFrame \<and> woken s = [] \<and> q_waiters (inq s) = [(FrameHead, 3)] \<and>
     length (q_buf (inq s)) < 3 \<and> \<not> q_closed (inq s)"
| "at_position s (GotHead h) \<longleftrightarrow> task s = AwaitFrame \<and> woken s = [Resolve FrameHead h] \<and>
     q_waiters (inq s) = [] \<and> length h = 3"
| "at_position s (WaitBody n) \<longleftrightarrow> task s = AwaitFrame \<and> woken s = [] \<and> q_waiters (inq s) = [(FrameBody, n)] \<and>
     length (q_buf (inq s)) < n \<and> \<not> q_closed (inq s)"
| "at_position s (GotBody b) \<longleftrightarrow> task s = AwaitFrame \<and> woken s = [Resolve FrameBody b] \<and> q_waiters (inq s) = []"
| "at_position s (Stopped w e) \<longleftrightarrow> task s = AwaitFrame \<and> woken s = [Reject w e] \<and> q_waiters (inq s) = []"
| "at_position s Over \<longleftrightarrow> task s = Ended \<and> woken s = [] \<and> q_waiters (inq s) = []"

definition stopped :: "position \<Rightarrow> bool" where
  "stopped p \<longleftrightarrow> p = Over \<or> (\<exists>w e. p = Stopped w e)"

text \<open>The frames still to be handled, given the bytes buffered and to come.\<close>

fun todo :: "position \<Rightarrow> bytes \<Rightarrow> bytes list" where
  "todo Check buf = frames buf"
| "todo WaitHead buf = frames buf"
| "todo (GotHead h) buf = frames (h @ buf)"
| "todo (WaitBody n) buf = (if n \<le> length buf then take n buf # frames (drop n buf) else [])"
| "todo (GotBody b) buf = b # frames buf"
| "todo (Stopped w e) buf = []"
| "todo Over buf = []"

text \<open>What an event brings in, and the frame it makes the session handle.\<close>

fun chunk :: "event \<Rightarrow> bytes" where
  "chunk (Data now c) = c"
| "chunk _ = []"

definition handled :: "session \<Rightarrow> event \<Rightarrow> bytes list" where
  "handled s e =
     (if e = Micro \<and> task s = AwaitFrame
      then (case woken s of Resolve FrameBody ct # _ \<Rightarrow> [ct] | _ \<Rightarrow> []) else [])"

fun frames_run :: "hs_env \<Rightarrow> session \<Rightarrow> event list \<Rightarrow> bytes list" where
  "frames_run env s [] = []"
| "frames_run env s (e # es) = handled s e @ frames_run env (fst (session_step env s e)) es"

definition received :: "event list \<Rightarrow> bytes" where
  "received es = concat (map chunk es)"

text \<open>
  One step forward: from position \<open>p\<close> in \<open>s\<close> to some position in \<open>s'\<close>, having taken in \<open>new\<close>
  and handled \<open>done\<close>. Frames are dropped only by stopping.
\<close>

definition advances :: "session \<Rightarrow> position \<Rightarrow> session \<Rightarrow> bytes \<Rightarrow> bytes list \<Rightarrow> bool" where
  "advances s p s' new fs \<longleftrightarrow>
     (\<exists>p'. at_position s' p' \<and> (stopped p \<longrightarrow> stopped p') \<and>
        (\<forall>later. \<exists>rest. todo p (q_buf (inq s) @ new @ later) = fs @ todo p' (q_buf (inq s') @ later) @ rest \<and>
           (\<not> stopped p' \<longrightarrow> rest = [])))"

lemma advancesI:
  assumes "at_position s' p'" and "stopped p \<longrightarrow> stopped p'"
    and "\<And>later. \<not> stopped p' \<Longrightarrow> todo p (q_buf (inq s) @ new @ later) = fs @ todo p' (q_buf (inq s') @ later)"
    and "\<And>later. stopped p' \<Longrightarrow> \<exists>rest. todo p (q_buf (inq s) @ new @ later) = fs @ rest"
  shows "advances s p s' new fs"
proof -
  have t: "stopped p' \<Longrightarrow> todo p' buf = []" for buf by (auto simp: stopped_def)
  show ?thesis unfolding advances_def
    using assms t by (intro exI [of _ p']) (metis append_Nil append_Nil2)
qed

lemma advances_stay: "at_position s' p \<Longrightarrow> q_buf (inq s') = q_buf (inq s) \<Longrightarrow> advances s p s' [] []"
  by (rule advancesI [of _ p]) auto

subsection \<open>Handlers that leave the pump alone\<close>

definition still :: "session \<Rightarrow> session \<Rightarrow> bool" where
  "still s s' \<longleftrightarrow> inq s' = inq s \<and> woken s' = woken s \<and> task s' = task s"

lemma still_position: "still s s' \<Longrightarrow> at_position s' p = at_position s p"
  by (cases p) (simp_all add: still_def)

lemma still_advances: "still s s' \<Longrightarrow> at_position s p \<Longrightarrow> advances s p s' [] []"
  by (rule advances_stay) (simp_all add: still_position, simp add: still_def)

lemma sendPlain_still: "still s (fst (sendPlain env plain s))"
  by (simp add: still_def sendPlain_def Let_def split: sum.split)

lemma send_still: "still s (fst (send env name opts s))"
  using sendPlain_still [of "snd (alloc_id opts s)" env]
  by (simp add: still_def send_def split_beta split: option.split sum.split)

lemma call_send_still: "still s (fst (call_send env name opts s))"
  using send_still [of s env name opts] by (simp add: call_send_def split_beta)

lemma request_still: "still s (fst (request env name opts rnd s))"
  using send_still
  by (simp add: still_def request_def Let_def split_beta split: sum.split)

lemma timeout_still: "still s (fst (request_timeout rid s))"
  by (simp add: still_def request_timeout_def split: option.split prod.split)

lemma dispatch_still: "still s (fst (dispatch env msg s))"
  using sendPlain_still [of s env]
  by (simp add: still_def dispatch_def split: sum.split option.split)

subsection \<open>Closing\<close>

text \<open>Closing rejects a waiting read and otherwise only marks the queue closed.\<close>

lemma finalize_inq:
  "st s \<noteq> Closed \<Longrightarrow>
   inq (fst (finalize s)) = fst (close (inq s)) \<and>
   woken (fst (finalize s)) = woken s @ snd (close (inq s)) \<and> task (fst (finalize s)) = task s"
  by (simp add: finalize_def Let_def wake_def)

lemma finalize_position:
  assumes "at_position s p"
  shows "\<exists>p'. at_position (fst (finalize s)) p' \<and> (p' = p \<or> stopped p') \<and>
           q_buf (inq (fst (finalize s))) = q_buf (inq s)"
proof (cases "st s = Closed")
  case True
  then show ?thesis using assms by (auto simp: finalize_def)
next
  case False
  note f = finalize_inq [OF False]
  show ?thesis
  proof (cases p)
    case WaitHead
    then show ?thesis using f assms
      by (intro exI [of _ "Stopped FrameHead socket_closed"]) (simp add: stopped_def close_def drain_def)
  next
    case (WaitBody n)
    then show ?thesis using f assms
      by (intro exI [of _ "Stopped FrameBody socket_closed"]) (simp add: stopped_def close_def drain_def)
  qed (use f assms in \<open>auto simp: close_def drain_def intro!: exI [of _ p]\<close>)
qed

lemma finalize_advances:
  assumes "at_position s p"
  shows "advances s p (fst (finalize s)) [] []"
proof -
  from finalize_position [OF assms] obtain p' where
    p': "at_position (fst (finalize s)) p'" "p' = p \<or> stopped p'" "q_buf (inq (fst (finalize s))) = q_buf (inq s)"
    by blast
  then show ?thesis by (intro advancesI [of _ p']) auto
qed

lemma disconnect_state: "fst (disconnect s) = fst (finalize s)"
  by (simp add: disconnect_def finalize_def split_beta)

lemma fail_state: "fst (fail_session e s) = fst (finalize s)"
  by (simp add: fail_session_def split_beta disconnect_state)

subsection \<open>Reading the queue\<close>

text \<open>The three ways a read can go at once, and what a chunk does to a waiting read.\<close>

lemma read_queue_cases [consumes 2, case_names got wait closed]:
  assumes "q_waiters (inq s) = []" and "woken s = []"
  obtains (got) "n \<le> length (q_buf (inq s))" "woken (read_queue w n s) = [Resolve w (take n (q_buf (inq s)))]"
      "q_waiters (inq (read_queue w n s)) = []" "q_buf (inq (read_queue w n s)) = drop n (q_buf (inq s))"
    | (wait) "length (q_buf (inq s)) < n" "\<not> q_closed (inq s)" "woken (read_queue w n s) = []"
      "q_waiters (inq (read_queue w n s)) = [(w, n)]" "q_buf (inq (read_queue w n s)) = q_buf (inq s)"
      "\<not> q_closed (inq (read_queue w n s))"
    | (closed) "length (q_buf (inq s)) < n" "woken (read_queue w n s) = [Reject w socket_closed]"
      "q_waiters (inq (read_queue w n s)) = []" "q_buf (inq (read_queue w n s)) = q_buf (inq s)"
proof -
  consider "n \<le> length (q_buf (inq s))" | "length (q_buf (inq s)) < n" "\<not> q_closed (inq s)"
    | "length (q_buf (inq s)) < n" "q_closed (inq s)" by linarith
  then show thesis
  proof cases
    case 1
    with assms show ?thesis by (intro got) (simp_all add: read_queue_def wake_def read_def drain_def)
  next
    case 2
    with assms show ?thesis by (intro wait) (simp_all add: read_queue_def wake_def read_def drain_def)
  next
    case 3
    with assms show ?thesis by (intro closed) (simp_all add: read_queue_def wake_def read_def drain_def)
  qed
qed

lemma read_head_advances:
  assumes "at_position s Check"
  shows "advances s Check (read_queue FrameHead 3 (s\<lparr>task := AwaitFrame\<rparr>)) [] []"
proof -
  let ?s = "s\<lparr>task := AwaitFrame\<rparr>"
  from assms have "q_waiters (inq ?s) = []" "woken ?s = []" by simp_all
  then show ?thesis
  proof (cases rule: read_queue_cases [where w = FrameHead and n = 3])
    case got
    then show ?thesis
      by (intro advancesI [of _ "GotHead (take 3 (q_buf (inq s)))"])
        (auto simp: stopped_def append_assoc [symmetric] simp del: append_assoc)
  next
    case wait
    then show ?thesis by (intro advancesI [of _ WaitHead]) (auto simp: stopped_def)
  next
    case closed
    then show ?thesis
      by (intro advancesI [of _ "Stopped FrameHead socket_closed"]) (auto simp: stopped_def)
  qed
qed

lemma read_body_advances:
  assumes "at_position s (GotHead h)"
  shows "advances s (GotHead h) (read_queue FrameBody (header_len h) (s\<lparr>woken := []\<rparr>)) [] []"
proof -
  let ?s = "s\<lparr>woken := []\<rparr>" and ?n = "header_len h"
  have t: "task (read_queue FrameBody ?n ?s) = AwaitFrame" using assms by simp
  from assms have h: "length h = 3" by simp
  from assms have "q_waiters (inq ?s) = []" "woken ?s = []" by simp_all
  then show ?thesis
  proof (cases rule: read_queue_cases [where w = FrameBody and n = ?n])
    case got
    then show ?thesis using t
      by (intro advancesI [of _ "GotBody (take ?n (q_buf (inq s)))"]) (auto simp: stopped_def frames_header [OF h])
  next
    case wait
    then show ?thesis using t
      by (intro advancesI [of _ "WaitBody ?n"]) (auto simp: stopped_def frames_header [OF h])
  next
    case closed
    then show ?thesis using t
      by (intro advancesI [of _ "Stopped FrameBody socket_closed"]) (auto simp: stopped_def)
  qed
qed

lemma data_advances:
  assumes "at_position s p"
  shows "advances s p (on_data now c s) c []"
proof -
  let ?s = "on_data now c s" and ?b = "q_buf (inq s) @ c"
  note eval = on_data_def wake_def push_def drain_def Let_def stopped_def
  show ?thesis
  proof (cases p)
    case WaitHead
    show ?thesis
    proof (cases "3 \<le> length ?b")
      case True
      have "advances s WaitHead ?s c []"
        using assms WaitHead True
        by (intro advancesI [of _ "GotHead (take 3 ?b)"])
          (simp_all add: eval append_assoc [symmetric] del: append_assoc take_append drop_append)
      then show ?thesis using WaitHead by simp
    next
      case False
      with assms WaitHead show ?thesis by (intro advancesI [of _ WaitHead]) (simp_all add: eval)
    qed
  next
    case (WaitBody n)
    show ?thesis
    proof (cases "n \<le> length ?b")
      case True
      with assms WaitBody show ?thesis
        by (intro advancesI [of _ "GotBody (take n ?b)"])
          (simp_all add: eval append_assoc [symmetric] del: append_assoc)
    next
      case False
      with assms WaitBody show ?thesis by (intro advancesI [of _ "WaitBody n"]) (simp_all add: eval)
    qed
  qed (use assms in \<open>auto simp: eval intro!: advancesI [of _ p]\<close>)
qed

subsection \<open>The continuations\<close>

text \<open>After a frame the session is at the loop test again, whatever the frame did.\<close>

lemma handleFrame_check:
  assumes "task s = LoopCheck" and "woken s = []" and "q_waiters (inq s) = []"
  shows "at_position (fst (handleFrame env ct s)) Check \<and>
         q_buf (inq (fst (handleFrame env ct s))) = q_buf (inq s)"
proof -
  have c: "at_position s Check" using assms by simp
  from finalize_position [OF c]
  have f: "at_position (fst (finalize s)) Check" "q_buf (inq (fst (finalize s))) = q_buf (inq s)"
    by (auto simp: stopped_def assms finalize_def close_def drain_def wake_def Let_def)
  have d: "still s (fst (dispatch env m (s\<lparr>ivIn := v, recvCounter := c'\<rparr>)))" for m v c'
    using dispatch_still [of "s\<lparr>ivIn := v, recvCounter := c'\<rparr>" env m] by (simp add: still_def)
  show ?thesis
  proof (cases "with_keys (aesKey s) (ivIn s) (\<lambda>k v. aesDecrypt (env_D env) k v ct)")
    case (Inl e)
    with f show ?thesis by (simp add: handleFrame_def split_beta fail_state)
  next
    case pt: (Inr pt)
    show ?thesis
    proof (cases "decode pt")
      case (Inl e)
      with pt assms show ?thesis by (simp add: handleFrame_def)
    next
      case (Inr m)
      have "still s (fst (handleFrame env ct s))" using pt Inr d by (simp add: handleFrame_def)
      with assms show ?thesis by (simp add: still_def)
    qed
  qed
qed

lemma run_catch_over:
  assumes "woken s = []" and "q_waiters (inq s) = []"
  shows "at_position (fst (run_catch e s)) Over"
proof -
  let ?s = "s\<lparr>task := Ended, hs_error := Some e\<rparr>"
  have "at_position ?s Over" using assms by simp
  moreover from finalize_position [OF this] have "at_position (fst (finalize ?s)) Over"
    using assms by (auto simp: stopped_def finalize_def close_def drain_def wake_def Let_def)
  ultimately show ?thesis by (simp add: run_catch_def Let_def fail_state)
qed

lemma got_frame_advances:
  assumes "at_position s (GotBody b)"
  shows "advances s (GotBody b) (fst (got_frame env b (s\<lparr>woken := []\<rparr>))) [] [b]"
proof -
  let ?s = "s\<lparr>woken := [], task := LoopCheck\<rparr>"
  let ?r = "handleFrame env b ?s"
  have c: "at_position (fst ?r) Check" "q_buf (inq (fst ?r)) = q_buf (inq s)"
    using handleFrame_check [of ?s env b] assms by auto
  show ?thesis
  proof (cases "snd (snd ?r)")
    case (Inr u)
    with c show ?thesis
      by (intro advancesI [of _ Check]) (simp_all add: got_frame_def split_beta stopped_def)
  next
    case (Inl e)
    from c(1) have "at_position (fst (run_catch e (fst ?r))) Over" by (intro run_catch_over) simp_all
    with Inl show ?thesis
      by (intro advancesI [of _ Over]) (simp_all add: got_frame_def split_beta stopped_def)
  qed
qed

lemma micro_advances:
  assumes "at_position s p"
  shows "advances s p (fst (micro env s)) [] (handled s Micro)"
proof (cases p)
  case Check
  with assms have "handled s Micro = []" by (simp add: handled_def)
  moreover have "advances s Check (s\<lparr>task := Ended\<rparr>) [] []"
    using assms Check by (intro advancesI [of _ Over]) (auto simp: stopped_def)
  ultimately show ?thesis
    using assms Check read_head_advances by (simp add: micro_def loop_check_def)
next
  case (GotHead h)
  with assms read_body_advances [of s h] show ?thesis by (simp add: micro_def handled_def)
next
  case (GotBody b)
  with assms got_frame_advances [of s b env] show ?thesis by (simp add: micro_def handled_def)
next
  case (Stopped w e)
  let ?s = "s\<lparr>woken := []\<rparr>"
  have "at_position (fst (run_catch e ?s)) Over"
    using assms Stopped by (intro run_catch_over) simp_all
  moreover have "fst (micro env s) = fst (run_catch e ?s)"
    using assms Stopped by (simp add: micro_def)
  moreover have "handled s Micro = []" using assms Stopped by (simp add: handled_def)
  ultimately show ?thesis using Stopped by (intro advancesI [of _ Over]) (simp_all add: stopped_def)
qed (use assms in \<open>auto simp: micro_def handled_def intro!: advances_stay\<close>)

lemma step_advances:
  assumes "at_position s p"
  shows "advances s p (fst (session_step env s e)) (chunk e) (handled s e)"
proof -
  have t: "task s \<noteq> NotRun" "\<And>hs. task s \<noteq> InHandshake hs" using assms by (cases p; simp)+
  have stay: "advances s p s [] []" using assms by (simp add: advances_stay)
  show ?thesis
  proof (cases e)
    case (Data now c)
    with data_advances [OF assms] show ?thesis by (simp add: handled_def)
  next
    case IdleTimeout
    have "at_position (s\<lparr>idle_armed := False\<rparr>) p" using assms by (cases p) simp_all
    from finalize_advances [OF this] stay show ?thesis
      using IdleTimeout by (simp add: idle_timeout_def fail_state handled_def advances_def)
  next
    case (Settle r)
    with stay t show ?thesis by (simp add: settle_def handled_def split: task.split)
  next
    case Micro
    with micro_advances [OF assms] show ?thesis by simp
  qed (use assms t stay in \<open>simp_all add: handled_def fail_state disconnect_state finalize_advances
        still_advances [OF call_send_still] still_advances [OF request_still]
        still_advances [OF timeout_still]\<close>)
qed

subsection \<open>Runs\<close>

lemma run_advances:
  assumes "at_position s p"
  shows "advances s p (fst (run (session_step env) s es)) (received es) (frames_run env s es)"
  using assms
proof (induction es arbitrary: s p)
  case Nil
  then show ?case by (simp add: received_def advances_stay)
next
  case (Cons e es)
  let ?s1 = "fst (session_step env s e)"
  let ?s2 = "fst (run (session_step env) ?s1 es)"
  from step_advances [OF Cons.prems, of env e] obtain p1 where
    1: "at_position ?s1 p1" "stopped p \<longrightarrow> stopped p1"
    "\<And>later. \<exists>rest. todo p (q_buf (inq s) @ chunk e @ later) =
        handled s e @ todo p1 (q_buf (inq ?s1) @ later) @ rest \<and> (\<not> stopped p1 \<longrightarrow> rest = [])"
    unfolding advances_def by blast
  from Cons.IH [OF 1(1)] obtain p2 where
    2: "at_position ?s2 p2" "stopped p1 \<longrightarrow> stopped p2"
    "\<And>later. \<exists>rest. todo p1 (q_buf (inq ?s1) @ received es @ later) =
        frames_run env ?s1 es @ todo p2 (q_buf (inq ?s2) @ later) @ rest \<and> (\<not> stopped p2 \<longrightarrow> rest = [])"
    unfolding advances_def by blast
  have "\<exists>rest. todo p (q_buf (inq s) @ received (e # es) @ later) =
      frames_run env s (e # es) @ todo p2 (q_buf (inq ?s2) @ later) @ rest \<and> (\<not> stopped p2 \<longrightarrow> rest = [])"
    for later
  proof -
    from 1(3) [of "received es @ later"] 2(3) [of later] 2(2) show ?thesis
      by (auto simp: received_def)
  qed
  with 1(2) 2(1,2) show ?case unfolding advances_def run_Cons fst_conv by blast
qed

lemma run_frames:
  assumes "at_position s Check"
  shows "\<exists>rest. frames (q_buf (inq s) @ received es @ later) = frames_run env s es @ rest"
  using run_advances [OF assms, of env es] unfolding advances_def by auto

lemma run_frames_all:
  assumes "at_position s Check"
    and "task (fst (run (session_step env) s es)) = AwaitFrame"
    and "woken (fst (run (session_step env) s es)) = []"
  shows "frames_run env s es = frames (q_buf (inq s) @ received es)"
proof -
  let ?s' = "fst (run (session_step env) s es)"
  from run_advances [OF assms(1), of env es] obtain p where p: "at_position ?s' p"
    and t: "\<And>later. \<exists>rest. frames (q_buf (inq s) @ received es @ later) =
        frames_run env s es @ todo p (q_buf (inq ?s') @ later) @ rest \<and> (\<not> stopped p \<longrightarrow> rest = [])"
    unfolding advances_def by auto
  from p assms(2,3) have "todo p (q_buf (inq ?s')) = []" and "\<not> stopped p"
    by (cases p; simp add: frames_short stopped_def)+
  with t [of "[]"] show ?thesis by auto
qed

text \<open>The session reads frames as \<open>FrameReader\<close> does. From the moment the loop starts, under
  every sequence of events and however the bytes are cut into chunks: the frames handled so far
  are the first ones that a \<open>FrameReader\<close> extracts from the same bytes, in order, none skipped,
  repeated or torn, whatever else happens to the session and whatever bytes come later.
\<close>

theorem session_frames_prefix:
  assumes "at_position s Check" and "q_buf (inq s) = []"
  shows "\<exists>rest. fst (feed new_frame_reader (received es @ later)) = frames_run env s es @ rest"
  using run_frames [OF assms(1), of es later env] assms(2)
  by (simp add: frames_def feed_eq new_frame_reader_def)

subsection \<open>A concrete session\<close>

definition toy_session :: session where
  "toy_session = (new_session 0)\<lparr>st := Connected, task := LoopCheck, aesKey := Some (replicate 16 2),
     ivIn := Some (replicate 16 2), ivOut := Some (replicate 16 2)\<rparr>"

lemma toy_ready:
  "at_position toy_session Check" "q_buf (inq toy_session) = []"
  "aesKey toy_session = Some (replicate 16 2)" "ivIn toy_session = Some (replicate 16 2)"
  "ivOut toy_session = Some (replicate 16 2)"
  by (simp_all add: toy_session_def new_session_def new_byte_queue_def)

lemmas pump_eval =
  run_Cons on_data_def wake_def read_queue_def read_def push_def drain_def micro_def loop_check_def
  got_frame_def split_beta Let_def

lemma toy_pump:
  fixes ct :: bytes
  assumes "length ct = 16" and "aesDecrypt xor_cipher (replicate 16 2) (replicate 16 2) ct = Inr [1]"
  defines "r \<equiv> run (session_step toy_env) toy_session
     [Micro, Data 1 [0, 16], Data 2 (0xFF # ct), Micro, Micro, Micro]"
  shows "task (fst r) = AwaitFrame" and "woken (fst r) = []"
  using assms(1,2)
  by (simp_all add: r_def toy_session_def new_session_def new_byte_queue_def pump_eval header_len_def
      handleFrame_def with_keys_def toy_env_def decode_def)


definition toy_ct :: bytes where
  "toy_ct = cbc_encrypt xor_cipher (replicate 16 2) (replicate 16 2) (pkcs7_pad [1])"

lemma toy_ct: "length toy_ct = 16" "aesDecrypt xor_cipher (replicate 16 2) (replicate 16 2) toy_ct = Inr [1]"
proof -
  have "aesEncrypt xor_cipher (replicate 16 2) (replicate 16 2) [1] = Inr toy_ct"
    by (simp add: aesEncrypt_Inr toy_ct_def)
  from aes_roundtrip_ct [OF xor_cipher_ok this]
  show "length toy_ct = 16" "aesDecrypt xor_cipher (replicate 16 2) (replicate 16 2) toy_ct = Inr [1]"
    by simp_all
qed

definition toy_events :: "event list" where
  "toy_events = [Micro, Data 1 [0, 16], Data 2 (0xFF # toy_ct), Micro, Micro, Micro]"

lemmas toy_pumped = toy_pump [OF toy_ct, folded toy_events_def]

theorem session_frames_prefix_witness:
  "\<exists>rest. fst (feed new_frame_reader (received toy_events @ [0])) = frames_run toy_env toy_session toy_events @ rest"
  using session_frames_prefix [OF toy_ready(1,2)] .

end
