(* ===== verification/Session_Channel.thy ===== *)
theory Session_Channel
  imports Session_Frames
begin

section \<open>The encrypted channel: rolling IVs in both directions\<close>

text \<open>
  After every frame the IV of its direction becomes the first 16 bytes of the ciphertext just
  processed. The firmware's side of that rule is \<open>chain\<close> (what it sends) and \<open>device_rx\<close> (what it
  makes of the frames it receives). The two theorems say that the session and the firmware never
  get out of step: inbound, what the device encrypted is what the session decrypts; outbound, what
  the session sent is what the device decrypts; under every schedule.
\<close>

subsection \<open>The device's side\<close>

fun chain :: "block_fun \<Rightarrow> bytes \<Rightarrow> bytes \<Rightarrow> bytes list \<Rightarrow> bytes list" where
  "chain E k v [] = []"
| "chain E k v (p # ps) =
     (let ct = cbc_encrypt E k v (pkcs7_pad p) in ct # chain E k (take 16 ct) ps)"

fun chain_iv :: "block_fun \<Rightarrow> bytes \<Rightarrow> bytes \<Rightarrow> bytes list \<Rightarrow> bytes" where
  "chain_iv E k v [] = v"
| "chain_iv E k v (p # ps) = chain_iv E k (take 16 (cbc_encrypt E k v (pkcs7_pad p))) ps"

fun device_rx :: "block_fun \<Rightarrow> bytes \<Rightarrow> bytes \<Rightarrow> bytes list \<Rightarrow> (js_error + bytes) list" where
  "device_rx D k v [] = []"
| "device_rx D k v (ct # cts) = aesDecrypt D k v ct # device_rx D k (take 16 ct) cts"

lemma length_chain [simp]: "length (chain E k v ps) = length ps"
  by (induction ps arbitrary: v) (simp_all add: Let_def)

subsection \<open>What a session opens\<close>

text \<open>The result of decrypting each frame handled by a step.\<close>

definition opened :: "hs_env \<Rightarrow> session \<Rightarrow> event \<Rightarrow> (js_error + bytes) list" where
  "opened env s e =
     map (\<lambda>ct. with_keys (aesKey s) (ivIn s) (\<lambda>k v. aesDecrypt (env_D env) k v ct)) (handled s e)"

fun opened_run :: "hs_env \<Rightarrow> session \<Rightarrow> event list \<Rightarrow> (js_error + bytes) list" where
  "opened_run env s [] = []"
| "opened_run env s (e # es) = opened env s e @ opened_run env (fst (session_step env s e)) es"

definition keys_kept :: "session \<Rightarrow> session \<Rightarrow> bool" where
  "keys_kept s s' \<longleftrightarrow> aesKey s' = aesKey s \<and> ivIn s' = ivIn s"

lemma finalize_keys: "keys_kept s (fst (finalize s))" "ivOut (fst (finalize s)) = ivOut s"
  by (simp_all add: keys_kept_def finalize_def Let_def)

lemma sendPlain_keys: "keys_kept s (fst (sendPlain env plain s))"
  by (simp add: keys_kept_def sendPlain_def Let_def split: sum.split)

lemma send_keys: "keys_kept s (fst (send env name opts s))"
  using sendPlain_keys [of "snd (alloc_id opts s)" env]
  by (simp add: keys_kept_def send_def split_beta split: option.split sum.split)

lemma call_send_keys: "keys_kept s (fst (call_send env name opts s))"
  using send_keys [of s env name opts] by (simp add: call_send_def split_beta)

lemma request_keys: "keys_kept s (fst (request env name opts rnd s))"
  using send_keys
  by (simp add: keys_kept_def request_def Let_def split_beta split: sum.split)

lemma timeout_keys: "keys_kept s (fst (request_timeout rid s))"
  by (simp add: keys_kept_def request_timeout_def split: option.split prod.split)

lemma dispatch_keys: "keys_kept s (fst (dispatch env msg s))"
  using sendPlain_keys [of s env]
  by (simp add: keys_kept_def dispatch_def split: sum.split option.split)

lemma run_catch_keys: "keys_kept s (fst (run_catch e s))"
  using finalize_keys [of "s\<lparr>task := Ended, hs_error := Some e\<rparr>"]
  by (simp add: keys_kept_def run_catch_def Let_def fail_state)

lemma handleFrame_keys:
  "aesKey (fst (handleFrame env ct s)) = aesKey s \<and>
   ivIn (fst (handleFrame env ct s)) =
     (case with_keys (aesKey s) (ivIn s) (\<lambda>k v. aesDecrypt (env_D env) k v ct) of
        Inl e \<Rightarrow> ivIn s | Inr pt \<Rightarrow> Some (take 16 ct))"
  using dispatch_keys [of "_\<lparr>recvCounter := _\<rparr>" env] finalize_keys [of s]
  by (auto simp: keys_kept_def handleFrame_def split_beta fail_state subarray_def Let_def split: sum.split)

text \<open>One step: the key stays, and the inbound IV moves exactly with the frames opened.\<close>

lemma step_keys:
  assumes "at_position s p"
  shows "aesKey (fst (session_step env s e)) = aesKey s \<and>
         ivIn (fst (session_step env s e)) =
           (case opened env s e of [Inr pt] \<Rightarrow> Some (take 16 (hd (handled s e))) | _ \<Rightarrow> ivIn s)"
proof (cases "handled s e")
  case Nil
  have t: "task s \<noteq> NotRun" "\<And>hs. task s \<noteq> InHandshake hs" using assms by (cases p; simp)+
  have "keys_kept s (fst (session_step env s e))"
  proof (cases e)
    case IdleTimeout
    then show ?thesis
      using finalize_keys [of "s\<lparr>idle_armed := False\<rparr>"]
      by (simp add: idle_timeout_def fail_state keys_kept_def)
  next
    case (Settle r)
    with t show ?thesis by (simp add: settle_def keys_kept_def split: task.split)
  next
    case Micro
    with Nil assms show ?thesis
      using run_catch_keys [of "s\<lparr>woken := []\<rparr>"]
      by (cases p) (auto simp: micro_def handled_def loop_check_def keys_kept_def run_catch_keys
          intro: run_catch_keys [unfolded keys_kept_def])
  qed (use t in \<open>simp_all add: fail_state disconnect_state finalize_keys call_send_keys request_keys
        timeout_keys on_data_def Let_def, simp_all add: keys_kept_def\<close>)
  with Nil show ?thesis by (simp add: opened_def keys_kept_def)
next
  case (Cons ct cts)
  then have e: "e = Micro" and p: "p = GotBody ct" and cts: "cts = []"
    using assms by (cases p; auto simp: handled_def split: if_splits)+
  let ?s = "s\<lparr>woken := [], task := LoopCheck\<rparr>"
  have "fst (micro env s) = fst (got_frame env ct (s\<lparr>woken := []\<rparr>))"
    using assms p by (simp add: micro_def)
  then have "keys_kept (fst (handleFrame env ct ?s)) (fst (micro env s))"
    using run_catch_keys by (auto simp: got_frame_def split_beta keys_kept_def split: sum.split)
  with handleFrame_keys [of env ct ?s] show ?thesis
    by (auto simp: e Cons [unfolded e] cts opened_def keys_kept_def split: sum.split)
qed

subsection \<open>Inbound\<close>

lemma chain_open:
  assumes "block_cipher E D" and "length k = 16" and "length v = 16"
  shows "aesDecrypt D k v (cbc_encrypt E k v (pkcs7_pad p)) = Inr p"
    and "length (take 16 (cbc_encrypt E k v (pkcs7_pad p))) = 16"
  using aes_roundtrip_ct [OF assms(1) aesEncrypt_Inr [OF assms(2,3)], of p] by simp_all

lemma at_position_step: "at_position s p \<Longrightarrow> \<exists>p'. at_position (fst (session_step env s e)) p'"
  using step_advances [of s p env e] unfolding advances_def by blast

text \<open>If the frames handled in a run are a beginning of the device's chain, they open to its plaintexts.\<close>

lemma run_opens:
  assumes "at_position s p" and "block_cipher E (env_D env)"
    and "aesKey s = Some k" "length k = 16" "ivIn s = Some v" "length v = 16"
    and "frames_run env s es = take n (chain E k v pts)"
  shows "opened_run env s es = map Inr (take n pts) \<and>
         aesKey (fst (run (session_step env) s es)) = Some k \<and>
         ivIn (fst (run (session_step env) s es)) = Some (chain_iv E k v (take n pts))"
  using assms
proof (induction es arbitrary: s p v pts n)
  case Nil
  then have t: "take n pts = []" by (cases pts; cases n) (auto simp: Let_def)
  show ?case using Nil unfolding t by simp
next
  case (Cons e es)
  let ?s1 = "fst (session_step env s e)"
  obtain p1 where p1: "at_position ?s1 p1" using at_position_step [OF Cons.prems(1)] by blast
  note step = step_keys [OF Cons.prems(1), of env e]
  show ?case
  proof (cases "handled s e")
    case Nil
    then have "opened env s e = []" by (simp add: opened_def)
    with Cons.IH [OF p1 Cons.prems(2), of v n pts] step Cons.prems Nil show ?thesis
      by (simp add: run_Cons)
  next
    case handled: (Cons ct cts)
    then have cts: "cts = []" using Cons.prems(1) by (cases p; auto simp: handled_def split: if_splits)
    with handled Cons.prems(7) obtain q qs m where c: "pts = q # qs" "n = Suc m"
      "ct = cbc_encrypt E k v (pkcs7_pad q)" "frames_run env ?s1 es = take m (chain E k (take 16 ct) qs)"
      by (cases pts; cases n) (auto simp: Let_def)
    note o = chain_open [OF Cons.prems(2,4,6), of q, folded c(3)]
    have op: "opened env s e = [Inr q]"
      using handled cts o(1) Cons.prems(3,5) by (simp add: opened_def with_keys_def)
    with step handled Cons.prems(3) have "aesKey ?s1 = Some k" "ivIn ?s1 = Some (take 16 ct)" by simp_all
    from Cons.IH [OF p1 Cons.prems(2) this(1) Cons.prems(4) this(2) o(2) c(4)] op c(1-3)
    show ?thesis by (simp add: run_Cons)
  qed
qed

lemma frames_stream:
  assumes "list_all2 (\<lambda>ct w. encodeDeviceFrame ct = Inr w) cts wires"
  shows "frames (concat wires) = cts"
proof -
  have "feed_loop [] [] = ([], [])" by (rule reader.drain_stuck) (simp add: next_frame_def)
  with reader.drain_stream [OF assms, of "[]"] show ?thesis by (simp add: frames_def)
qed

text \<open>The inbound channel. A device encrypts any messages under the session's key, rolling its IV
  as the firmware does, and frames them. Whatever events happen and however the stream is cut:
  the frames the session has handled so far open to the first messages, exactly and in order, and
  its inbound IV is the device's IV after these; and when all bytes have arrived and the session
  waits for more, every message has been opened.
\<close>

theorem inbound_channel:
  assumes "at_position s Check" and "block_cipher E (env_D env)"
    and "aesKey s = Some k" and "length k = 16" and "ivIn s = Some v" and "length v = 16"
    and "list_all2 (\<lambda>ct w. encodeDeviceFrame ct = Inr w) (chain E k v pts) wires"
    and "q_buf (inq s) @ received es @ later = concat wires"
  shows "(\<exists>n. opened_run env s es = map Inr (take n pts) \<and>
              ivIn (fst (run (session_step env) s es)) = Some (chain_iv E k v (take n pts))) \<and>
         (task (fst (run (session_step env) s es)) = AwaitFrame \<and>
          woken (fst (run (session_step env) s es)) = [] \<and> later = [] \<longrightarrow>
            opened_run env s es = map Inr pts)"
proof -
  have c: "frames (q_buf (inq s) @ received es @ later) = chain E k v pts"
    using frames_stream [OF assms(7)] assms(8) by simp
  from run_frames [OF assms(1), of es later env] c
  obtain rest where "chain E k v pts = frames_run env s es @ rest" by auto
  then have "frames_run env s es = take (length (frames_run env s es)) (chain E k v pts)" by simp
  note prefix = run_opens [OF assms(1-6) this]
  have "opened_run env s es = map Inr pts"
    if "task (fst (run (session_step env) s es)) = AwaitFrame"
      "woken (fst (run (session_step env) s es)) = []" "later = []"
  proof -
    from that run_frames_all [OF assms(1)] c
    have "frames_run env s es = take (length pts) (chain E k v pts)" by simp
    from run_opens [OF assms(1-6) this] show ?thesis by simp
  qed
  with prefix show ?thesis by blast
qed

subsection \<open>What a session sends\<close>

definition sends :: "string \<Rightarrow> send_opts \<Rightarrow> session \<Rightarrow> bytes list" where
  "sends name opts s =
     (if aesKey s = None then []
      else case message_spec name of
        None \<Rightarrow> []
      | Some sp \<Rightarrow>
          (case encode (send_message sp opts (fst (alloc_id opts s))) of Inl e \<Rightarrow> [] | Inr plain \<Rightarrow> [plain]))"

fun acks :: "js_error + bytes \<Rightarrow> bytes list" where
  "acks (Inl e) = []"
| "acks (Inr pt) =
     (case decode pt of
        Inl e \<Rightarrow> []
      | Inr m \<Rightarrow>
          if classify m = Some ''Ping'' then (case encode (ping_ack m) of Inl e \<Rightarrow> [] | Inr plain \<Rightarrow> [plain])
          else [])"

text \<open>The plaintexts that the handler of an event encrypts and sends.\<close>

fun sent :: "hs_env \<Rightarrow> session \<Rightarrow> event \<Rightarrow> bytes list" where
  "sent env s (CallSend name opts) = sends name opts s"
| "sent env s (CallRequest name opts rnd) =
     (if st s = Connected then sends name (request_send opts rnd) s else [])"
| "sent env s e = concat (map acks (opened env s e))"

fun sent_run :: "hs_env \<Rightarrow> session \<Rightarrow> event list \<Rightarrow> bytes list" where
  "sent_run env s [] = []"
| "sent_run env s (e # es) = sent env s e @ sent_run env (fst (session_step env s e)) es"

fun written :: "effect list \<Rightarrow> bytes" where
  "written [] = []"
| "written (Write w # fx) = w @ written fx"
| "written (_ # fx) = written fx"

lemma written_append [simp]: "written (fx @ gx) = written fx @ written gx"
  by (induction fx rule: written.induct) simp_all

lemma written_rejects [simp]: "written (map (\<lambda>(key, rid). RejectReq rid e) ps) = []"
  by (induction ps) auto

text \<open>
  The balance of a handler: it sends \<open>plains\<close> under the key \<open>k\<close> from the IV \<open>v\<close>, the bytes \<open>w\<close> go
  out and \<open>v'\<close> is the IV after them.
\<close>

definition ships :: "block_fun \<Rightarrow> bytes \<Rightarrow> bytes \<Rightarrow> bytes list \<Rightarrow> bytes \<Rightarrow> bytes \<Rightarrow> bool" where
  "ships E k v plains w v' \<longleftrightarrow>
     (\<exists>wires. list_all2 (\<lambda>ct w. encodeFrame ct = Inr w) (chain E k v plains) wires \<and> w = concat wires) \<and>
     v' = chain_iv E k v plains"

lemma ships_none [simp]: "ships E k v [] w v' \<longleftrightarrow> w = [] \<and> v' = v"
  by (auto simp: ships_def)

lemma chain_append:
  "chain E k v (ps @ qs) = chain E k v ps @ chain E k (chain_iv E k v ps) qs"
  "chain_iv E k v (ps @ qs) = chain_iv E k (chain_iv E k v ps) qs"
  by (induction ps arbitrary: v) (simp_all add: Let_def)

lemma ships_append:
  assumes "ships E k v ps w v1" and "ships E k v1 qs w' v2"
  shows "ships E k v (ps @ qs) (w @ w') v2"
proof -
  from assms obtain ws ws' where
    "list_all2 (\<lambda>ct w. encodeFrame ct = Inr w) (chain E k v ps) ws" "w = concat ws"
    "list_all2 (\<lambda>ct w. encodeFrame ct = Inr w) (chain E k v1 qs) ws'" "w' = concat ws'"
    "v1 = chain_iv E k v ps" "v2 = chain_iv E k v1 qs" by (auto simp: ships_def)
  then show ?thesis unfolding ships_def chain_append
    by (intro conjI exI [of _ "ws @ ws'"]) (auto simp: list_all2_appendI)
qed

subsection \<open>Outbound\<close>

text \<open>A plaintext whose ciphertext fits the 16-bit length prefix.\<close>

definition fits :: "bytes \<Rightarrow> bool" where
  "fits plain \<longleftrightarrow> length plain < 65520"

definition shipping :: "hs_env \<Rightarrow> bytes \<Rightarrow> bytes list \<Rightarrow> session \<Rightarrow> session \<times> effect list \<Rightarrow> bool" where
  "shipping env k plains s r \<longleftrightarrow>
     aesKey (fst r) = aesKey s \<and>
     (\<forall>v. aesKey s = Some k \<and> ivOut s = Some v \<and> length v = 16 \<and> list_all fits plains \<longrightarrow>
        (\<exists>v'. ships (env_E env) k v plains (written (snd r)) v' \<and> length v' = 16 \<and>
              ivOut (fst r) = Some v'))"

lemma silent_shipping:
  "aesKey (fst r) = aesKey s \<Longrightarrow> ivOut (fst r) = ivOut s \<Longrightarrow> written (snd r) = [] \<Longrightarrow> shipping env k [] s r"
  by (simp add: shipping_def)

lemma shipping_cong:
  assumes "shipping env k ps s r" and "aesKey s' = aesKey s" and "ivOut s' = ivOut s"
    and "aesKey (fst r') = aesKey (fst r)" and "ivOut (fst r') = ivOut (fst r)"
    and "written (snd r') = written (snd r)"
  shows "shipping env k ps s' r'"
  using assms unfolding shipping_def by simp

lemma sendPlain_shipping:
  assumes "block_cipher (env_E env) D" and "length k = 16"
  shows "shipping env k [plain] s (act_effects (sendPlain env plain s))"
  unfolding shipping_def
proof (intro conjI allI impI, goal_cases)
  case 1
  then show ?case using sendPlain_keys [of s env plain] by (simp add: keys_kept_def)
next
  case (2 v)
  then have v: "aesKey s = Some k" "ivOut s = Some v" "length v = 16" "list_all fits [plain]"
    by blast+
  let ?ct = "cbc_encrypt (env_E env) k v (pkcs7_pad plain)"
  have e: "aesEncrypt (env_E env) k v plain = Inr ?ct" using assms(2) v(3) by (rule aesEncrypt_Inr)
  note rt = aes_roundtrip_ct [OF assms(1) e]
  from v(4) have "length ?ct \<le> 65535" unfolding rt(2) fits_def by simp
  then have f: "encodeFrame ?ct = Inr (u16be (length ?ct) @ ?ct)" by (simp add: encodeFrame_def)
  with e v rt(2) show ?case
    by (simp add: sendPlain_def with_keys_def ships_def subarray_def Let_def list_all2_Cons1)
qed

text \<open>Before the handshake has set the key, \<open>send\<close> throws and nothing goes out.\<close>

lemma keyless_send: "aesKey s = None \<Longrightarrow> written (fst (snd (send env name opts s))) = []"
  by (simp add: send_def sendPlain_def with_keys_def alloc_id_def split_beta split: option.split sum.split)

lemma send_shipping:
  assumes "block_cipher (env_E env) D" and "length k = 16"
  shows "shipping env k (sends name opts s) s (act_effects (send env name opts s))"
proof (cases "aesKey s = None")
  case True
  then show ?thesis
    using send_keys [of s env name opts] keyless_send [of s env name opts]
    by (simp add: sends_def shipping_def keys_kept_def)
next
  case keyed: False
  show ?thesis
  proof (cases "message_spec name")
    case None
    then show ?thesis by (simp add: send_def sends_def silent_shipping)
  next
    case (Some sp)
    show ?thesis
    proof (cases "encode (send_message sp opts (fst (alloc_id opts s)))")
      case (Inl e)
      with Some show ?thesis by (simp add: send_def sends_def silent_shipping split_beta)
    next
      case (Inr plain)
      with Some keyed sendPlain_shipping [OF assms, of plain "snd (alloc_id opts s)"] show ?thesis
        by (simp add: send_def sends_def shipping_def split_beta)
    qed
  qed
qed

lemma call_send_shipping:
  assumes "block_cipher (env_E env) D" and "length k = 16"
  shows "shipping env k (sends name opts s) s (call_send env name opts s)"
  using send_shipping [OF assms, of name opts s]
  by (simp add: call_send_def shipping_def split_beta split: sum.split)

lemma sends_fields: "sends name opts (s\<lparr>next_req := n, timers := t, pending := p\<rparr>) = sends name opts s"
  by (simp add: sends_def alloc_id_def split: option.split)

lemma request_shipping:
  assumes "block_cipher (env_E env) D" and "length k = 16"
  shows "shipping env k (sent env s (CallRequest name opts rnd)) s (request env name opts rnd s)"
proof (cases "st s = Connected")
  case True
  let ?s1 = "s\<lparr>next_req := next_req s + 1,
      timers := AList.update (next_req s) (to_hex [rnd], name,
         case ro_timeoutMs opts of None \<Rightarrow> 5000 | Some ms \<Rightarrow> ms) (timers s),
      pending := AList.update (to_hex [rnd]) (next_req s) (pending s)\<rparr>"
  let ?r = "send env name (request_send opts rnd) ?s1"
  have "shipping env k (sends name (request_send opts rnd) s) s (act_effects ?r)"
    using send_shipping [OF assms, of name "request_send opts rnd" ?s1]
    by (simp add: shipping_def sends_fields)
  with True show ?thesis
    by (cases "snd (snd ?r)") (simp_all add: request_def shipping_def split_beta Let_def)
qed (simp add: request_def Let_def silent_shipping)

lemma finalize_silent: "written (snd (finalize s)) = []" "aesKey (fst (finalize s)) = aesKey s"
    "ivOut (fst (finalize s)) = ivOut s"
  by (simp_all add: finalize_def Let_def)

lemma disconnect_silent: "written (snd (disconnect s)) = []"
  by (simp add: disconnect_def split_beta finalize_silent)

lemma fail_silent: "written (snd (fail_session e s)) = []"
  by (simp add: fail_session_def split_beta disconnect_silent)

lemma run_catch_silent: "written (snd (run_catch e s)) = []" "aesKey (fst (run_catch e s)) = aesKey s"
    "ivOut (fst (run_catch e s)) = ivOut s"
  by (simp_all add: run_catch_def Let_def fail_silent fail_state finalize_silent)

lemma handleFrame_shipping:
  assumes "block_cipher (env_E env) D" and "length k = 16"
  shows "shipping env k
     (acks (with_keys (aesKey s) (ivIn s) (\<lambda>k v. aesDecrypt (env_D env) k v ct))) s
     (act_effects (handleFrame env ct s))"
proof (cases "with_keys (aesKey s) (ivIn s) (\<lambda>k v. aesDecrypt (env_D env) k v ct)")
  case (Inl e)
  then show ?thesis
    by (simp add: handleFrame_def split_beta silent_shipping fail_silent fail_state finalize_silent)
next
  case pt: (Inr pt)
  show ?thesis
  proof (cases "decode pt")
    case (Inl e)
    with pt show ?thesis by (simp add: handleFrame_def silent_shipping)
  next
    case (Inr m)
    let ?s = "s\<lparr>ivIn := Some (subarray ct 0 16), recvCounter := messageId m\<rparr>"
    have "shipping env k (if classify m = Some ''Ping''
        then (case encode (ping_ack m) of Inl e \<Rightarrow> [] | Inr plain \<Rightarrow> [plain]) else []) ?s
        (act_effects (dispatch env m ?s))"
    proof (cases "classify m = Some ''Ping''")
      case True
      then show ?thesis
        using sendPlain_shipping [OF assms, of _ ?s]
        by (cases "encode (ping_ack m)") (simp_all add: dispatch_def silent_shipping)
    qed (simp add: dispatch_def silent_shipping split: option.split)
    with pt Inr show ?thesis by (simp add: handleFrame_def shipping_def)
  qed
qed

lemma got_frame_shipping:
  assumes "block_cipher (env_E env) D" and "length k = 16"
  shows "shipping env k
     (acks (with_keys (aesKey s) (ivIn s) (\<lambda>k v. aesDecrypt (env_D env) k v ct))) s
     (got_frame env ct (s\<lparr>woken := []\<rparr>))"
proof -
  let ?s = "s\<lparr>woken := [], task := LoopCheck\<rparr>"
  let ?r = "handleFrame env ct ?s"
  have "written (snd (got_frame env ct (s\<lparr>woken := []\<rparr>))) = written (fst (snd ?r))"
    "aesKey (fst (got_frame env ct (s\<lparr>woken := []\<rparr>))) = aesKey (fst ?r)"
    "ivOut (fst (got_frame env ct (s\<lparr>woken := []\<rparr>))) = ivOut (fst ?r)"
    by (cases "snd (snd ?r)"; simp add: got_frame_def split_beta run_catch_silent)+
  with handleFrame_shipping [OF assms, of ?s ct] show ?thesis
    by (auto intro: shipping_cong)
qed

lemma micro_shipping:
  assumes "at_position s p" and "block_cipher (env_E env) D" and "length k = 16"
  shows "shipping env k (sent env s Micro) s (micro env s)"
proof (cases p)
  case (GotBody ct)
  with assms(1) got_frame_shipping [OF assms(2,3), of s ct] show ?thesis
    by (simp add: micro_def opened_def handled_def)
qed (use assms(1) in \<open>auto simp: micro_def opened_def handled_def loop_check_def run_catch_silent
      intro!: silent_shipping\<close>)

lemma step_shipping:
  assumes "at_position s p" and "block_cipher (env_E env) D" and "length k = 16"
  shows "shipping env k (sent env s e) s (session_step env s e)"
proof -
  have t: "task s \<noteq> NotRun" "\<And>hs. task s \<noteq> InHandshake hs" using assms by (cases p; simp)+
  show ?thesis
  proof (cases e)
    case Micro
    with micro_shipping [OF assms] show ?thesis by simp
  next
    case (Settle r)
    with t show ?thesis by (simp add: settle_def opened_def handled_def silent_shipping split: task.split)
  next
    case (CallRequest name opts rnd)
    with request_shipping [OF assms(2,3), of s name opts rnd] show ?thesis by simp
  next
    case (CallSend name opts)
    with call_send_shipping [OF assms(2,3)] show ?thesis by simp
  next
    case (RequestTimeout rid)
    then show ?thesis
      by (simp add: request_timeout_def opened_def handled_def silent_shipping split: option.split prod.split)
  qed (use t in \<open>simp_all add: opened_def handled_def silent_shipping fail_silent disconnect_silent finalize_silent
        fail_state disconnect_state on_data_def Let_def idle_timeout_def\<close>)
qed

lemma run_shipping:
  assumes "at_position s p" and "block_cipher (env_E env) D" and "length k = 16"
  shows "shipping env k (sent_run env s es) s (run (session_step env) s es)"
  using assms(1)
proof (induction es arbitrary: s p)
  case Nil
  then show ?case by (simp add: silent_shipping)
next
  case (Cons e es)
  let ?s1 = "fst (session_step env s e)"
  obtain p1 where "at_position ?s1 p1" using at_position_step [OF Cons.prems] by blast
  from Cons.IH [OF this] step_shipping [OF Cons.prems assms(2,3), of e]
  show ?case unfolding run_Cons shipping_def fst_conv snd_conv sent_run.simps list_all_append written_append
    by (metis (no_types, lifting) ships_append)
qed

lemma device_reads_chain:
  assumes "block_cipher E D" and "length k = 16" and "length v = 16"
  shows "device_rx D k v (chain E k v ps) = map Inr ps"
  using assms(3)
proof (induction ps arbitrary: v)
  case (Cons p ps)
  with chain_open [OF assms(1,2)] show ?case by (simp add: Let_def)
qed simp

text \<open>The outbound channel. Whatever events happen (sends, requests, keep-alive answers, timers,
  closing), the bytes the session writes are whole frames; a device that starts from the session's
  outbound IV and rolls it as the firmware does decrypts from them exactly the plaintexts that
  were sent, in order; and both sides hold the same IV afterwards. The plaintexts must be shorter
  than 65520 bytes, so that their ciphertexts fit the length prefix.
\<close>

theorem outbound_channel:
  assumes "at_position s p" and "block_cipher (env_E env) D"
    and "aesKey s = Some k" and "length k = 16" and "ivOut s = Some v" and "length v = 16"
    and "list_all fits (sent_run env s es)"
  shows "let stream = device_drain (written (snd (run (session_step env) s es))) in
           device_rx D k v (fst stream) = map Inr (sent_run env s es) \<and> snd stream = [] \<and>
           ivOut (fst (run (session_step env) s es)) = Some (chain_iv (env_E env) k v (sent_run env s es))"
proof -
  let ?ps = "sent_run env s es"
  from run_shipping [OF assms(1,2,4), of es] assms(3,5,6,7) obtain v' where
    ships: "ships (env_E env) k v ?ps (written (snd (run (session_step env) s es))) v'"
    and iv: "ivOut (fst (run (session_step env) s es)) = Some v'"
    unfolding shipping_def by blast
  from ships obtain wires where w: "list_all2 (\<lambda>ct w. encodeFrame ct = Inr w) (chain (env_E env) k v ?ps) wires"
    "written (snd (run (session_step env) s es)) = concat wires" "v' = chain_iv (env_E env) k v ?ps"
    unfolding ships_def by blast
  have "device_drain [] = ([], [])" by (rule device.drain_stuck) (simp add: device_next_def)
  with device.drain_stream [OF w(1), of "[]"] w(2)
  have "device_drain (written (snd (run (session_step env) s es))) = (chain (env_E env) k v ?ps, [])" by simp
  with device_reads_chain [OF assms(2,4,6)] iv w(3) show ?thesis by simp
qed

subsection \<open>The concrete session\<close>

theorem inbound_channel_witness:
  "opened_run toy_env toy_session toy_events = [Inr [1]]"
proof -
  let ?k = "replicate 16 (2 :: byte)"
  have c: "block_cipher xor_cipher (env_D toy_env)" by (simp add: toy_env_def xor_cipher_ok)
  have "list_all2 (\<lambda>ct w. encodeDeviceFrame ct = Inr w) (chain xor_cipher ?k ?k [[1]]) [[0, 16, 0xFF] @ toy_ct]"
    using toy_ct(1) by (simp add: toy_ct_def [symmetric] encodeDeviceFrame_def u16be_def SYNC_BYTE_def)
  moreover have "received toy_events @ [] = concat [[0, 16, 0xFF] @ toy_ct]"
    by (simp add: toy_events_def received_def)
  ultimately show ?thesis
    using inbound_channel [OF toy_ready(1) c toy_ready(3) length_replicate toy_ready(4) length_replicate,
        of "[[1]]" "[[0, 16, 0xFF] @ toy_ct]" toy_events "[]"] toy_pumped toy_ready(2) by simp
qed

definition no_opts :: send_opts where
  "no_opts = \<lparr>o_payload = None, o_options = None, o_messageId = None, o_token = None, o_type = None\<rparr>"

theorem outbound_channel_witness:
  "device_rx xor_cipher (replicate 16 2) (replicate 16 2) (fst (device_drain (written
     (snd (run (session_step toy_env) toy_session [CallSend ''Ping'' no_opts]))))) = [Inr [0x40, 0, 0, 0]]"
proof -
  have c: "block_cipher (env_E toy_env) xor_cipher" by (simp add: toy_env_def xor_cipher_ok)
  have "message_spec ''Ping'' = Some \<lparr>s_code = 0, s_type = 0, s_uri = None\<rparr>"
    by (simp add: message_spec_def table_eval)
  moreover have "sendCounter toy_session = 0" by (simp add: toy_session_def new_session_def)
  ultimately have "sent_run toy_env toy_session [CallSend ''Ping'' no_opts] = [[0x40, 0, 0, 0]]"
    by (simp add: sends_def alloc_id_def no_opts_def send_message_def uri_options_def encode_eval toy_ready(3))
  then show ?thesis
    using outbound_channel [OF toy_ready(1) c toy_ready(3) length_replicate toy_ready(5) length_replicate,
        of "[CallSend ''Ping'' no_opts]"]
    by (simp add: Let_def fits_def del: run.simps session_step.simps)
qed

end
