(* ===== verification/Session_Messages.thy ===== *)
theory Session_Messages
  imports Session_Channel Session_Requests
begin

section \<open>What a session does with messages\<close>

text \<open>
  The message level on top of the channel: what \<open>send\<close> puts on the wire is what the device reads,
  under the name it was sent as; keep-alive pings are answered; a request enters the tables.
  The last part states where the code falls short of this.
\<close>

subsection \<open>Sending by name\<close>

lemma find_filter: "find P xs = (case filter P xs of [] \<Rightarrow> None | x # _ \<Rightarrow> Some x)"
  by (induction xs) auto

lemma find_sort_key: "find (\<lambda>x. f x = (k :: int)) (sort_key f xs) = find (\<lambda>x. f x = k) xs"
  by (simp add: find_filter sort_key_stable)

lemma find_map: "find P (map f xs) = map_option f (find (P \<circ> f) xs)"
  by (induction xs) auto

lemma find_cong: "(\<And>x. x \<in> set xs \<Longrightarrow> P x = Q x) \<Longrightarrow> find P xs = find Q xs"
  by (induction xs) auto

text \<open>The Uri-Path that \<open>send\<close> puts first is the first one of the decoded message.\<close>

lemma sent_first_uri_path:
  assumes "encode (send_message sp opts mid) = Inr plain" and "s_uri sp = Some u" and "u \<noteq> []"
  shows "first_uri_path (decoded_form (send_message sp opts mid)) =
           Some \<lparr>number = Num (Option UriPath), val = ascii_bytes u\<rparr>"
proof -
  define xs where "xs = uri_options sp @ or_empty (o_options opts)"
  from assms(1) have e: "encodable 0 (sort_key number xs)"
    using encode_Inr_iff [of "send_message sp opts mid"] by (auto simp: send_message_def xs_def)
  have nonneg: "encodable prev xs \<Longrightarrow> 0 \<le> prev \<Longrightarrow> x \<in> set xs \<Longrightarrow> 0 \<le> number x" for prev xs x
    by (induction xs arbitrary: prev) fastforce+
  have "find (\<lambda>opt. number opt = Num (Option UriPath)) (map as_decoded (sort_key number xs)) =
      map_option as_decoded (find (\<lambda>x. number x = int (Option UriPath)) (sort_key number xs))"
    unfolding find_map
    by (intro arg_cong [of _ _ "map_option as_decoded"] find_cong)
       (use nonneg [OF e] in \<open>auto simp: as_decoded_def\<close>)
  also have "\<dots> = map_option as_decoded (find (\<lambda>x. number x = int (Option UriPath)) xs)"
    by (simp only: find_sort_key)
  also have "\<dots> = Some \<lparr>number = Num (Option UriPath), val = ascii_bytes u\<rparr>"
    using assms(2,3) by (simp add: xs_def uri_options_def as_decoded_def)
  finally show ?thesis
    by (simp add: first_uri_path_def decoded_form_def send_message_def xs_def)
qed

text \<open>What \<open>sendPlain\<close> writes is a frame that the device opens to the plaintext.\<close>

lemma sendPlain_read:
  assumes "block_cipher (env_E env) D" and "aesKey s = Some k" and "ivOut s = Some v"
    and "sendPlain env plain s = (s', [Write w], Inr ())"
  shows "\<exists>ct. device_next w = Some (ct, []) \<and> aesDecrypt D k v ct = Inr plain \<and> ivOut s' = Some (take 16 ct)"
proof -
  from assms(2-4) obtain ct where ct: "aesEncrypt (env_E env) k v plain = Inr ct" "encodeFrame ct = Inr w"
      "s' = s\<lparr>ivOut := Some (take 16 ct)\<rparr>"
    by (auto simp: sendPlain_def with_keys_def subarray_def Let_def split: sum.splits)
  from device.split_enc [OF ct(2), of "[]"] aes_roundtrip_ct(1) [OF assms(1) ct(1)] ct(3)
  show ?thesis by auto
qed

lemma sendPlain_writes: "sendPlain env plain s = (s', fx, Inr x) \<Longrightarrow> \<exists>w. fx = [Write w]"
  by (auto simp: sendPlain_def Let_def split: sum.splits)

lemma table_lookup:
  assumes "(name, sp) \<in> set Messages"
  shows "message_spec name = Some sp" and "s_code sp AND 255 = s_code sp"
proof -
  have "distinct (map fst Messages)" by (simp add: table_eval)
  with assms have "map_of Messages name = Some sp" by (simp add: map_of_is_SomeI)
  then show "message_spec name = Some sp" by (simp add: message_spec_def)
  have "\<forall>(n, s)\<in>set Messages. s_code s AND 255 = s_code s" by (simp add: table_eval)
  with assms show "s_code sp AND 255 = s_code sp" by blast
qed

lemma send_success:
  assumes "send env name opts s = (s', fx, Inr mid)" and "message_spec name = Some sp"
  obtains plain where "encode (send_message sp opts (fst (alloc_id opts s))) = Inr plain"
    and "sendPlain env plain (snd (alloc_id opts s)) = (s', fx, Inr ())" and "mid = fst (alloc_id opts s)"
proof (cases "encode (send_message sp opts (fst (alloc_id opts s)))")
  case (Inr plain)
  let ?r = "sendPlain env plain (snd (alloc_id opts s))"
  from assms Inr have r: "fst ?r = s'" "fst (snd ?r) = fx"
      "bindE (snd (snd ?r)) (\<lambda>_. Inr (fst (alloc_id opts s))) = Inr mid"
    by (simp_all add: send_def split_beta)
  then have "?r = (s', fx, Inr ())" by (auto simp: bindE_Inr_iff prod_eq_iff)
  with Inr r(3) show ?thesis by (intro that) auto
qed (use assms in \<open>simp add: send_def split_beta\<close>)

lemma send_ok:
  assumes "block_cipher (env_E env) D" and "aesKey s = Some k" "length k = 16" "ivOut s = Some v" "length v = 16"
    and "message_spec name = Some sp" and "encode (send_message sp opts (fst (alloc_id opts s))) = Inr plain"
    and "length plain < 65520"
  obtains s' w where "sendPlain env plain (snd (alloc_id opts s)) = (s', [Write w], Inr ())"
    and "send env name opts s = (s', [Write w], Inr (fst (alloc_id opts s)))"
proof -
  let ?ct = "cbc_encrypt (env_E env) k v (pkcs7_pad plain)" and ?s1 = "snd (alloc_id opts s)"
  have e: "aesEncrypt (env_E env) k v plain = Inr ?ct" using assms(3,5) by (rule aesEncrypt_Inr)
  have "length ?ct \<le> 65535" using assms(8) unfolding aes_roundtrip_ct(2) [OF assms(1) e] by simp
  then obtain w where w: "encodeFrame ?ct = Inr w" by (simp add: encodeFrame_def)
  have sp: "sendPlain env plain ?s1 = (?s1\<lparr>ivOut := Some (take 16 ?ct)\<rparr>, [Write w], Inr ())"
    using e w assms(2,4) by (simp add: sendPlain_def with_keys_def subarray_def)
  then have "send env name opts s = (?s1\<lparr>ivOut := Some (take 16 ?ct)\<rparr>, [Write w], Inr (fst (alloc_id opts s)))"
    using assms(6,7) by (simp add: send_def split_beta)
  with sp that show ?thesis by blast
qed

text \<open>C28. A message is received under the name it was sent as: when \<open>send\<close> of a table row that has
  a Uri-Path succeeds, with any payload, token, type override and further options, it wrote one
  frame, which the device opens and decodes to a message that is classified as that name, with the
  message id that \<open>send\<close> returned and the token and payload that were passed.
\<close>

theorem send_arrives_as_named:
  assumes "block_cipher (env_E env) D" and "aesKey s = Some k" and "ivOut s = Some v"
    and "(name, sp) \<in> set Messages" and "s_uri sp = Some u"
    and "send env name opts s = (s', fx, Inr mid)"
  shows "\<exists>w ct plain m. fx = [Write w] \<and> device_next w = Some (ct, []) \<and> aesDecrypt D k v ct = Inr plain \<and>
           decode plain = Inr m \<and> classify m = Some name \<and> messageId m = mid \<and>
           token m = or_empty (o_token opts) \<and> payload m = or_empty (o_payload opts)"
proof -
  note sp = table_lookup(1) [OF assms(4)]
  let ?s1 = "snd (alloc_id opts s)" and ?mid = "fst (alloc_id opts s)"
  from assms(6) sp obtain plain where plain: "encode (send_message sp opts ?mid) = Inr plain"
    and r: "sendPlain env plain ?s1 = (s', fx, Inr ())" and mid: "mid = ?mid"
    by (rule send_success)
  from sendPlain_writes [OF r] obtain w where w: "fx = [Write w]" by blast
  with sendPlain_read [OF assms(1), of ?s1 k v plain s' w] r assms(2,3) obtain ct where
    ct: "device_next w = Some (ct, [])" "aesDecrypt D k v ct = Inr plain" by auto
  let ?m = "decoded_form (send_message sp opts ?mid)"
  obtain c where u: "u = [c]" using table_uri [OF assms(4,5)] by blast
  have code: "mcode ?m = s_code sp"
    using table_lookup(2) [OF assms(4)] by (simp add: decoded_form_def send_message_def)
  from sent_first_uri_path [OF plain assms(5)] u
  have "classify ?m = Some name"
    unfolding classify_row using assms(4,5) code by auto
  moreover have "messageId ?m = mid"
    by (simp add: decoded_form_def send_message_def mid alloc_id_def mask_mod split: option.split)
  moreover have "token ?m = or_empty (o_token opts)" "payload ?m = or_empty (o_payload opts)"
    by (simp_all add: decoded_form_def send_message_def)
  ultimately show ?thesis using w ct decode_of_encode [OF plain] by blast
qed

text \<open>Keep-alive: when a frame opens to a CoAP ping, the session answers with exactly one frame,
  which the device opens and decodes to an empty acknowledgement with the ping's message id and
  token; the ping is not surfaced as a message, and no request is settled by it.
\<close>

theorem ping_is_acknowledged:
  assumes "block_cipher (env_E env) (env_D env)" and "aesKey s = Some k" and "length k = 16"
    and "ivIn s = Some v" and "ivOut s = Some v'" and "length v' = 16"
    and "aesDecrypt (env_D env) k v ct = Inr pt" and "decode pt = Inr m" and "classify m = Some ''Ping''"
  shows "\<exists>s' w ct' plain. handleFrame env ct s = (s', [Write w], Inr ()) \<and> device_next w = Some (ct', []) \<and>
           aesDecrypt (env_D env) k v' ct' = Inr plain \<and>
           decode plain = Inr \<lparr>mtype = Type ACK, mcode = Code Empty, messageId = messageId m,
             token = token m, options = [], payload = []\<rparr> \<and>
           ivIn s' = Some (take 16 ct) \<and> ivOut s' = Some (take 16 ct') \<and> recvCounter s' = messageId m"
proof -
  let ?s = "s\<lparr>ivIn := Some (take 16 ct), recvCounter := messageId m\<rparr>"
  note m = decode_fields [OF assms(8)]
  obtain plain where plain: "encode (ping_ack m) = Inr plain" and short: "length plain \<le> 12"
    using m by (force simp: ping_ack_def encode_def payload_part_def Let_def)
  let ?ct = "cbc_encrypt (env_E env) k v' (pkcs7_pad plain)"
  have e: "aesEncrypt (env_E env) k v' plain = Inr ?ct" using assms(3,6) by (rule aesEncrypt_Inr)
  have "length ?ct \<le> 65535" using aes_roundtrip_ct(2) [OF assms(1) e] short by simp
  then obtain w where w: "encodeFrame ?ct = Inr w" by (simp add: encodeFrame_def)
  let ?s' = "?s\<lparr>ivOut := Some (take 16 ?ct)\<rparr>"
  have sp: "sendPlain env plain ?s = (?s', [Write w], Inr ())"
    using e w assms(2,5) by (simp add: sendPlain_def with_keys_def subarray_def)
  then have h: "handleFrame env ct s = (?s', [Write w], Inr ())"
    using assms(2,4,7-9) plain by (simp add: handleFrame_def with_keys_def dispatch_def subarray_def)
  have d: "decode plain = Inr \<lparr>mtype = Type ACK, mcode = Code Empty, messageId = messageId m,
             token = token m, options = [], payload = []\<rparr>"
    using decode_of_encode [OF plain] m by (simp add: decoded_form_def ping_ack_def mask_mod)
  from sendPlain_read [OF assms(1) _ _ sp] assms(2,5) obtain ct' where
    "device_next w = Some (ct', [])" "aesDecrypt (env_D env) k v' ct' = Inr plain"
    "ivOut ?s' = Some (take 16 ct')" by auto
  with h d show ?thesis by (intro exI [of _ ?s'] exI [of _ w] exI [of _ ct'] exI [of _ plain]) simp
qed

subsection \<open>Requests\<close>

lemma map_of_key: "map_of xs k = Some v \<Longrightarrow> k \<in> fst ` set xs"
  by (force dest: map_of_SomeD)

lemma request_sent:
  assumes "st s = Connected" and "request env name opts rnd s = (s1, fx)" and "settlements fx = []"
  shows "\<exists>ms. pending s1 = AList.update (to_hex [rnd]) (next_req s) (pending s) \<and>
              timers s1 = AList.update (next_req s) (to_hex [rnd], name, ms) (timers s) \<and>
              next_req s1 = next_req s + 1 \<and> st s1 = Connected"
proof -
  define ms where "ms = (case ro_timeoutMs opts of None \<Rightarrow> 5000 | Some ms \<Rightarrow> ms)"
  define s0 where "s0 = s\<lparr>next_req := next_req s + 1,
      timers := AList.update (next_req s) (to_hex [rnd], name, ms) (timers s),
      pending := AList.update (to_hex [rnd]) (next_req s) (pending s)\<rparr>"
  let ?r = "send env name (request_send opts rnd) s0"
  have "request env name opts rnd s =
      (case snd (snd ?r) of
         Inr _ \<Rightarrow> (fst ?r, fst (snd ?r))
       | Inl e \<Rightarrow> ((fst ?r)\<lparr>pending := AList.delete (to_hex [rnd]) (pending (fst ?r)),
                   timers := AList.delete (next_req s) (timers (fst ?r))\<rparr>,
                  fst (snd ?r) @ [RejectReq (next_req s) e]))"
    by (cases "snd (snd ?r)") (use assms(1) in \<open>simp_all add: request_def Let_def split_beta s0_def ms_def\<close>)
  with assms(2,3) have "s1 = fst ?r" by (auto split: sum.splits)
  with send_plainly [of s0 env name "request_send opts rnd"] assms(1) show ?thesis
    by (intro exI [of _ ms]) (simp add: plainly_def s0_def)
qed

subsection \<open>Where the code falls short\<close>

text \<open>Tokens are one random byte and nothing stops a second request from drawing the token of one
  that is still open. Then the response to the first request resolves the second request's
  promise; and if the first request's timer fires, it removes the second one's entry, so that the
  second one's response, arriving in time, is surfaced as a \<open>message\<close> and its promise left to time
  out.
\<close>

theorem token_collision:
  assumes "books s" and "st s = Connected"
    and "request env name1 opts1 rnd s = (s1, fx1)" and "settlements fx1 = []"
    and "request env name2 opts2 rnd s1 = (s2, fx2)" and "settlements fx2 = []"
    and "token m = [rnd]" and "classify m \<noteq> Some ''Ping''"
  shows "(\<exists>s3. dispatch env m s2 = (s3, [ResolveReq (next_req s + 1) m], Inr ()) \<and>
            next_req s \<in> fst ` set (timers s3)) \<and>
         (let s3 = fst (request_timeout (next_req s) s2) in
            dispatch env m s3 = (s3, [EmitMessage (classify m) m], Inr ()) \<and>
            next_req s + 1 \<in> fst ` set (timers s3))"
proof -
  let ?k = "to_hex [rnd]" and ?r1 = "next_req s" and ?r2 = "next_req s + 1"
  from request_sent [OF assms(2-4)] obtain ms1 where
    1: "timers s1 = AList.update ?r1 (?k, name1, ms1) (timers s)" "next_req s1 = ?r2" "st s1 = Connected"
    by blast
  from request_sent [OF 1(3) assms(5,6)] obtain ms2 where
    2: "pending s2 = AList.update ?k ?r2 (pending s1)"
    "timers s2 = AList.update ?r2 (?k, name2, ms2) (timers s1)" using 1(2) by auto
  have t: "map_of (timers s2) ?r1 = Some (?k, name1, ms1)" "map_of (timers s2) ?r2 = Some (?k, name2, ms2)"
    "map_of (pending s2) ?k = Some ?r2"
    by (simp_all add: 1 2 update_conv)
  have "map_of (AList.delete ?r2 (timers s2)) ?r1 = Some (?k, name1, ms1)"
    "map_of (AList.delete ?r1 (timers s2)) ?r2 = Some (?k, name2, ms2)"
    using t by (simp_all add: delete_conv)
  then have "?r1 \<in> fst ` set (AList.delete ?r2 (timers s2))" "?r2 \<in> fst ` set (AList.delete ?r1 (timers s2))"
    by (simp_all add: map_of_key)
  moreover have "map_of (AList.delete ?k (pending s2)) ?k = None" by (simp add: delete_conv)
  ultimately show ?thesis using t assms(7,8) by (simp add: dispatch_def request_timeout_def)
qed

text \<open>A message that is too large for a frame breaks the outbound channel: \<open>sendPlain\<close> throws the
  frame's \<open>RangeError\<close> and writes nothing, but it has already advanced \<open>ivOut\<close> to the first 16
  bytes of a ciphertext that the device will never see.
\<close>

theorem oversize_send_moves_iv:
  assumes "block_cipher (env_E env) D" and "aesKey s = Some k" and "length k = 16"
    and "ivOut s = Some v" and "length v = 16" and "65520 \<le> length plain"
  shows "\<exists>ct e. aesEncrypt (env_E env) k v plain = Inr ct \<and>
           sendPlain env plain s = (s\<lparr>ivOut := Some (take 16 ct)\<rparr>, [], Inl (RangeError e))"
proof -
  let ?ct = "cbc_encrypt (env_E env) k v (pkcs7_pad plain)"
  have e: "aesEncrypt (env_E env) k v plain = Inr ?ct" using assms(3,5) by (rule aesEncrypt_Inr)
  have "65520 div 16 \<le> length plain div 16" using assms(6) by (rule div_le_mono)
  then have "\<not> length ?ct \<le> 65535" unfolding aes_roundtrip_ct(2) [OF assms(1) e] by simp
  with e assms(2,4) show ?thesis
    by (simp add: sendPlain_def with_keys_def encodeFrame_def subarray_def)
qed

text \<open>A frame of length zero breaks the inbound channel: it decrypts to nothing without an error,
  the session reports a CoAP decode failure and carries on with an empty buffer as \<open>ivIn\<close>, so that
  whatever the next frame is, decrypting it throws and the session is closed.
\<close>

theorem empty_frame_breaks_iv:
  assumes "aesKey s = Some k" and "length k = 16" and "ivIn s = Some v" and "length v = 16"
  shows "handleFrame env [] s =
           (s\<lparr>ivIn := Some []\<rparr>, [EmitError (Error ''CoAP decode failed: CoAP message too short'')], Inr ()) \<and>
         handleFrame env ct (s\<lparr>ivIn := Some []\<rparr>) =
           (let (s', fx) = fail_session (Error ''AES decrypt failed: ERR_CRYPTO_INVALID_IV'') (s\<lparr>ivIn := Some []\<rparr>)
            in (s', fx, Inr ()))"
  using assms
  by (simp add: handleFrame_def with_keys_def aesDecrypt_def check_key_iv_def cbc_decrypt.simps strip_pad_def
      decode_def subarray_def)

text \<open>\<open>send\<close> looks names up in a plain object, so a name inherited from \<open>Object.prototype\<close> is not
  an \<open>unknown message\<close>: \<open>send('toString')\<close> on a connected session writes a frame, and the device
  reads it as a ping.
\<close>

theorem send_inherited_name:
  assumes "block_cipher (env_E env) D" and "aesKey s = Some k" and "length k = 16"
    and "ivOut s = Some v" and "length v = 16"
  shows "\<exists>s' w mid ct plain m. send env ''toString'' no_opts s = (s', [Write w], Inr mid) \<and>
           device_next w = Some (ct, []) \<and> aesDecrypt D k v ct = Inr plain \<and> decode plain = Inr m \<and>
           classify m = Some ''Ping''"
proof -
  let ?sp = "\<lparr>s_code = 0, s_type = 0, s_uri = None\<rparr>"
  have n: "message_spec ''toString'' = Some ?sp"
    by (simp add: message_spec_def object_prototype_names_def table_eval)
  let ?s1 = "snd (alloc_id no_opts s)" and ?mid = "fst (alloc_id no_opts s)"
  obtain plain where plain: "encode (send_message ?sp no_opts ?mid) = Inr plain" "length plain = 4"
    by (simp add: send_message_def no_opts_def uri_options_def encode_def payload_part_def)
  obtain s' w where sp: "sendPlain env plain ?s1 = (s', [Write w], Inr ())"
    and snd: "send env ''toString'' no_opts s = (s', [Write w], Inr ?mid)"
    by (rule send_ok [OF assms n plain(1)]) (simp_all add: plain(2))
  moreover have "classify (decoded_form (send_message ?sp no_opts ?mid)) = Some ''Ping''"
    by (simp add: classify_def decoded_form_def send_message_def no_opts_def)
  moreover obtain ct where "device_next w = Some (ct, [])" "aesDecrypt D k v ct = Inr plain"
    using sendPlain_read [OF assms(1) _ _ sp, of k v] assms(2,4) by auto
  ultimately show ?thesis using decode_of_encode [OF plain(1)] by blast
qed

subsection \<open>The concrete session\<close>

lemma toy_cipher:
  "block_cipher (env_E toy_env) xor_cipher" "block_cipher (env_E toy_env) (env_D toy_env)"
  "env_D toy_env = xor_cipher"
  by (simp_all add: toy_env_def xor_cipher_ok)

lemma toy_alloc: "alloc_id no_opts toy_session = (0, toy_session\<lparr>sendCounter := 1\<rparr>)"
  by (simp add: alloc_id_def no_opts_def toy_session_def new_session_def)

theorem send_arrives_as_named_witness:
  "\<exists>s' w ct plain m. send toy_env ''Describe'' no_opts toy_session = (s', [Write w], Inr 0) \<and>
     device_next w = Some (ct, []) \<and> decode plain = Inr m \<and> classify m = Some ''Describe''"
proof -
  let ?sp = "spec GET CON (Some ''d'')"
  have row: "(''Describe'', ?sp) \<in> set Messages" "s_uri ?sp = Some ''d''" by (simp_all add: table_eval)
  have e: "encode (send_message ?sp no_opts (fst (alloc_id no_opts toy_session))) =
      Inr [0x40, 1, 0, 0, 0xB1, 0x64]"
    unfolding toy_alloc
    by (simp add: send_message_def no_opts_def uri_options_def spec_def encode_eval ascii_bytes_def)
  obtain s' w where snd: "send toy_env ''Describe'' no_opts toy_session =
      (s', [Write w], Inr (fst (alloc_id no_opts toy_session)))"
    by (rule send_ok [OF toy_cipher(1) toy_ready(3) length_replicate toy_ready(5) length_replicate
          table_lookup(1) [OF row(1)] e]) simp_all
  then have snd: "send toy_env ''Describe'' no_opts toy_session = (s', [Write w], Inr 0)"
    by (simp add: toy_alloc)
  from send_arrives_as_named [OF toy_cipher(1) toy_ready(3,5) row snd] snd show ?thesis by blast
qed

theorem ping_is_acknowledged_witness:
  "\<exists>ct s' w. handleFrame toy_env ct toy_session = (s', [Write w], Inr ()) \<and> recvCounter s' = 7"
proof -
  obtain ct where ct: "aesDecrypt (env_D toy_env) (replicate 16 2) (replicate 16 2) ct = Inr [0x40, 0, 0, 7]"
    using aesEncrypt_Inr aes_roundtrip_ct(1) [OF toy_cipher(2)] length_replicate by metis
  let ?m = "\<lparr>mtype = 0, mcode = 0, messageId = 7, token = [], options = [], payload = []\<rparr>"
  have m: "decode [0x40, 0, 0, 7] = Inr ?m" "classify ?m = Some ''Ping''"
    by (simp_all add: decode_eval classify_def)
  from ping_is_acknowledged [OF toy_cipher(2) toy_ready(3) length_replicate toy_ready(4,5) length_replicate ct m]
  show ?thesis by auto
qed

definition no_ropts :: request_opts where
  "no_ropts = \<lparr>ro_payload = None, ro_options = None, ro_timeoutMs = None\<rparr>"

text \<open>A request of the concrete session is sent.\<close>

lemma toy_request:
  assumes "aesKey s = Some k" "length k = 16" "ivOut s = Some v" "length v = 16" "st s = Connected"
  shows "\<exists>s1 fx. request toy_env ''Describe'' no_ropts rnd s = (s1, fx) \<and> settlements fx = [] \<and>
           aesKey s1 = Some k \<and> (\<exists>v'. ivOut s1 = Some v' \<and> length v' = 16) \<and> st s1 = Connected"
proof -
  let ?sp = "spec GET CON (Some ''d'')" and ?o = "request_send no_ropts rnd"
  define s0 where "s0 = s\<lparr>next_req := next_req s + 1,
      timers := AList.update (next_req s) (to_hex [rnd], ''Describe'', 5000) (timers s),
      pending := AList.update (to_hex [rnd]) (next_req s) (pending s)\<rparr>"
  have k: "aesKey s0 = Some k" "ivOut s0 = Some v" "st s0 = Connected" using assms by (simp_all add: s0_def)
  have "(''Describe'', ?sp) \<in> set Messages" by (simp add: table_eval)
  note row = table_lookup(1) [OF this]
  obtain plain where plain: "encode (send_message ?sp ?o (fst (alloc_id ?o s0))) = Inr plain" "length plain = 7"
    by (simp add: send_message_def request_send_def no_ropts_def uri_options_def spec_def encode_eval ascii_bytes_def
        Let_def)
  obtain s' w where sp: "sendPlain toy_env plain (snd (alloc_id ?o s0)) = (s', [Write w], Inr ())"
    and snd: "send toy_env ''Describe'' ?o s0 = (s', [Write w], Inr (fst (alloc_id ?o s0)))"
    by (rule send_ok [OF toy_cipher(1) k(1) assms(2) k(2) assms(4) row plain(1)]) (simp_all add: plain(2))
  from sendPlain_read [OF toy_cipher(1) _ _ sp, of k v] k
  obtain ct where ct: "aesDecrypt xor_cipher k v ct = Inr plain" "ivOut s' = Some (take 16 ct)" by auto
  have "ct \<noteq> []" using ct(1) plain(2) by (auto simp: aesDecrypt_Inr_iff strip_pad_def)
  moreover have "length ct mod 16 = 0" using ct(1) by (simp add: aesDecrypt_Inr_iff)
  ultimately have "16 \<le> length ct" by (cases "length ct < 16") simp_all
  moreover have "request toy_env ''Describe'' no_ropts rnd s = (s', [Write w])"
    using assms(5) snd by (simp add: request_def Let_def s0_def no_ropts_def)
  moreover have "aesKey s' = Some k" "st s' = Connected"
    using sendPlain_keys [of "snd (alloc_id ?o s0)" toy_env plain] sendPlain_keeps [of "snd (alloc_id ?o s0)" toy_env plain]
      k sp by (simp_all add: keys_kept_def keeps_def)
  ultimately show ?thesis using ct(2) by simp
qed


text \<open>A message with the token of that request.\<close>

definition toy_answer :: coap_message where
  "toy_answer = \<lparr>mtype = 2, mcode = 69, messageId = 1, token = [5], options = [], payload = [9]\<rparr>"

lemma toy_answer: "token toy_answer = [5]" "classify toy_answer \<noteq> Some ''Ping''"
  by (simp_all add: toy_answer_def classify_def first_uri_path_def)

lemma toy_connected: "st toy_session = Connected" "books toy_session" "next_req toy_session = 0"
  by (simp_all add: toy_session_def new_session_def books_def)

theorem token_collision_witness:
  "\<exists>s1 fx1 s2 fx2 s3. request toy_env ''Describe'' no_ropts 5 toy_session = (s1, fx1) \<and>
     request toy_env ''Describe'' no_ropts 5 s1 = (s2, fx2) \<and>
     dispatch toy_env toy_answer s2 = (s3, [ResolveReq 1 toy_answer], Inr ())"
proof -
  obtain s1 fx1 v1 where r1: "request toy_env ''Describe'' no_ropts 5 toy_session = (s1, fx1)" "settlements fx1 = []"
    and k1: "aesKey s1 = Some (replicate 16 2)" "ivOut s1 = Some v1" "length v1 = 16" "st s1 = Connected"
    using toy_request [OF toy_ready(3) length_replicate toy_ready(5) length_replicate toy_connected(1)] by blast
  obtain s2 fx2 where r2: "request toy_env ''Describe'' no_ropts 5 s1 = (s2, fx2)" "settlements fx2 = []"
    using toy_request [OF k1(1) length_replicate k1(2-4)] by blast
  from token_collision [OF toy_connected(2,1) r1 r2 toy_answer] r1 r2 toy_connected(3) show ?thesis by auto
qed

theorem oversize_send_moves_iv_witness:
  "\<exists>ct e. sendPlain toy_env (replicate 65520 0) toy_session =
            (toy_session\<lparr>ivOut := Some (take 16 ct)\<rparr>, [], Inl (RangeError e))"
  using oversize_send_moves_iv [OF toy_cipher(1) toy_ready(3) length_replicate toy_ready(5) length_replicate,
      of "replicate 65520 0"] by auto

theorem empty_frame_breaks_iv_witness:
  "handleFrame toy_env [] toy_session =
     (toy_session\<lparr>ivIn := Some []\<rparr>, [EmitError (Error ''CoAP decode failed: CoAP message too short'')], Inr ())"
  using empty_frame_breaks_iv [OF toy_ready(3) length_replicate toy_ready(4) length_replicate] by blast

theorem send_inherited_name_witness:
  "\<exists>s' w mid. send toy_env ''toString'' no_opts toy_session = (s', [Write w], Inr mid)"
  using send_inherited_name [OF toy_cipher(1) toy_ready(3) length_replicate toy_ready(5) length_replicate]
  by blast

end
