(* ===== verification/Session_Opening.thy ===== *)
theory Session_Opening
  imports Session_Channel
begin

section \<open>From the first byte of a connection\<close>

text \<open>
  The frame pump and the rolling IVs hold from the moment the read loop starts. This theory adds
  what comes before: the session reads 256 bytes, asks the pool and the key loader, reads the
  device's Hello frame, and only then loops. It follows the byte stream through these reads, for
  every interleaving, and so states the channel for whole connections: from the device's point of
  view, what it sends after its Hello is what the host application is told, and what the session
  sends is what the device decrypts.
\<close>

subsection \<open>Messages for the host\<close>

text \<open>The messages a session hands over: with a \<open>message\<close> event, or as the answer to a request.\<close>

fun incoming :: "effect list \<Rightarrow> coap_message list" where
  "incoming [] = []"
| "incoming (EmitMessage n m # fx) = m # incoming fx"
| "incoming (ResolveReq rid m # fx) = m # incoming fx"
| "incoming (_ # fx) = incoming fx"

text \<open>What a decrypted frame means to the host: a message, unless it does not parse or is a keep-alive.\<close>

fun app_messages :: "js_error + bytes \<Rightarrow> coap_message list" where
  "app_messages (Inl e) = []"
| "app_messages (Inr pt) =
     (case decode pt of Inl e \<Rightarrow> [] | Inr m \<Rightarrow> if classify m = Some ''Ping'' then [] else [m])"

lemma incoming_append [simp]: "incoming (fx @ gx) = incoming fx @ incoming gx"
  by (induction fx rule: incoming.induct) simp_all

lemma incoming_Write [simp]: "incoming (map Write ws) = []"
  by (induction ws) simp_all

lemma incoming_rejects [simp]: "incoming (map (\<lambda>(key, rid). RejectReq rid e) ps) = []"
  by (induction ps) auto

lemma finalize_incoming: "incoming (snd (finalize s)) = []"
  by (simp add: finalize_def Let_def)

lemma fail_incoming: "incoming (snd (fail_session e s)) = []" "incoming (snd (disconnect s)) = []"
  by (simp_all add: fail_session_def disconnect_def split_beta finalize_incoming)

lemma run_catch_incoming: "incoming (snd (run_catch e s)) = []"
  by (simp add: run_catch_def Let_def fail_incoming)

lemma sendPlain_incoming: "incoming (fst (snd (sendPlain env plain s))) = []"
  by (simp add: sendPlain_def Let_def split: sum.split)

lemma send_incoming: "incoming (fst (snd (send env name opts s))) = []"
  by (simp add: send_def split_beta sendPlain_incoming split: option.split sum.split)

lemma call_send_incoming: "incoming (snd (call_send env name opts s)) = []"
  by (simp add: call_send_def split_beta send_incoming split: sum.split)

lemma request_incoming: "incoming (snd (request env name opts rnd s)) = []"
  by (simp add: request_def Let_def split_beta send_incoming split: sum.split)

lemma timeout_incoming: "incoming (snd (request_timeout rid s)) = []"
  by (simp add: request_timeout_def split: option.split prod.split)

lemma dispatch_incoming:
  "incoming (fst (snd (dispatch env m s))) = (if classify m = Some ''Ping'' then [] else [m])"
  by (simp add: dispatch_def sendPlain_incoming split: sum.split option.split)

lemma handleFrame_incoming:
  "incoming (fst (snd (handleFrame env ct s))) =
     app_messages (with_keys (aesKey s) (ivIn s) (\<lambda>k v. aesDecrypt (env_D env) k v ct))"
  by (simp add: handleFrame_def split_beta fail_incoming dispatch_incoming split: sum.split)

lemma got_frame_incoming:
  "incoming (snd (got_frame env ct s)) =
     app_messages (with_keys (aesKey s) (ivIn s) (\<lambda>k v. aesDecrypt (env_D env) k v ct))"
  using handleFrame_incoming [of env ct "s\<lparr>task := LoopCheck\<rparr>"]
  by (simp add: got_frame_def split_beta run_catch_incoming split: sum.split)

lemmas quiet_incoming =
  finalize_incoming fail_incoming run_catch_incoming call_send_incoming request_incoming timeout_incoming

lemma step_incoming:
  assumes "at_position s p"
  shows "incoming (snd (session_step env s e)) = concat (map app_messages (opened env s e))"
proof -
  have t: "task s \<noteq> NotRun" "\<And>hs. task s \<noteq> InHandshake hs" using assms by (cases p; simp)+
  show ?thesis
  proof (cases e)
    case Micro
    with assms show ?thesis
      by (cases p) (simp_all add: micro_def opened_def handled_def got_frame_incoming quiet_incoming)
  next
    case (Settle r)
    with t show ?thesis by (simp add: settle_def opened_def handled_def split: task.split)
  qed (use t in \<open>simp_all add: opened_def handled_def quiet_incoming idle_timeout_def\<close>)
qed

lemma run_incoming:
  "at_position s p \<Longrightarrow>
   incoming (snd (run (session_step env) s es)) = concat (map app_messages (opened_run env s es))"
proof (induction es arbitrary: s p)
  case (Cons e es)
  obtain p1 where "at_position (fst (session_step env s e)) p1" using at_position_step [OF Cons.prems] by blast
  from Cons.IH [OF this] step_incoming [OF Cons.prems] show ?case by (simp add: run_Cons)
qed simp

subsection \<open>Where the handshake stands in the stream\<close>

text \<open>
  The positions before the loop: reading the first message, with it in hand, awaiting the pool or
  the key loader, and reading the Hello frame in two steps. The arguments are the bytes taken so
  far: the first message \<open>b\<close>, the header \<open>h\<close> and the body \<open>c\<close> of the Hello frame.
\<close>

datatype opening_pos =
    WantBlob | HaveBlob bytes | Asking bytes | WantHello bytes | HaveHello bytes bytes
  | WantRest bytes bytes | HaveRest bytes bytes bytes | Lost reader js_error

fun asks :: "hs_pc \<Rightarrow> bool" where
  "asks (AtDecrypt ct) \<longleftrightarrow> True"
| "asks (AtCoreKey i der) \<longleftrightarrow> True"
| "asks (AtEncrypt i pem) \<longleftrightarrow> True"
| "asks (AtSign i ct) \<longleftrightarrow> True"
| "asks _ \<longleftrightarrow> False"

fun at_hello :: "hs_pc \<Rightarrow> bool" where
  "at_hello (AtHello i k v) \<longleftrightarrow> True"
| "at_hello _ \<longleftrightarrow> False"

fun reads_queue :: "hs_pc \<Rightarrow> bool" where
  "reads_queue AtReadCoreId \<longleftrightarrow> True"
| "reads_queue (AtHello i k v) \<longleftrightarrow> True"
| "reads_queue _ \<longleftrightarrow> False"

fun at_opening :: "hs_pc \<Rightarrow> session \<Rightarrow> opening_pos \<Rightarrow> bool" where
  "at_opening p s WantBlob \<longleftrightarrow> p = AtReadCoreId \<and> woken s = [] \<and> q_waiters (inq s) = [(CoreIdBytes, 256)] \<and>
     length (q_buf (inq s)) < 256 \<and> \<not> q_closed (inq s)"
| "at_opening p s (HaveBlob b) \<longleftrightarrow> p = AtReadCoreId \<and> woken s = [Resolve CoreIdBytes b] \<and>
     q_waiters (inq s) = [] \<and> length b = 256"
| "at_opening p s (Asking b) \<longleftrightarrow> asks p \<and> woken s = [] \<and> q_waiters (inq s) = [] \<and> length b = 256"
| "at_opening p s (WantHello b) \<longleftrightarrow> at_hello p \<and> woken s = [] \<and> q_waiters (inq s) = [(FrameHead, 3)] \<and>
     length (q_buf (inq s)) < 3 \<and> \<not> q_closed (inq s) \<and> length b = 256"
| "at_opening p s (HaveHello b h) \<longleftrightarrow> at_hello p \<and> woken s = [Resolve FrameHead h] \<and> q_waiters (inq s) = [] \<and>
     length h = 3 \<and> length b = 256"
| "at_opening p s (WantRest b h) \<longleftrightarrow> at_hello p \<and> woken s = [] \<and>
     q_waiters (inq s) = [(FrameBody, header_len h)] \<and> length (q_buf (inq s)) < header_len h \<and>
     \<not> q_closed (inq s) \<and> length h = 3 \<and> length b = 256"
| "at_opening p s (HaveRest b h c) \<longleftrightarrow> at_hello p \<and> woken s = [Resolve FrameBody c] \<and> q_waiters (inq s) = [] \<and>
     length c = header_len h \<and> length h = 3 \<and> length b = 256"
| "at_opening p s (Lost w e) \<longleftrightarrow> reads_queue p \<and> woken s = [Reject w e] \<and> q_waiters (inq s) = []"

fun taken :: "opening_pos \<Rightarrow> bytes" where
  "taken (HaveBlob b) = b"
| "taken (Asking b) = b"
| "taken (WantHello b) = b"
| "taken (HaveHello b h) = b @ h"
| "taken (WantRest b h) = b @ h"
| "taken (HaveRest b h c) = b @ h @ c"
| "taken _ = []"

fun is_lost :: "opening_pos \<Rightarrow> bool" where
  "is_lost (Lost w e) \<longleftrightarrow> True"
| "is_lost _ \<longleftrightarrow> False"

text \<open>The key and the IV that both directions start from.\<close>

abbreviation aes_key :: "hs_env \<Rightarrow> bytes" where
  "aes_key env \<equiv> take 16 (env_sessionKey env)"

abbreviation start_iv :: "hs_env \<Rightarrow> bytes" where
  "start_iv env \<equiv> take 16 (drop 16 (env_sessionKey env))"

text \<open>What the suspended handshake has written, and the keys it has derived, when it awaits the Hello.\<close>

fun greeted :: "hs_env \<Rightarrow> hs_pc \<Rightarrow> bytes \<Rightarrow> bool" where
  "greeted env (AtHello i k v) w \<longleftrightarrow>
     32 \<le> length (env_sessionKey env) \<and> k = aes_key env \<and> v = start_iv env \<and> (\<exists>m. w = env_nonce env @ m)"
| "greeted env p w \<longleftrightarrow> w = env_nonce env"

text \<open>The session is in its handshake, has been sent \<open>g\<close> and has written \<open>w\<close>.\<close>

definition opening_at :: "hs_env \<Rightarrow> bytes \<Rightarrow> bytes \<Rightarrow> session \<Rightarrow> bool" where
  "opening_at env g w s \<longleftrightarrow>
     (\<exists>hs o'. task s = InHandshake hs \<and> aesKey s = None \<and> greeted env (pc hs) w \<and> at_opening (pc hs) s o' \<and>
        (is_lost o' \<or> taken o' @ q_buf (inq s) = g))"

text \<open>The session has just entered its loop: the stream was a first message, a Hello frame, and what is
  still buffered; the keys and IVs are those of the two Hello frames.\<close>

definition opened_at :: "hs_env \<Rightarrow> bytes \<Rightarrow> bytes \<Rightarrow> session \<Rightarrow> bool" where
  "opened_at env g w s \<longleftrightarrow>
     at_position s Check \<and> 32 \<le> length (env_sessionKey env) \<and> aesKey s = Some (aes_key env) \<and>
     (\<exists>b h c m hct hw. length b = 256 \<and> length h = 3 \<and> length c = header_len h \<and> 16 \<le> length c \<and>
        g = b @ h @ c @ q_buf (inq s) \<and> ivIn s = Some (take 16 c) \<and>
        hello_out env (aes_key env) (start_iv env) = Inr (hct, hw) \<and> ivOut s = Some (take 16 hct) \<and>
        w = env_nonce env @ m @ hw)"

lemma opened_atI:
  assumes "at_position s Check" and "32 \<le> length (env_sessionKey env)"
    and "length b = 256" and "length h = 3" and "length c = header_len h" and "16 \<le> length c"
    and "g = b @ h @ c @ q_buf (inq s)"
    and "hello_out env (aes_key env) (start_iv env) = Inr (hct, hw)" and "w = env_nonce env @ m @ hw"
    and "aesKey s = Some (aes_key env)" and "ivIn s = Some (take 16 c)" and "ivOut s = Some (take 16 hct)"
  shows "opened_at env g w s"
  using assms unfolding opened_at_def by blast

lemma still_opening: "still s s' \<Longrightarrow> at_opening p s' o' = at_opening p s o'"
  by (cases o') (simp_all add: still_def)

lemma opening_started: "opening_at env [] (env_nonce env) (fst (start_run env (new_session now)))"
  unfolding opening_at_def
  by (intro exI [of _ "fst (hs_start env)"] exI [of _ WantBlob])
    (simp add: start_run_eq hs_start_def new_session_def new_byte_queue_def read_queue_def wake_def read_def drain_def)

subsection \<open>The segments of the handshake\<close>

text \<open>The outcomes of one segment, from a session that is in the handshake.\<close>

text \<open>What a settled answer of the pool or the loader can lead to.\<close>

lemma asking_segment:
  assumes "asks (pc hs)" and "p = pc (fst (hs_resume env hs reply))"
  shows "(asks p \<or> (\<exists>e. p = Failed e)) \<and> snd (hs_resume env hs reply) = [] \<or>
         (\<exists>i m. p = AtHello i (aes_key env) (start_iv env) \<and> 32 \<le> length (env_sessionKey env) \<and>
            snd (hs_resume env hs reply) = [m]) \<or>
         (\<exists>e m. p = Failed e \<and> snd (hs_resume env hs reply) = [m])"
  using assms
  by (cases "pc hs"; cases reply)
    (auto simp: hs_resume.simps after_decrypt_def hs_fail_def Let_def after_core_key_def set_stage_def after_sign_def
      deriveAesParams_def subarray_def split: option.splits)

lemma hello_segment:
  assumes "pc hs = AtHello i k v" and "p = pc (fst (hs_resume env hs (GotBytes c)))"
  shows "(\<exists>e. p = Failed e) \<and> snd (hs_resume env hs (GotBytes c)) = [] \<or>
         (\<exists>r hct hw. p = Finished r \<and> hello_out env k v = Inr (hct, hw) \<and> 16 \<le> length c \<and>
            snd (hs_resume env hs (GotBytes c)) = [hw] \<and>
            r_aesKey r = k \<and> r_ivIn r = take 16 c \<and> r_ivOut r = take 16 hct)"
proof (cases "aesDecrypt (env_D env) k v c")
  case (Inl e)
  with assms show ?thesis by (simp add: hs_resume.simps after_hello_def hs_fail_def)
next
  case pt: (Inr pt)
  show ?thesis
  proof (cases "decode pt")
    case (Inl e)
    with pt assms show ?thesis by (simp add: hs_resume.simps after_hello_def hs_fail_def)
  next
    case (Inr m)
    from decoded_frame_length [OF pt Inr] have "16 \<le> length c" .
    with pt Inr assms show ?thesis
      by (cases "hello_out env k v")
        (auto simp: hs_resume.simps after_hello_def hs_fail_def send_hello_def Let_def set_stage_def
          hello_out_def [symmetric] subarray_def)
  qed
qed

subsection \<open>One step of the opening\<close>

definition opening_to :: "hs_env \<Rightarrow> bytes \<Rightarrow> bytes \<Rightarrow> session \<times> effect list \<Rightarrow> bool" where
  "opening_to env g w r \<longleftrightarrow>
     incoming (snd r) = [] \<and>
     ((opening_at env g (w @ written (snd r)) (fst r) \<or> at_position (fst r) Over) \<and> hands (snd r) = 0 \<or>
      opened_at env g (w @ written (snd r)) (fst r) \<and> 0 < hands (snd r))"

lemma opening_aside:
  assumes "opening_at env g w s" and "still s s'" and "aesKey s' = aesKey s"
  shows "opening_at env g w s'"
proof -
  have "task s' = task s" "inq s' = inq s" using assms(2) by (simp_all add: still_def)
  with assms(1,3) still_opening [OF assms(2)] show ?thesis unfolding opening_at_def by auto
qed

lemma opening_finalize:
  assumes "opening_at env g w s"
  shows "opening_at env g w (fst (finalize s))"
proof (cases "st s = Closed")
  case True
  with assms show ?thesis by (simp add: finalize_def)
next
  case False
  note f = finalize_inq [OF False]
  from assms obtain hs o' where
    o': "task s = InHandshake hs" "aesKey s = None" "greeted env (pc hs) w" "at_opening (pc hs) s o'"
      "is_lost o' \<or> taken o' @ q_buf (inq s) = g"
    unfolding opening_at_def by blast
  have "\<exists>o1. at_opening (pc hs) (fst (finalize s)) o1 \<and> (is_lost o1 \<or> taken o1 @ q_buf (inq s) = g) \<and>
      q_buf (inq (fst (finalize s))) = q_buf (inq s)"
  proof (cases o')
    case WantBlob
    then show ?thesis using o' f
      by (intro exI [of _ "Lost CoreIdBytes socket_closed"]) (simp add: close_def drain_def)
  next
    case (WantHello b)
    then show ?thesis using o' f
      by (intro exI [of _ "Lost FrameHead socket_closed"]) (cases "pc hs"; simp add: close_def drain_def)
  next
    case (WantRest b h)
    then show ?thesis using o' f
      by (intro exI [of _ "Lost FrameBody socket_closed"]) (cases "pc hs"; simp add: close_def drain_def)
  qed (use o' f in \<open>auto simp: close_def drain_def intro!: exI [of _ o']\<close>)
  with o' finalize_keys(1) [of s] f show ?thesis by (auto simp: opening_at_def keys_kept_def)
qed

lemma opening_data:
  assumes "opening_at env g w s"
  shows "opening_at env (g @ c) w (on_data now c s)"
proof -
  let ?s = "on_data now c s" and ?b = "q_buf (inq s) @ c"
  note eval = on_data_def wake_def push_def drain_def Let_def
  from assms obtain hs o' where
    o': "task s = InHandshake hs" "aesKey s = None" "greeted env (pc hs) w" "at_opening (pc hs) s o'"
      "is_lost o' \<or> taken o' @ q_buf (inq s) = g"
    unfolding opening_at_def by blast
  have "\<exists>o1. at_opening (pc hs) ?s o1 \<and> (is_lost o1 \<or> taken o1 @ q_buf (inq ?s) = g @ c)"
  proof (cases o')
    case WantBlob
    show ?thesis
      using o' WantBlob
      by (intro exI [of _ "if 256 \<le> length ?b then HaveBlob (take 256 ?b) else WantBlob"])
        (auto simp: eval simp del: append_assoc take_append drop_append)
  next
    case (WantHello b)
    show ?thesis
      using o' WantHello
      by (intro exI [of _ "if 3 \<le> length ?b then HaveHello b (take 3 ?b) else WantHello b"])
        (auto simp: eval simp del: take_append drop_append)
  next
    case (WantRest b h)
    show ?thesis
      using o' WantRest
      by (intro exI [of _ "if header_len h \<le> length ?b then HaveRest b h (take (header_len h) ?b) else WantRest b h"])
        (auto simp: eval simp del: take_append drop_append)
  qed (use o' in \<open>auto simp: eval intro!: exI [of _ o']\<close>)
  with o' show ?thesis by (auto simp: opening_at_def eval)
qed

text \<open>A segment that fails ends the session's run.\<close>

lemma failed_over:
  assumes "pc (fst seg) = Failed e" and "woken s = []" and "q_waiters (inq s) = []"
  shows "at_position (fst (after_segment env seg s)) Over \<and> incoming (snd (after_segment env seg s)) = [] \<and>
         hands (snd (after_segment env seg s)) = 0"
proof -
  let ?s = "s\<lparr>task := InHandshake (fst seg), hs_progress := Some (prog (fst seg))\<rparr>"
  have "after_segment env seg s = (fst (run_catch e ?s), map Write (snd seg) @ snd (run_catch e ?s))"
    using assms(1) by (simp add: after_segment_def Let_def split_beta)
  moreover have "hands (snd (run_catch e ?s)) = 0"
    using fail_shuts [of "?s\<lparr>task := Ended, hs_error := Some e\<rparr>" e]
    by (simp add: run_catch_def Let_def shuts_def)
  ultimately show ?thesis
    using run_catch_over [of ?s e] assms(2,3) by (simp add: run_catch_incoming)
qed

lemma asking_to:
  assumes "opening_at env g w s" and "task s = InHandshake hs" and "asks (pc hs)"
  shows "opening_to env g w (resume_handshake env hs reply s)"
proof -
  obtain b where b: "woken s = []" "q_waiters (inq s) = []" "length b = 256" "b @ q_buf (inq s) = g"
    and k: "aesKey s = None" and w: "w = env_nonce env"
  proof -
    from assms obtain o' where o': "at_opening (pc hs) s o'" "is_lost o' \<or> taken o' @ q_buf (inq s) = g"
      and "aesKey s = None" "greeted env (pc hs) w" unfolding opening_at_def by auto
    with assms(3) that show thesis by (cases o'; cases "pc hs") auto
  qed
  let ?seg = "hs_resume env hs reply"
  let ?s = "s\<lparr>task := InHandshake (fst ?seg), hs_progress := Some (prog (fst ?seg))\<rparr>"
  from asking_segment [OF assms(3) refl, of env reply] consider
    (fail) e where "pc (fst ?seg) = Failed e"
  | (ask) "asks (pc (fst ?seg))" "snd ?seg = []"
  | (hello) i m where "pc (fst ?seg) = AtHello i (aes_key env) (start_iv env)" "32 \<le> length (env_sessionKey env)"
      "snd ?seg = [m]"
    by blast
  then show ?thesis
  proof cases
    case fail
    from failed_over [OF this b(1,2)] show ?thesis by (simp add: opening_to_def resume_handshake_def)
  next
    case ask
    then have "after_segment env ?seg s = (?s, case awaited env (pc (fst ?seg)) of None \<Rightarrow> [] | Some req \<Rightarrow> [Ask req])"
      by (cases "pc (fst ?seg)") (simp_all add: after_segment_def Let_def)
    moreover have "opening_at env g w ?s"
      unfolding opening_at_def
      by (intro exI [of _ "fst ?seg"] exI [of _ "Asking b"])
        (use ask(1) b k w in \<open>cases "pc (fst ?seg)"; simp\<close>)
    ultimately show ?thesis by (simp add: opening_to_def resume_handshake_def split: option.split)
  next
    case hello
    then have a: "after_segment env ?seg s = (read_queue FrameHead 3 ?s, [Write m])"
      by (simp add: after_segment_def Let_def)
    have "opening_at env g (w @ m) (read_queue FrameHead 3 ?s)"
    proof -
      have q: "q_waiters (inq ?s) = []" "woken ?s = []" using b by simp_all
      then have "\<exists>o1. at_opening (pc (fst ?seg)) (read_queue FrameHead 3 ?s) o1 \<and>
          (is_lost o1 \<or> taken o1 @ q_buf (inq (read_queue FrameHead 3 ?s)) = g)"
      proof (cases rule: read_queue_cases [where w = FrameHead and n = 3])
        case got
        then show ?thesis using b hello(1)
          by (intro exI [of _ "HaveHello b (take 3 (q_buf (inq s)))"]) simp
      next
        case wait
        then show ?thesis using b hello(1) by (intro exI [of _ "WantHello b"]) simp
      next
        case closed
        then show ?thesis using hello(1) by (intro exI [of _ "Lost FrameHead socket_closed"]) simp
      qed
      with hello k w show ?thesis by (auto simp: opening_at_def)
    qed
    then show ?thesis by (simp add: opening_to_def resume_handshake_def a)
  qed
qed

lemma blob_to:
  assumes "opening_at env g w s" and "task s = InHandshake hs" and "woken s = Resolve CoreIdBytes b # rs"
  shows "opening_to env g w (resume_handshake env hs (GotBytes b) (s\<lparr>woken := rs\<rparr>))"
proof -
  from assms obtain o' where o': "at_opening (pc hs) s o'" "is_lost o' \<or> taken o' @ q_buf (inq s) = g"
    and k: "aesKey s = None" "greeted env (pc hs) w" unfolding opening_at_def by auto
  with assms(3) have b: "pc hs = AtReadCoreId" "rs = []" "q_waiters (inq s) = []" "length b = 256" "b @ q_buf (inq s) = g"
    by (cases o'; auto)+
  let ?hs = "hs\<lparr>pc := AtDecrypt b\<rparr>"
  let ?s = "s\<lparr>woken := [], task := InHandshake ?hs, hs_progress := Some (prog hs)\<rparr>"
  have "opening_at env g w ?s"
    unfolding opening_at_def
    by (intro exI [of _ ?hs] exI [of _ "Asking b"]) (use b k in simp)
  moreover have "resume_handshake env hs (GotBytes b) (s\<lparr>woken := rs\<rparr>) = (?s, [Ask (PoolDecrypt (env_serverPriv env) b)])"
    using b by (simp add: resume_handshake_def after_segment_def hs_resume.simps)
  ultimately show ?thesis by (simp add: opening_to_def)
qed

lemma head_to:
  assumes "opening_at env g w s" and "task s = InHandshake hs" and "woken s = Resolve FrameHead h # rs"
  shows "opening_at env g w (read_queue FrameBody (header_len h) (s\<lparr>woken := rs\<rparr>))"
proof -
  let ?s = "s\<lparr>woken := rs\<rparr>" and ?n = "header_len h"
  from assms obtain o' where o': "at_opening (pc hs) s o'" "is_lost o' \<or> taken o' @ q_buf (inq s) = g"
    and k: "aesKey s = None" "greeted env (pc hs) w" unfolding opening_at_def by auto
  with assms(3) obtain b where b: "at_hello (pc hs)" "rs = []" "q_waiters (inq s) = []" "length b = 256"
    "length h = 3" "b @ h @ q_buf (inq s) = g"
    by (cases o') auto
  then have r: "reads_queue (pc hs)" by (cases "pc hs") simp_all
  from b have q: "q_waiters (inq ?s) = []" "woken ?s = []" by simp_all
  then have "\<exists>o1. at_opening (pc hs) (read_queue FrameBody ?n ?s) o1 \<and>
      (is_lost o1 \<or> taken o1 @ q_buf (inq (read_queue FrameBody ?n ?s)) = g)"
  proof (cases rule: read_queue_cases [where w = FrameBody and n = ?n])
    case got
    then show ?thesis using b by (intro exI [of _ "HaveRest b h (take ?n (q_buf (inq s)))"]) simp
  next
    case wait
    then show ?thesis using b by (intro exI [of _ "WantRest b h"]) simp
  next
    case closed
    then show ?thesis using r by (intro exI [of _ "Lost FrameBody socket_closed"]) simp
  qed
  with assms(2) k show ?thesis by (auto simp: opening_at_def)
qed

lemma hello_to:
  assumes "opening_at env g w s" and "task s = InHandshake hs" and "woken s = Resolve FrameBody c # rs"
  shows "opening_to env g w (resume_handshake env hs (GotBytes c) (s\<lparr>woken := rs\<rparr>))"
proof -
  from assms obtain o' where o': "at_opening (pc hs) s o'" "is_lost o' \<or> taken o' @ q_buf (inq s) = g"
    and gr: "greeted env (pc hs) w" unfolding opening_at_def by auto
  with assms(3) obtain b h where b: "at_hello (pc hs)" "rs = []" "q_waiters (inq s) = []" "length b = 256"
    "length h = 3" "length c = header_len h" "b @ h @ c @ q_buf (inq s) = g"
    by (cases o') auto
  from b(1) gr obtain i m where hs: "pc hs = AtHello i (aes_key env) (start_iv env)" and
    len: "32 \<le> length (env_sessionKey env)" and w: "w = env_nonce env @ m"
    by (cases "pc hs") auto
  let ?seg = "hs_resume env hs (GotBytes c)" and ?s = "s\<lparr>woken := []\<rparr>"
  from hello_segment [OF hs refl, of env c] consider
    (fail) e where "pc (fst ?seg) = Failed e"
  | (fin) r hct hw where "pc (fst ?seg) = Finished r" "hello_out env (aes_key env) (start_iv env) = Inr (hct, hw)"
      "16 \<le> length c" "snd ?seg = [hw]" "r_aesKey r = aes_key env" "r_ivIn r = take 16 c" "r_ivOut r = take 16 hct"
    by blast
  then show ?thesis
  proof cases
    case fail
    from failed_over [OF this, of ?s env] b show ?thesis by (simp add: opening_to_def resume_handshake_def)
  next
    case fin
    let ?t = "adopt r (?s\<lparr>task := InHandshake (fst ?seg), hs_progress := Some (prog (fst ?seg))\<rparr>)"
    have r: "resume_handshake env hs (GotBytes c) (s\<lparr>woken := rs\<rparr>) = (?t, [Write hw, EmitHandshake r])"
      using fin(1,4) b(2) by (simp add: resume_handshake_def after_segment_def Let_def)
    have "opened_at env g (w @ hw) ?t"
      by (rule opened_atI [of _ _ b h c _ hct hw _ m]) (use fin b len w in \<open>simp_all add: adopt_def\<close>)
    then show ?thesis by (simp add: opening_to_def r)
  qed
qed

lemma lost_to:
  assumes "opening_at env g w s" and "task s = InHandshake hs" and "woken s = Reject rd e # rs"
  shows "opening_to env g w (resume_handshake env hs (Rejected e) (s\<lparr>woken := rs\<rparr>))"
proof -
  from assms obtain o' where o': "at_opening (pc hs) s o'" unfolding opening_at_def by auto
  with assms(3) have b: "reads_queue (pc hs)" "rs = []" "q_waiters (inq s) = []"
    by (cases o'; auto)+
  from b(1) have "pc (fst (hs_resume env hs (Rejected e))) = Failed e"
    by (cases "pc hs") (simp_all add: hs_resume.simps hs_fail_def)
  from failed_over [OF this, of "s\<lparr>woken := rs\<rparr>" env] b show ?thesis
    by (simp add: opening_to_def resume_handshake_def)
qed

lemma micro_to:
  assumes "opening_at env g w s"
  shows "opening_to env g w (micro env s)"
proof -
  from assms obtain hs where t: "task s = InHandshake hs" unfolding opening_at_def by blast
  show ?thesis
  proof (cases "woken s")
    case Nil
    with t assms show ?thesis by (simp add: micro_def opening_to_def)
  next
    case (Cons r rs)
    show ?thesis
    proof (cases r)
      case (Resolve rd b)
      then show ?thesis
        using Cons t blob_to [OF assms t] head_to [OF assms t] hello_to [OF assms t]
        by (cases rd) (simp_all add: micro_def, simp add: opening_to_def)
    next
      case (Reject rd e)
      then show ?thesis using Cons t lost_to [OF assms t] by (simp add: micro_def)
    qed
  qed
qed

lemma opening_toI:
  assumes "opening_at env g w (fst r)" and "written (snd r) = []" and "incoming (snd r) = []" and "hands (snd r) = 0"
  shows "opening_to env g w r"
  using assms by (simp add: opening_to_def)

lemma keyless_request: "aesKey s = None \<Longrightarrow> written (snd (request env name opts rnd s)) = []"
  using keyless_send by (simp add: request_def Let_def split_beta split: sum.split)

lemma opening_step:
  assumes "opening_at env g w s"
  shows "opening_to env (g @ chunk e) w (session_step env s e) \<and> handled s e = [] \<and> sent env s e = []"
proof -
  from assms obtain hs where t: "task s = InHandshake hs" and k: "aesKey s = None" unfolding opening_at_def by blast
  then have h: "handled s e = []" by (simp add: handled_def)
  have s: "sent env s e = []" using k h by (cases e) (simp_all add: sends_def opened_def)
  have close: "opening_to env g w (finalize s)" "opening_to env g w (disconnect s)" "opening_to env g w (fail_session x s)" for x
    by (rule opening_toI; use opening_finalize [OF assms] finalize_shuts [of s] disconnect_shuts [of s] fail_shuts [of s x] in
        \<open>simp add: disconnect_state fail_state disconnect_silent fail_silent finalize_silent quiet_incoming shuts_def\<close>)+
  have "opening_to env (g @ chunk e) w (session_step env s e)"
  proof (cases e)
    case CallRun
    with assms t show ?thesis by (simp add: opening_to_def)
  next
    case (Data now c)
    with opening_data [OF assms] show ?thesis by (simp add: opening_to_def)
  next
    case IdleTimeout
    have "opening_at env g w (s\<lparr>idle_armed := False\<rparr>)"
      by (rule opening_aside [OF assms]) (simp_all add: still_def)
    from opening_finalize [OF this] fail_shuts [of "s\<lparr>idle_armed := False\<rparr>"] assms
    have "opening_to env g w (idle_timeout s)"
      by (intro opening_toI)
        (simp_all add: idle_timeout_def fail_state fail_silent quiet_incoming shuts_def)
    with IdleTimeout show ?thesis by simp
  next
    case (RequestTimeout rid)
    have "aesKey (fst (request_timeout rid s)) = aesKey s" "written (snd (request_timeout rid s)) = []"
      by (simp_all add: request_timeout_def split: option.split prod.split)
    with RequestTimeout timeout_keeps [of s rid] opening_aside [OF assms timeout_still]
    show ?thesis by (simp add: opening_toI quiet_incoming keeps_def)
  next
    case (Settle r)
    then show ?thesis
      using asking_to [OF assms t, of r] assms t
      by (cases "pc hs") (simp_all add: settle_def opening_to_def)
  next
    case Micro
    with micro_to [OF assms] show ?thesis by simp
  next
    case (CallSend name opts)
    have "written (snd (call_send env name opts s)) = []"
      using keyless_send [OF k] by (simp add: call_send_def split_beta split: sum.split)
    with CallSend call_send_keys [of s env name opts] call_send_keeps [of s env name opts]
      opening_aside [OF assms call_send_still]
    show ?thesis by (simp add: opening_toI quiet_incoming keeps_def keys_kept_def)
  next
    case (CallRequest name opts rnd)
    with keyless_request [OF k] request_keys [of s env name opts rnd] request_keeps [of s env name opts rnd]
      opening_aside [OF assms request_still]
    show ?thesis by (simp add: opening_toI quiet_incoming keeps_def keys_kept_def)
  qed (use close in simp_all)
  with h s show ?thesis by simp
qed

subsection \<open>Whole connections\<close>

lemma runs_append:
  "opened_run env s (es @ fs) = opened_run env s es @ opened_run env (fst (run (session_step env) s es)) fs"
  "sent_run env s (es @ fs) = sent_run env s es @ sent_run env (fst (run (session_step env) s es)) fs"
  by (induction es arbitrary: s) (simp_all add: run_Cons)

text \<open>After its run has ended a session handles nothing.\<close>

lemma over_finalize: "at_position s Over \<Longrightarrow> at_position (fst (finalize s)) Over"
  by (cases "st s = Closed") (simp_all add: finalize_def Let_def wake_def close_def drain_def)

lemma over_step:
  assumes "at_position s Over"
  shows "at_position (fst (session_step env s e)) Over"
proof (cases e)
  case IdleTimeout
  have "at_position (s\<lparr>idle_armed := False\<rparr>) Over" using assms by simp
  from over_finalize [OF this] assms IdleTimeout show ?thesis by (simp add: idle_timeout_def fail_state)
next
  case (CallSend name opts)
  with assms still_position [OF call_send_still, where p = Over] show ?thesis by (simp del: at_position.simps)
next
  case (CallRequest name opts rnd)
  with assms still_position [OF request_still, where p = Over] show ?thesis by (simp del: at_position.simps)
next
  case (RequestTimeout rid)
  with assms still_position [OF timeout_still, where p = Over] show ?thesis by (simp del: at_position.simps)
qed (use assms over_finalize [OF assms] in
      \<open>simp_all add: settle_def micro_def on_data_def wake_def push_def drain_def Let_def fail_state disconnect_state\<close>)

lemma over_run:
  assumes "at_position s Over"
  shows "opened_run env s es = [] \<and>
         at_position (fst (run (session_step env) s es)) Over"
  using assms
proof (induction es arbitrary: s)
  case (Cons e es)
  have "opened env s e = []" using Cons.prems by (simp add: opened_def handled_def)
  with Cons.IH [OF over_step [OF Cons.prems]] show ?case by (simp add: run_Cons)
qed simp

lemma over_hands:
  assumes "at_position s Over"
  shows "hands (snd (run (session_step env) s es)) = 0"
  using run_life [of s "st s = Closed" env es] assms by (simp add: in_handshake_def)

text \<open>A run either stays in the opening, or ends, or splits at the moment the handshake completes.\<close>

lemma opening_run:
  assumes "opening_at env g w s"
  shows "(opened_run env s es = [] \<and> hands (snd (run (session_step env) s es)) = 0 \<and>
            incoming (snd (run (session_step env) s es)) = [] \<and>
            task (fst (run (session_step env) s es)) \<noteq> AwaitFrame) \<or>
         (\<exists>es1 es2. es = es1 @ es2 \<and> opened_run env s es1 = [] \<and> sent_run env s es1 = [] \<and>
            incoming (snd (run (session_step env) s es1)) = [] \<and>
            0 < hands (snd (run (session_step env) s es1)) \<and>
            opened_at env (g @ received es1) (w @ written (snd (run (session_step env) s es1)))
              (fst (run (session_step env) s es1)))"
  using assms
proof (induction es arbitrary: s g w)
  case Nil
  then show ?case by (auto simp: opening_at_def)
next
  case (Cons e es)
  let ?s1 = "fst (session_step env s e)" and ?fx = "snd (session_step env s e)"
  note step = opening_step [OF Cons.prems, of e]
  then have o: "opened env s e = []" "sent env s e = []" "incoming ?fx = []"
    by (simp_all add: opened_def opening_to_def)
  from step consider
    (stay) "opening_at env (g @ chunk e) (w @ written ?fx) ?s1" "hands ?fx = 0"
  | (over) "at_position ?s1 Over" "hands ?fx = 0"
  | (linked) "opened_at env (g @ chunk e) (w @ written ?fx) ?s1" "0 < hands ?fx"
    unfolding opening_to_def by metis
  then show ?case
  proof cases
    case stay
    from Cons.IH [OF stay(1)] show ?thesis
    proof (elim disjE exE conjE)
      fix es1 es2
      assume "es = es1 @ es2" and "opened_run env ?s1 es1 = []" and "sent_run env ?s1 es1 = []"
        and "incoming (snd (run (session_step env) ?s1 es1)) = []"
        and "0 < hands (snd (run (session_step env) ?s1 es1))"
        and "opened_at env ((g @ chunk e) @ received es1) ((w @ written ?fx) @ written (snd (run (session_step env) ?s1 es1)))
              (fst (run (session_step env) ?s1 es1))"
      with o show ?thesis
        by (intro disjI2 exI [of _ "e # es1"] exI [of _ es2]) (simp add: run_Cons received_def)
    qed (use o stay(2) in \<open>simp add: run_Cons\<close>)
  next
    case over
    have "incoming (snd (run (session_step env) ?s1 es)) = []"
      using run_incoming [OF over(1)] over_run [OF over(1)] by simp
    with over_run [OF over(1), of env es] over_hands [OF over(1), of env es] o over(2)
    show ?thesis by (simp add: run_Cons)
  next
    case linked
    with o show ?thesis
      by (intro disjI2 exI [of _ "[e]"] exI [of _ es]) (simp add: run_Cons received_def)
  qed
qed

end
