(* ===== verification/Session_Whole.thy ===== *)
theory Session_Whole
  imports Session_Opening Handshake_Agreement
begin

section \<open>Whole connections\<close>

text \<open>
  The channel from the first byte of a connection on, for every sequence of events after \<open>run()\<close>:
  handshake answers from the pool and the key loader, chunks of data, continuations, calls of the
  host, timers and closing, in any order. Then one dialogue step by step, which ends in a connected
  session.
\<close>

subsection \<open>Inbound\<close>

text \<open>The stream of a device is a first message, a Hello frame and further frames, in one way only.\<close>

lemma device_stream_unique:
  assumes "b @ h @ c @ rest = blob @ hello_wire @ tail" and "length b = length blob"
    and "encodeDeviceFrame hello = Inr hello_wire" and "length h = 3" and "length c = header_len h"
  shows "c = hello \<and> rest = tail"
proof -
  have t: "h @ c @ rest = hello_wire @ tail" using assms(1,2) by (simp add: append_eq_append_conv)
  from assms(3) have len: "length hello \<le> 65535" and w: "hello_wire = u16be (length hello) @ [SYNC_BYTE] @ hello"
    by (auto simp: encodeDeviceFrame_def split: if_splits)
  have h: "h = u16be (length hello) @ [SYNC_BYTE]"
    using arg_cong [OF t, of "take 3"] assms(4) by (simp add: w u16be_def)
  have "header_len h = length hello" unfolding h using header_len_u16be len by simp
  with t assms(5) show ?thesis by (simp add: w h append_eq_append_conv)
qed

text \<open>Either the opening never completes, or what follows it is the channel of the loop.\<close>

lemma device_messages:
  assumes "block_cipher E (env_D env)" and "length blob = 256" and "encodeDeviceFrame hello = Inr hello_wire"
    and "list_all2 (\<lambda>ct w. encodeDeviceFrame ct = Inr w) (chain E (aes_key env) (take 16 hello) pts) wires"
    and "received es @ later = blob @ hello_wire @ concat wires"
    and "run (session_step env) (new_session date) (CallRun # es) = (s, fx)"
  shows "\<exists>n. opened_run env (new_session date) (CallRun # es) = map Inr (take n pts) \<and>
           incoming fx = concat (map (app_messages \<circ> Inr) (take n pts)) \<and>
           (task s = AwaitFrame \<and> woken s = [] \<and> later = [] \<longrightarrow> take n pts = pts)"
proof -
  define s0 where "s0 = fst (start_run env (new_session date))"
  have t: "task (new_session date) = NotRun" by (simp add: new_session_def)
  have s: "s = fst (run (session_step env) s0 es)" and fx: "incoming fx = incoming (snd (run (session_step env) s0 es))"
    using assms(6) t by (auto simp: run_Cons s0_def start_run_eq)
  have op: "opened_run env (new_session date) (CallRun # es) = opened_run env s0 es"
    using t by (simp add: opened_def handled_def s0_def)
  from opening_run [OF opening_started, of env date es, folded s0_def] show ?thesis
  proof (elim disjE exE conjE)
    assume "opened_run env s0 es = []" and "incoming (snd (run (session_step env) s0 es)) = []"
      and "task (fst (run (session_step env) s0 es)) \<noteq> AwaitFrame"
    then show ?thesis unfolding op fx by (intro exI [of _ 0]) (simp add: s)
  next
    fix es1 es2
    let ?s1 = "fst (run (session_step env) s0 es1)"
    assume es: "es = es1 @ es2" and none: "opened_run env s0 es1 = []"
      "incoming (snd (run (session_step env) s0 es1)) = []"
      and at: "opened_at env ([] @ received es1) (env_nonce env @ written (snd (run (session_step env) s0 es1))) ?s1"
    from at obtain b h c where p: "at_position ?s1 Check" and keys: "aesKey ?s1 = Some (aes_key env)" "ivIn ?s1 = Some (take 16 c)"
      and len: "32 \<le> length (env_sessionKey env)" "length b = 256" "length h = 3" "length c = header_len h" "16 \<le> length c"
      and g: "received es1 = b @ h @ c @ q_buf (inq ?s1)"
      unfolding opened_at_def by auto
    have "b @ h @ c @ (q_buf (inq ?s1) @ received es2 @ later) = blob @ hello_wire @ concat wires"
      using assms(5) g by (simp add: es received_def)
    from device_stream_unique [OF this _ assms(3) len(3,4)] len(2) assms(2)
    have c: "c = hello" and rest: "q_buf (inq ?s1) @ received es2 @ later = concat wires" by simp_all
    have k: "length (aes_key env) = 16" "length (take 16 hello) = 16" using len c by simp_all
    note ch = inbound_channel [OF p assms(1) keys(1) k(1) keys(2) [unfolded c] k(2) assms(4) rest]
    have fin: "fst (run (session_step env) ?s1 es2) = s" by (simp add: s es run_append)
    from ch obtain n where n: "opened_run env ?s1 es2 = map Inr (take n pts)" by blast
    have all: "task s = AwaitFrame \<and> woken s = [] \<and> later = [] \<Longrightarrow> take n pts = pts"
    proof -
      assume "task s = AwaitFrame \<and> woken s = [] \<and> later = []"
      with ch have "opened_run env ?s1 es2 = map Inr pts" unfolding fin by blast
      with n show "take n pts = pts" by (simp add: inj_map_eq_map)
    qed
    have "incoming fx = concat (map app_messages (opened_run env ?s1 es2))"
      using none(2) run_incoming [OF p, of env es2] by (simp add: fx es run_append)
    moreover have "opened_run env s0 es = map Inr (take n pts)" using n none(1) by (simp add: es runs_append)
    ultimately show ?thesis using n all unfolding op by (intro exI [of _ n]) (simp add: comp_def)
  qed
qed

text \<open>C4. What a device sends is what the host is told. A device sends its first message, a Hello frame,
  and then any messages, encrypted under the session key with the IV rolling from its Hello frame,
  as the firmware does. However TCP cuts that stream, whatever the pool and the key loader answer
  and when, and whatever the host calls: the frames that the session has handled so far open to the
  first of these messages, exactly and in order; the host has been handed exactly those of them
  that parse and are not keep-alives, each once, in order; and when the whole stream has arrived
  and the session waits for more input, none is missing.
\<close>

theorem device_messages_arrive:
  assumes "block_cipher E (env_D env)" and "length blob = 256" and "encodeDeviceFrame hello = Inr hello_wire"
    and "list_all2 (\<lambda>ct w. encodeDeviceFrame ct = Inr w) (chain E (aes_key env) (take 16 hello) pts) wires"
    and "received es @ later = blob @ hello_wire @ concat wires"
    and "run (session_step env) (new_session date) (CallRun # es) = (s, fx)"
  shows "\<exists>n. opened_run env (new_session date) (CallRun # es) = map Inr (take n pts) \<and>
           incoming fx = concat (map (app_messages \<circ> Inr) (take n pts)) \<and>
           (task s = AwaitFrame \<and> woken s = [] \<and> later = [] \<longrightarrow> take n pts = pts)"
  using device_messages [OF assms] .

subsection \<open>Outbound\<close>

text \<open>From a connected session, what is written continues the stream that its Hello began.\<close>

lemma server_stream:
  assumes "block_cipher (env_E env) D" and "at_position s Check" and "32 \<le> length (env_sessionKey env)"
    and "aesKey s = Some (aes_key env)" and "ivOut s = Some (take 16 hct)"
    and "hello_out env (aes_key env) (start_iv env) = Inr (hct, hw)"
    and "list_all fits (sent_run env s es)"
  defines "stream \<equiv> hw @ written (snd (run (session_step env) s es))"
  shows "\<exists>hello. encode (server_hello (header_len (env_counter env))) = Inr hello \<and>
           snd (device_drain stream) = [] \<and>
           device_rx D (aes_key env) (start_iv env) (fst (device_drain stream)) =
             Inr hello # map Inr (sent_run env s es)"
proof -
  let ?k = "aes_key env" and ?v = "start_iv env" and ?ps = "sent_run env s es"
  let ?w2 = "written (snd (run (session_step env) s es))"
  from assms(6) obtain hello where hello: "encode (server_hello (header_len (env_counter env))) = Inr hello"
    and ct: "aesEncrypt (env_E env) ?k ?v hello = Inr hct" and fr: "encodeFrame hct = Inr hw"
    by (auto simp: hello_out_Inr)
  have k: "length ?k = 16" "length ?v = 16" using assms(3) by simp_all
  have hct: "hct = cbc_encrypt (env_E env) ?k ?v (pkcs7_pad hello)"
    using ct aesEncrypt_Inr [OF k, of "env_E env" hello] by simp
  have "length (take 16 hct) = 16" using aes_roundtrip_ct(2) [OF assms(1) ct] by simp
  then obtain v' where "ships (env_E env) ?k (take 16 hct) ?ps ?w2 v'"
    using run_shipping [OF assms(2,1) k(1), of es] assms(4,5,7) unfolding shipping_def by blast
  moreover have "ships (env_E env) ?k ?v [hello] hw (take 16 hct)"
    using fr by (simp add: ships_def hct list_all2_Cons1 Let_def)
  ultimately have "ships (env_E env) ?k ?v ([hello] @ ?ps) (hw @ ?w2) v'" by (rule ships_append [rotated])
  then obtain wires where wires: "list_all2 (\<lambda>ct w. encodeFrame ct = Inr w) (chain (env_E env) ?k ?v (hello # ?ps)) wires"
    "hw @ ?w2 = concat wires" by (auto simp: ships_def)
  have "device_drain [] = ([], [])" by (rule device.drain_stuck) (simp add: device_next_def)
  with device.drain_stream [OF wires(1), of "[]"] wires(2)
  have "device_drain stream = (chain (env_E env) ?k ?v (hello # ?ps), [])" by (simp add: stream_def)
  with hello device_reads_chain [OF assms(1) k, of "hello # ?ps"] show ?thesis by simp
qed

subsection \<open>A connection that completes\<close>

text \<open>The events of a device whose bytes arrive in two pieces while the pool and the loader answer.\<close>

definition dialogue :: "bytes \<Rightarrow> bytes \<Rightarrow> string \<Rightarrow> bytes \<Rightarrow> bytes \<Rightarrow> bytes \<Rightarrow> event list" where
  "dialogue blob pt pem ct sig hello_wire =
     [Data 1 blob, Micro, Settle (GotBytes pt), Settle (GotKey (Some pem)), Settle (GotBytes ct),
      Settle (GotBytes sig), Data 2 hello_wire, Micro, Micro]"

lemma dialogue_start:
  assumes "length blob = 256"
  shows "\<exists>s1 fx. run (session_step env) (new_session date) [CallRun, Data t blob, Micro] = (s1, fx) \<and>
           task s1 = InHandshake \<lparr>pc = AtDecrypt blob, prog = \<lparr>p_stage = READ_COREID, p_coreId = None\<rparr>\<rparr> \<and>
           hands fx = 0 \<and> woken s1 = [] \<and> inq s1 = new_byte_queue \<and> written fx = env_nonce env \<and> incoming fx = []"
  using assms
  by (simp add: run_Cons start_run_eq new_session_def new_byte_queue_def read_queue_def wake_def read_def drain_def
      on_data_def push_def Let_def micro_def hs_start_def resume_handshake_def after_segment_def hs_resume.simps)

lemma dialogue_end:
  assumes "task s = InHandshake hs" and "pc hs = AtHello c k v" and "woken s = []" and "inq s = new_byte_queue"
    and "length head = 3" and "header_len head = length frame"
    and "hs_resume env hs (GotBytes frame) = (hs', [w])" and "pc hs' = Finished r"
  shows "\<exists>s'. run (session_step env) (read_queue FrameHead 3 s) [Data t (head @ frame), Micro, Micro] =
           (s', [Write w, EmitHandshake r]) \<and>
           at_position s' Check \<and> inq s' = new_byte_queue \<and> st s' = Connected \<and> coreId s' = Some (r_coreId r) \<and>
           aesKey s' = Some (r_aesKey r) \<and> ivIn s' = Some (r_ivIn r) \<and> ivOut s' = Some (r_ivOut r)"
proof -
  let ?s0 = "s\<lparr>inq := \<lparr>q_buf = [], q_waiters = [(FrameHead, 3)], q_closed = False\<rparr>\<rparr>"
  let ?s1 = "s\<lparr>lastHeard := t, idle_armed := True, inq := \<lparr>q_buf = frame, q_waiters = [], q_closed = False\<rparr>,
      woken := [Resolve FrameHead head]\<rparr>"
  let ?s2 = "?s1\<lparr>inq := \<lparr>q_buf = [], q_waiters = [], q_closed = False\<rparr>, woken := [Resolve FrameBody frame]\<rparr>"
  let ?s3 = "adopt r (?s2\<lparr>woken := [], task := InHandshake hs', hs_progress := Some (prog hs')\<rparr>)"
  have 0: "read_queue FrameHead 3 s = ?s0"
    using assms by (simp add: read_queue_def wake_def read_def drain_def new_byte_queue_def)
  have 1: "on_data t (head @ frame) ?s0 = ?s1"
    using assms by (simp add: on_data_def wake_def push_def drain_def Let_def)
  have 2: "micro env ?s1 = (?s2, [])"
    using assms by (simp add: micro_def read_queue_def wake_def read_def drain_def)
  have 3: "micro env ?s2 = (?s3, [Write w, EmitHandshake r])"
    using assms by (simp add: micro_def resume_handshake_def after_segment_def)
  show ?thesis
    unfolding 0
    by (rule exI [of _ ?s3]) (simp only: run_Cons session_step.simps fst_conv snd_conv 1 2 3 run.simps(1),
        simp add: adopt_def new_byte_queue_def)
qed

lemma written_Writes [simp]: "written (map Write ws) = concat ws"
  by (induction ws) simp_all

lemma segment_written: "written (snd (after_segment env seg s)) = concat (snd seg)"
proof (cases "pc (fst seg)")
  case (Failed e)
  have "written (snd (run_catch e s')) = []" for s'
    by (simp add: run_catch_def Let_def fail_silent)
  with Failed show ?thesis by (simp add: after_segment_def Let_def split_beta)
qed (simp_all add: after_segment_def Let_def split: option.split)

lemma segment_incoming: "incoming (snd (after_segment env seg s)) = []"
proof (cases "pc (fst seg)")
  case (Failed e)
  then show ?thesis by (simp add: after_segment_def Let_def split_beta run_catch_incoming)
qed (simp_all add: after_segment_def Let_def split: option.split)

text \<open>An answer of the pool or the loader that leads to another question.\<close>

lemma settle_next:
  assumes "task s = InHandshake hs" and "asks (pc hs)" and "hs_resume env hs r = (hs', out)"
    and "asks (pc hs') \<or> at_hello (pc hs')"
  shows "task (fst (settle env r s)) = InHandshake hs'" and "written (snd (settle env r s)) = concat out"
    and "incoming (snd (settle env r s)) = []"
proof -
  have s: "settle env r s = after_segment env (hs', out) s"
    using assms(1-3) by (cases "pc hs") (simp_all add: settle_def resume_handshake_def)
  show "task (fst (settle env r s)) = InHandshake hs'"
    unfolding s using assms(4) by (cases "pc hs'") (simp_all add: after_segment_def Let_def read_queue_def wake_def)
  show "written (snd (settle env r s)) = concat out" "incoming (snd (settle env r s)) = []"
    unfolding s by (simp_all add: segment_written segment_incoming)
qed

lemma settle_effects:
  fixes ct sig :: bytes
  assumes "task s = InHandshake \<lparr>pc = AtDecrypt blob, prog = \<lparr>p_stage = READ_COREID, p_coreId = None\<rparr>\<rparr>"
    and "identify env pt = Inr c" and "pem \<noteq> []" and "deriveAesParams (env_sessionKey env) = Inr p"
  defines "fx \<equiv> snd (run (session_step env) s [Settle (GotBytes pt), Settle (GotKey (Some pem)), Settle (GotBytes ct),
          Settle (GotBytes sig)])"
  shows "written fx = ct @ sig \<and> incoming fx = []"
proof -
  from assms(2) have pt: "\<not> length pt < 52" "take 40 pt = env_nonce env"
    by (auto simp: identify_def split: if_splits)
  let ?s1 = "fst (settle env (GotBytes pt) s)"
  let ?s2 = "fst (settle env (GotKey (Some pem)) ?s1)"
  let ?s3 = "fst (settle env (GotBytes ct) ?s2)"
  let ?c = "to_hex (take 12 (drop 40 pt))" and ?der = "if length pt > 52 then Some (drop 52 pt) else None"
  let ?g = "\<lambda>st. \<lparr>p_stage = st, p_coreId = Some ?c\<rparr>"
  note eval = hs_resume.simps after_decrypt_def after_core_key_def after_sign_def set_stage_def subarray_def
    NONCE_BYTES_def ID_BYTES_def Let_def
  have 1: "hs_resume env \<lparr>pc = AtDecrypt blob, prog = \<lparr>p_stage = READ_COREID, p_coreId = None\<rparr>\<rparr> (GotBytes pt) =
      (\<lparr>pc = AtCoreKey ?c ?der, prog = ?g GET_COREKEY\<rparr>, [])" using pt by (simp add: eval)
  have 2: "hs_resume env \<lparr>pc = AtCoreKey ?c ?der, prog = ?g GET_COREKEY\<rparr> (GotKey (Some pem)) =
      (\<lparr>pc = AtEncrypt ?c pem, prog = ?g SEND_SESSIONKEY\<rparr>, [])" using assms(3) by (simp add: eval)
  have 3: "hs_resume env \<lparr>pc = AtEncrypt ?c pem, prog = ?g SEND_SESSIONKEY\<rparr> (GotBytes ct) =
      (\<lparr>pc = AtSign ?c ct, prog = ?g SEND_SESSIONKEY\<rparr>, [])" by (simp add: eval)
  have 4: "hs_resume env \<lparr>pc = AtSign ?c ct, prog = ?g SEND_SESSIONKEY\<rparr> (GotBytes sig) =
      (\<lparr>pc = AtHello ?c (ap_key p) (ap_iv p), prog = ?g GET_HELLO\<rparr>, [ct @ sig])" using assms(4) by (simp add: eval)
  note n1 = settle_next [OF assms(1) _ 1, simplified]
  note n2 = settle_next [OF n1(1) _ 2, simplified]
  note n3 = settle_next [OF n2(1) _ 3, simplified]
  note n4 = settle_next [OF n3(1) _ 4, simplified]
  show ?thesis unfolding fx_def
    by (simp only: run_Cons run.simps(1) session_step.simps snd_conv written_append incoming_append
        n1 n2 n3 n4 append_Nil append_Nil2 written.simps(1) incoming.simps(1) simp_thms)
qed

text \<open>The whole dialogue: what has been written, and the state in which the read loop starts.\<close>

lemma dialogue_run:
  assumes "length blob = 256" and "identify env pt = Inr c" and "pem \<noteq> []" and "32 \<le> length (env_sessionKey env)"
    and "aesDecrypt (env_D env) (aes_key env) (start_iv env) hello = Inr hp" and "decode hp = Inr m"
    and "hello_out env (aes_key env) (start_iv env) = Inr (hct, hw)" and "encodeDeviceFrame hello = Inr hello_wire"
  obtains s fx r where "run (session_step env) (new_session date) (CallRun # dialogue blob pt pem ct sig hello_wire) = (s, fx)"
    and "EmitHandshake r \<in> set fx" and "r_coreId r = c" and "r_sessionKey r = env_sessionKey env"
    and "hands fx = 1" and "incoming fx = []" and "written fx = env_nonce env @ (ct @ sig) @ hw"
    and "st s = Connected" and "at_position s Check" and "inq s = new_byte_queue" and "coreId s = Some c"
    and "aesKey s = Some (aes_key env)" and "ivIn s = Some (take 16 hello)" and "ivOut s = Some (take 16 hct)"
proof -
  let ?p = "\<lparr>ap_key = aes_key env, ap_iv = start_iv env\<rparr>"
  let ?hs = "\<lparr>pc = AtHello c (aes_key env) (start_iv env), prog = \<lparr>p_stage = GET_HELLO, p_coreId = Some c\<rparr>\<rparr>"
  have p: "deriveAesParams (env_sessionKey env) = Inr ?p"
    using assms(4) by (simp add: deriveAesParams_def subarray_def)
  obtain s1 fx1 where s1: "run (session_step env) (new_session date) [CallRun, Data 1 blob, Micro] = (s1, fx1)"
    and t1: "task s1 = InHandshake \<lparr>pc = AtDecrypt blob, prog = \<lparr>p_stage = READ_COREID, p_coreId = None\<rparr>\<rparr>"
      "hands fx1 = 0" "woken s1 = []" "inq s1 = new_byte_queue" "written fx1 = env_nonce env" "incoming fx1 = []"
    using dialogue_start [OF assms(1), of env date 1] by blast
  let ?s2 = "s1\<lparr>task := InHandshake ?hs, hs_progress := Some (prog ?hs)\<rparr>"
  obtain fx2 where s2: "hands fx2 = 0"
    "run (session_step env) s1 [Settle (GotBytes pt), Settle (GotKey (Some pem)), Settle (GotBytes ct),
          Settle (GotBytes sig)] = (read_queue FrameHead 3 ?s2, fx2)"
    using settle_chain [OF t1(1) assms(2,3) p] by (auto simp: Let_def)
  have w2: "written fx2 = ct @ sig" "incoming fx2 = []"
    using settle_effects [OF t1(1) assms(2,3) p, of ct sig] by (simp_all only: s2(2) snd_conv)
  obtain hs' r where hello: "hs_resume env ?hs (GotBytes hello) = (hs', [hw])" "pc hs' = Finished r"
    using assms by (auto simp: hs_resume.simps after_hello_def send_hello_def Let_def hello_out_def [symmetric])
  then have r: "r_coreId r = c" "r_sessionKey r = env_sessionKey env" "r_aesKey r = aes_key env" "r_ivIn r = take 16 hello" "r_ivOut r = take 16 hct"
    using assms(5-7) by (auto simp: hs_resume.simps after_hello_def send_hello_def Let_def subarray_def set_stage_def
        hello_out_def [symmetric])
  from assms(8) have w: "hello_wire = (u16be (length hello) @ [SYNC_BYTE]) @ hello" and l: "length hello < 65536"
    by (auto simp: encodeDeviceFrame_def split: if_splits)
  have head: "length (u16be (length hello) @ [SYNC_BYTE]) = 3"
    "header_len (u16be (length hello) @ [SYNC_BYTE]) = length hello"
    using header_len_u16be [OF l] by simp_all
  have "task ?s2 = InHandshake ?hs" "pc ?hs = AtHello c (aes_key env) (start_iv env)" "woken ?s2 = []"
    "inq ?s2 = new_byte_queue" using t1 by simp_all
  from dialogue_end [OF this head hello, of 2] obtain s3 where s3:
    "run (session_step env) (read_queue FrameHead 3 ?s2) [Data 2 hello_wire, Micro, Micro] =
      (s3, [Write hw, EmitHandshake r])" "at_position s3 Check" "inq s3 = new_byte_queue" "st s3 = Connected"
    "coreId s3 = Some c" "aesKey s3 = Some (aes_key env)" "ivIn s3 = Some (take 16 hello)" "ivOut s3 = Some (take 16 hct)"
    unfolding w r by blast
  have "run (session_step env) (new_session date) ([CallRun, Data 1 blob, Micro] @ [Settle (GotBytes pt),
      Settle (GotKey (Some pem)), Settle (GotBytes ct), Settle (GotBytes sig)] @ [Data 2 hello_wire, Micro, Micro]) =
      (s3, fx1 @ fx2 @ [Write hw, EmitHandshake r])"
    by (simp only: run_append s1 s2(2) s3(1) fst_conv snd_conv append.assoc)
  then have "run (session_step env) (new_session date) (CallRun # dialogue blob pt pem ct sig hello_wire) =
      (s3, fx1 @ fx2 @ [Write hw, EmitHandshake r])" by (simp add: dialogue_def)
  then show thesis by (rule that [where r = r]) (use t1 s2(1) w2 s3 r in simp_all)
qed

text \<open>A successful handshake on what the device and the back end give is what the session runs.\<close>

lemma dialogue_completes:
  assumes "pc (fst (runHandshake env w)) = Finished r"
    and "w_coreId_blob w = Inr blob" and "length blob = 256"
    and "w_plaintext w = Inr pt" and "w_corePubPem w = Inr (Some pem)"
    and "w_sessionCiphertext w = Inr ct" and "w_signature w = Inr sig"
    and "w_helloFrame w = Inr hello" and "encodeDeviceFrame hello = Inr hello_wire"
  shows "\<exists>s fx. run (session_step env) (new_session date) (CallRun # dialogue blob pt pem ct sig hello_wire) = (s, fx) \<and>
           hands fx = 1 \<and> st s = Connected \<and> at_position s Check \<and> inq s = new_byte_queue \<and>
           coreId s = Some (r_coreId r) \<and>
           aesKey s = Some (aes_key env) \<and>
           (\<exists>hct hw. hello_out env (aes_key env) (start_iv env) = Inr (hct, hw) \<and> ivOut s = Some (take 16 hct))"
proof -
  from assms(1) have "straight_line env w = Inr r" by (simp add: finished_straight)
  then obtain p hp m hct hw where *:
    "identify env pt = Inr (r_coreId r)" "pem \<noteq> []" "deriveAesParams (env_sessionKey env) = Inr p"
    "aesDecrypt (env_D env) (ap_key p) (ap_iv p) hello = Inr hp" "decode hp = Inr m"
    "hello_out env (ap_key p) (ap_iv p) = Inr (hct, hw)"
    by (rule straight_line_success) (use assms in auto)
  from *(3) have p: "32 \<le> length (env_sessionKey env)" "ap_key p = aes_key env" "ap_iv p = start_iv env"
    by (auto simp: deriveAesParams_def subarray_def split: if_splits)
  show ?thesis
    by (rule dialogue_run [OF assms(3) *(1,2) p(1) *(4-6) [unfolded p(2,3)] assms(9)]) (use *(6) [unfolded p(2,3)] in blast)
qed

subsection \<open>A concrete connection\<close>

text \<open>A session that handles no frame and is asked to send nothing sends nothing.\<close>

fun is_call :: "event \<Rightarrow> bool" where
  "is_call (CallSend name opts) \<longleftrightarrow> True"
| "is_call (CallRequest name opts rnd) \<longleftrightarrow> True"
| "is_call _ \<longleftrightarrow> False"

lemma nothing_sent: "opened_run env s es = [] \<Longrightarrow> list_all (Not \<circ> is_call) es \<Longrightarrow> sent_run env s es = []"
proof (induction es arbitrary: s)
  case (Cons e es)
  then have "sent env s e = []" by (cases e) simp_all
  with Cons show ?case by simp
qed simp

definition toy_hello :: bytes where
  "toy_hello = [0x50, 2, 0xAB, 0xCD, 0xB1, 0x68, 0xFF, 0, 5, 0, 3, 5, 5, 5, 5, 5]"

definition toy_dialogue :: "event list" where
  "toy_dialogue = dialogue (replicate 256 0) (replicate 40 1 @ replicate 12 0xAB) ''DEVICE PEM'' [3] [4]
     ([0, 16, 0xFF] @ toy_hello)"

lemma toy_hello_wire: "encodeDeviceFrame toy_hello = Inr ([0, 16, 0xFF] @ toy_hello)"
  by (simp add: toy_hello_def encodeDeviceFrame_def u16be_def SYNC_BYTE_def)

lemma toy_world_256:
  defines "w \<equiv> toy_world\<lparr>w_coreId_blob := Inr (replicate 256 0)\<rparr>"
  shows "\<exists>r. pc (fst (runHandshake toy_env w)) = Finished r"
    and "w_coreId_blob w = Inr (replicate 256 0)" and "w_plaintext w = Inr (replicate 40 1 @ replicate 12 0xAB)"
    and "w_corePubPem w = Inr (Some ''DEVICE PEM'')" and "w_sessionCiphertext w = Inr [3]"
    and "w_signature w = Inr [4]" and "w_helloFrame w = Inr toy_hello"
proof -
  have "straight_line toy_env w = straight_line toy_env toy_world"
    by (simp add: w_def straight_line_def toy_world_def)
  with toy_finishes show "\<exists>r. pc (fst (runHandshake toy_env w)) = Finished r" by (auto simp: finished_straight)
qed (simp_all add: w_def toy_world_def toy_hello_def)

lemma toy_completes:
  obtains s fx k where "run (session_step toy_env) (new_session 0) (CallRun # toy_dialogue) = (s, fx)" and "hands fx = 1"
    and "inq s = new_byte_queue" and "coreId s = Some k"
proof -
  from toy_world_256(1) obtain r where
    r: "pc (fst (runHandshake toy_env (toy_world\<lparr>w_coreId_blob := Inr (replicate 256 0)\<rparr>))) = Finished r" ..
  from dialogue_completes [OF r toy_world_256(2) length_replicate toy_world_256(3-7) toy_hello_wire, of 0]
  show thesis using that unfolding toy_dialogue_def by blast
qed

lemma toy_received: "received toy_dialogue = replicate 256 0 @ ([0, 16, 0xFF] @ toy_hello) @ []"
  by (simp add: toy_dialogue_def dialogue_def received_def)

text \<open>The first frame after that Hello, for the message \<open>[1]\<close>.\<close>

definition toy_frame :: bytes where
  "toy_frame = cbc_encrypt xor_cipher (replicate 16 2) toy_hello (pkcs7_pad [1])"

lemma toy_keys: "aes_key toy_env = replicate 16 2" "start_iv toy_env = replicate 16 2" "take 16 toy_hello = toy_hello"
  by (simp_all add: toy_env_def toy_hello_def)

lemma toy_frame_length: "length toy_frame = 16"
proof -
  have "length toy_hello = 16" by (simp add: toy_hello_def)
  then have "aesEncrypt xor_cipher (replicate 16 2) toy_hello [1] = Inr toy_frame"
    by (simp add: aesEncrypt_Inr toy_frame_def)
  from aes_roundtrip_ct(2) [OF xor_cipher_ok this] show ?thesis by simp
qed

theorem device_messages_arrive_witness:
  "\<exists>n. opened_run toy_env (new_session 0)
         (CallRun # toy_dialogue @ [Data 3 [0, 16], Micro, Data 4 (0xFF # toy_frame), Micro, Micro, Micro]) =
       map Inr (take n [[1]])"
proof -
  let ?es = "toy_dialogue @ [Data 3 [0, 16], Micro, Data 4 (0xFF # toy_frame), Micro, Micro, Micro]"
  let ?wire = "[0, 16, 0xFF] @ toy_frame"
  have c: "block_cipher xor_cipher (env_D toy_env)" by (simp add: toy_env_def xor_cipher_ok)
  have w: "list_all2 (\<lambda>ct w. encodeDeviceFrame ct = Inr w)
      (chain xor_cipher (aes_key toy_env) (take 16 toy_hello) [[1]]) [?wire]"
    using toy_frame_length unfolding toy_keys
    by (simp add: toy_frame_def [symmetric] encodeDeviceFrame_def u16be_def SYNC_BYTE_def)
  have r: "received ?es @ [] = replicate 256 0 @ ([0, 16, 0xFF] @ toy_hello) @ concat [?wire]"
    using toy_received by (simp add: received_def)
  obtain s fx where "run (session_step toy_env) (new_session 0) (CallRun # ?es) = (s, fx)" by fastforce
  from device_messages_arrive [OF c length_replicate toy_hello_wire w r this] show ?thesis by blast
qed

end
