(* ===== verification/Aes.thy ===== *)
theory Aes
  imports Crypto
begin

section \<open>The cipher that Node provides: AES-128\<close>

text \<open>
  \<open>aesEncrypt\<close> and \<open>aesDecrypt\<close> of \<open>lib/crypto.js\<close> ask Node for \<open>aes-128-cbc\<close>. \<open>Crypto\<close> writes out the
  chaining and takes the block function as a parameter; this theory gives that parameter its value,
  the cipher of FIPS 197: a block is the list of its 16 bytes, in the order of the input, which
  is the state column by column.
\<close>

subsection \<open>The four transformations\<close>

definition sbox_rows :: "bytes list" where
  "sbox_rows = [
    [0x63, 0x7C, 0x77, 0x7B, 0xF2, 0x6B, 0x6F, 0xC5, 0x30, 0x01, 0x67, 0x2B, 0xFE, 0xD7, 0xAB, 0x76],
    [0xCA, 0x82, 0xC9, 0x7D, 0xFA, 0x59, 0x47, 0xF0, 0xAD, 0xD4, 0xA2, 0xAF, 0x9C, 0xA4, 0x72, 0xC0],
    [0xB7, 0xFD, 0x93, 0x26, 0x36, 0x3F, 0xF7, 0xCC, 0x34, 0xA5, 0xE5, 0xF1, 0x71, 0xD8, 0x31, 0x15],
    [0x04, 0xC7, 0x23, 0xC3, 0x18, 0x96, 0x05, 0x9A, 0x07, 0x12, 0x80, 0xE2, 0xEB, 0x27, 0xB2, 0x75],
    [0x09, 0x83, 0x2C, 0x1A, 0x1B, 0x6E, 0x5A, 0xA0, 0x52, 0x3B, 0xD6, 0xB3, 0x29, 0xE3, 0x2F, 0x84],
    [0x53, 0xD1, 0x00, 0xED, 0x20, 0xFC, 0xB1, 0x5B, 0x6A, 0xCB, 0xBE, 0x39, 0x4A, 0x4C, 0x58, 0xCF],
    [0xD0, 0xEF, 0xAA, 0xFB, 0x43, 0x4D, 0x33, 0x85, 0x45, 0xF9, 0x02, 0x7F, 0x50, 0x3C, 0x9F, 0xA8],
    [0x51, 0xA3, 0x40, 0x8F, 0x92, 0x9D, 0x38, 0xF5, 0xBC, 0xB6, 0xDA, 0x21, 0x10, 0xFF, 0xF3, 0xD2],
    [0xCD, 0x0C, 0x13, 0xEC, 0x5F, 0x97, 0x44, 0x17, 0xC4, 0xA7, 0x7E, 0x3D, 0x64, 0x5D, 0x19, 0x73],
    [0x60, 0x81, 0x4F, 0xDC, 0x22, 0x2A, 0x90, 0x88, 0x46, 0xEE, 0xB8, 0x14, 0xDE, 0x5E, 0x0B, 0xDB],
    [0xE0, 0x32, 0x3A, 0x0A, 0x49, 0x06, 0x24, 0x5C, 0xC2, 0xD3, 0xAC, 0x62, 0x91, 0x95, 0xE4, 0x79],
    [0xE7, 0xC8, 0x37, 0x6D, 0x8D, 0xD5, 0x4E, 0xA9, 0x6C, 0x56, 0xF4, 0xEA, 0x65, 0x7A, 0xAE, 0x08],
    [0xBA, 0x78, 0x25, 0x2E, 0x1C, 0xA6, 0xB4, 0xC6, 0xE8, 0xDD, 0x74, 0x1F, 0x4B, 0xBD, 0x8B, 0x8A],
    [0x70, 0x3E, 0xB5, 0x66, 0x48, 0x03, 0xF6, 0x0E, 0x61, 0x35, 0x57, 0xB9, 0x86, 0xC1, 0x1D, 0x9E],
    [0xE1, 0xF8, 0x98, 0x11, 0x69, 0xD9, 0x8E, 0x94, 0x9B, 0x1E, 0x87, 0xE9, 0xCE, 0x55, 0x28, 0xDF],
    [0x8C, 0xA1, 0x89, 0x0D, 0xBF, 0xE6, 0x42, 0x68, 0x41, 0x99, 0x2D, 0x0F, 0xB0, 0x54, 0xBB, 0x16]
  ]"

definition sub_byte :: "byte \<Rightarrow> byte" where
  "sub_byte b = sbox_rows ! (unat b div 16) ! (unat b mod 16)"

definition inv_sub_byte :: "byte \<Rightarrow> byte" where
  "inv_sub_byte c = word_of_nat (length (takeWhile (\<lambda>x. x \<noteq> c) (concat sbox_rows)))"

definition shift_rows :: "bytes \<Rightarrow> bytes" where
  "shift_rows s = map (\<lambda>i. s ! ((i + 4 * (i mod 4)) mod 16)) [0..<16]"

definition inv_shift_rows :: "bytes \<Rightarrow> bytes" where
  "inv_shift_rows s = map (\<lambda>i. s ! ((i + 12 * (i mod 4)) mod 16)) [0..<16]"

text \<open>Multiplication by \<open>x\<close> in the field of bytes.\<close>

definition xtime :: "byte \<Rightarrow> byte" where
  "xtime b = push_bit 1 b XOR (if bit b 7 then 0x1B else 0)"

definition mul3 :: "byte \<Rightarrow> byte" where "mul3 b = xtime b XOR b"
definition mul9 :: "byte \<Rightarrow> byte" where "mul9 b = xtime (xtime (xtime b)) XOR b"
definition mul11 :: "byte \<Rightarrow> byte" where "mul11 b = xtime (xtime (xtime b)) XOR xtime b XOR b"
definition mul13 :: "byte \<Rightarrow> byte" where "mul13 b = xtime (xtime (xtime b)) XOR xtime (xtime b) XOR b"
definition mul14 :: "byte \<Rightarrow> byte" where "mul14 b = xtime (xtime (xtime b)) XOR xtime (xtime b) XOR xtime b"

fun mix_columns :: "bytes \<Rightarrow> bytes" where
  "mix_columns (a # b # c # d # s) =
     [xtime a XOR mul3 b XOR c XOR d, a XOR xtime b XOR mul3 c XOR d,
      a XOR b XOR xtime c XOR mul3 d, mul3 a XOR b XOR c XOR xtime d] @ mix_columns s"
| "mix_columns s = s"

fun inv_mix_columns :: "bytes \<Rightarrow> bytes" where
  "inv_mix_columns (a # b # c # d # s) =
     [mul14 a XOR mul11 b XOR mul13 c XOR mul9 d, mul9 a XOR mul14 b XOR mul11 c XOR mul13 d,
      mul13 a XOR mul9 b XOR mul14 c XOR mul11 d, mul11 a XOR mul13 b XOR mul9 c XOR mul14 d] @ inv_mix_columns s"
| "inv_mix_columns s = s"

subsection \<open>The key schedule\<close>

text \<open>The next round key: its first word is substituted and rotated from the last one before it.\<close>

definition next_key :: "byte \<Rightarrow> bytes \<Rightarrow> bytes" where
  "next_key rcon k =
     (let w0 = xor_bytes (take 4 k) (xor_bytes (map sub_byte [k ! 13, k ! 14, k ! 15, k ! 12]) [rcon, 0, 0, 0]);
          w1 = xor_bytes (take 4 (drop 4 k)) w0;
          w2 = xor_bytes (take 4 (drop 8 k)) w1;
          w3 = xor_bytes (take 4 (drop 12 k)) w2
      in w0 @ w1 @ w2 @ w3)"

fun round_keys :: "byte list \<Rightarrow> bytes \<Rightarrow> bytes list" where
  "round_keys [] k = []"
| "round_keys (r # rs) k = next_key r k # round_keys rs (next_key r k)"

subsection \<open>Cipher and inverse cipher\<close>

definition full_round :: "bytes \<Rightarrow> bytes \<Rightarrow> bytes" where
  "full_round k s = xor_bytes (mix_columns (shift_rows (map sub_byte s))) k"

definition last_round :: "bytes \<Rightarrow> bytes \<Rightarrow> bytes" where
  "last_round k s = xor_bytes (shift_rows (map sub_byte s)) k"

definition inv_full_round :: "bytes \<Rightarrow> bytes \<Rightarrow> bytes" where
  "inv_full_round k s = map inv_sub_byte (inv_shift_rows (inv_mix_columns (xor_bytes s k)))"

definition inv_last_round :: "bytes \<Rightarrow> bytes \<Rightarrow> bytes" where
  "inv_last_round k s = map inv_sub_byte (inv_shift_rows (xor_bytes s k))"

definition middle_keys :: "bytes \<Rightarrow> bytes list" where
  "middle_keys = round_keys [0x01, 0x02, 0x04, 0x08, 0x10, 0x20, 0x40, 0x80, 0x1B]"

definition aes128 :: block_fun where
  "aes128 key b =
     (let ks = middle_keys key
      in last_round (next_key 0x36 (last ks)) (fold full_round ks (xor_bytes b key)))"

definition aes128_inv :: block_fun where
  "aes128_inv key c =
     (let ks = middle_keys key
      in xor_bytes (foldr inv_full_round ks (inv_last_round (next_key 0x36 (last ks)) c)) key)"

subsection \<open>Each transformation is undone\<close>

lemma sbox_length: "length (concat sbox_rows) = 256"
  by (simp add: sbox_rows_def)

lemma nth_rows:
  "list_all (\<lambda>r. length r = n) rs \<Longrightarrow> i < n * length rs \<Longrightarrow> concat rs ! i = rs ! (i div n) ! (i mod n)"
proof (induction rs arbitrary: i)
  case (Cons r rs)
  show ?case
  proof (cases "i < n")
    case False
    with Cons.prems have "0 < n" "n \<le> i" by auto
    with Cons show ?thesis by (simp add: nth_append le_div_geq le_mod_geq)
  qed (use Cons.prems in \<open>simp add: nth_append\<close>)
qed simp

text \<open>A list is free of duplicates if splitting it by its bits leaves nothing but single elements.\<close>

fun splits :: "nat list \<Rightarrow> bytes \<Rightarrow> bool" where
  "splits [] xs = (case xs of [] \<Rightarrow> True | [x] \<Rightarrow> True | _ \<Rightarrow> False)"
| "splits (n # ns) xs = (splits ns (filter (\<lambda>b. bit b n) xs) \<and> splits ns (filter (\<lambda>b. \<not> bit b n) xs))"

lemma distinct_parts: "distinct (filter P xs) \<Longrightarrow> distinct (filter (\<lambda>x. \<not> P x) xs) \<Longrightarrow> distinct xs"
  by (induction xs) (auto split: if_splits)

lemma splits_distinct: "splits ns xs \<Longrightarrow> distinct xs"
proof (induction ns arbitrary: xs)
  case Nil
  then show ?case by (auto split: list.splits)
next
  case (Cons n ns)
  then show ?case using distinct_parts [of "\<lambda>b. bit b n" xs] by simp
qed

lemma sbox_distinct: "distinct (concat sbox_rows)"
proof (rule splits_distinct)
  show "splits [7, 6, 5, 4, 3, 2, 1, 0] (concat sbox_rows)" by code_simp
qed

lemma takeWhile_nth:
  "distinct xs \<Longrightarrow> i < length xs \<Longrightarrow> length (takeWhile (\<lambda>x. x \<noteq> xs ! i) xs) = i"
proof (induction xs arbitrary: i)
  case (Cons x xs)
  then show ?case by (cases i) auto
qed simp

lemma sub_byte_nth: "sub_byte b = concat sbox_rows ! unat b"
proof -
  have "list_all (\<lambda>r. length r = 16) sbox_rows" "unat b < 16 * length sbox_rows"
    by (simp_all add: sbox_rows_def)
  then show ?thesis by (simp add: sub_byte_def nth_rows)
qed

lemma inv_sub_byte [simp]: "inv_sub_byte (sub_byte b) = b"
proof -
  have "unat b < length (concat sbox_rows)" by (simp add: sbox_length)
  from takeWhile_nth [OF sbox_distinct this] show ?thesis by (simp add: inv_sub_byte_def sub_byte_nth)
qed

lemma shift_rows_length [simp]: "length (shift_rows s) = 16" "length (inv_shift_rows s) = 16"
  by (simp_all add: shift_rows_def inv_shift_rows_def)

lemma sixteen:
  assumes "length s = 16"
  obtains a b c d e f g h i j k l m n p q where "s = [a, b, c, d, e, f, g, h, i, j, k, l, m, n, p, q]"
  using assms by (auto simp: numeral_eq_Suc length_Suc_conv)

lemma inv_shift_rows: "length s = 16 \<Longrightarrow> inv_shift_rows (shift_rows s) = s"
  by (erule sixteen) (simp add: shift_rows_def inv_shift_rows_def upt_rec)

lemma xtime_xor [simp]: "xtime (a XOR b) = xtime a XOR xtime b"
  by (auto simp: xtime_def push_bit_xor bit_xor_iff ac_simps)

lemma inv_mix_columns: "inv_mix_columns (mix_columns s) = s"
proof (induction s rule: mix_columns.induct)
  case (1 a b c d s)
  then show ?case
    by (simp add: mul3_def mul9_def mul11_def mul13_def mul14_def ac_simps)
qed simp_all

lemma mix_columns_length [simp]: "length (mix_columns s) = length s" "length (inv_mix_columns s) = length s"
  by (induction s rule: mix_columns.induct) simp_all

lemma next_key_length [simp]: "length k = 16 \<Longrightarrow> length (next_key r k) = 16"
  by (simp add: next_key_def Let_def)

lemma round_keys_length: "length k = 16 \<Longrightarrow> list_all (\<lambda>k. length k = 16) (round_keys rs k)"
  by (induction rs arbitrary: k) (simp_all add: Let_def)

lemma round_undone:
  assumes "length k = 16" and "length s = 16"
  shows "inv_full_round k (full_round k s) = s" and "inv_last_round k (last_round k s) = s"
    and "length (full_round k s) = 16" and "length (last_round k s) = 16"
    and "length (inv_full_round k s) = 16" and "length (inv_last_round k s) = 16"
  using assms
  by (simp_all add: inv_full_round_def full_round_def inv_last_round_def last_round_def xor_bytes_cancel
      inv_mix_columns inv_shift_rows comp_def)

lemma rounds_undone:
  assumes "list_all (\<lambda>k. length k = 16) ks" and "length s = 16"
  shows "foldr inv_full_round ks (fold full_round ks s) = s" and "length (fold full_round ks s) = 16"
    and "length (foldr inv_full_round ks s) = 16"
  using assms by (induction ks arbitrary: s) (simp_all add: round_undone)

subsection \<open>The block cipher\<close>

lemma aes128_undone:
  assumes "length key = 16" and "length b = 16"
  shows "aes128_inv key (aes128 key b) = b" and "length (aes128 key b) = 16" and "length (aes128_inv key b) = 16"
proof -
  have ks: "list_all (\<lambda>k. length k = 16) (middle_keys key)" 
    unfolding middle_keys_def by (rule round_keys_length [OF assms(1)])
  moreover have "middle_keys key \<noteq> []" by (simp add: middle_keys_def Let_def)
  ultimately have k: "length (next_key 0x36 (last (middle_keys key))) = 16"
    by (simp add: list_all_iff)
  show "aes128_inv key (aes128 key b) = b" "length (aes128 key b) = 16" "length (aes128_inv key b) = 16"
    using assms k ks
    by (simp_all add: aes128_def aes128_inv_def Let_def rounds_undone round_undone xor_bytes_cancel)
qed

lemma aes128_block_cipher: "block_cipher aes128 aes128_inv"
  by (simp add: block_cipher_def aes128_undone)

text \<open>The example of FIPS 197, appendix C.1.\<close>

subsection \<open>Test vector\<close>

text \<open>The example of FIPS 197, appendix C.1, round by round.\<close>

lemmas aes_eval = sub_byte_def sbox_rows_def full_round_def last_round_def next_key_def Let_def xor_bytes_def
  mul3_def xtime_def shift_rows_def upt_rec

lemma fips_keys:
  "next_key 0x01 [0x00, 0x01, 0x02, 0x03, 0x04, 0x05, 0x06, 0x07, 0x08, 0x09, 0x0A, 0x0B, 0x0C, 0x0D, 0x0E, 0x0F] =
     [0xD6, 0xAA, 0x74, 0xFD, 0xD2, 0xAF, 0x72, 0xFA, 0xDA, 0xA6, 0x78, 0xF1, 0xD6, 0xAB, 0x76, 0xFE]"
  "next_key 0x02 [0xD6, 0xAA, 0x74, 0xFD, 0xD2, 0xAF, 0x72, 0xFA, 0xDA, 0xA6, 0x78, 0xF1, 0xD6, 0xAB, 0x76, 0xFE] =
     [0xB6, 0x92, 0xCF, 0x0B, 0x64, 0x3D, 0xBD, 0xF1, 0xBE, 0x9B, 0xC5, 0x00, 0x68, 0x30, 0xB3, 0xFE]"
  "next_key 0x04 [0xB6, 0x92, 0xCF, 0x0B, 0x64, 0x3D, 0xBD, 0xF1, 0xBE, 0x9B, 0xC5, 0x00, 0x68, 0x30, 0xB3, 0xFE] =
     [0xB6, 0xFF, 0x74, 0x4E, 0xD2, 0xC2, 0xC9, 0xBF, 0x6C, 0x59, 0x0C, 0xBF, 0x04, 0x69, 0xBF, 0x41]"
  "next_key 0x08 [0xB6, 0xFF, 0x74, 0x4E, 0xD2, 0xC2, 0xC9, 0xBF, 0x6C, 0x59, 0x0C, 0xBF, 0x04, 0x69, 0xBF, 0x41] =
     [0x47, 0xF7, 0xF7, 0xBC, 0x95, 0x35, 0x3E, 0x03, 0xF9, 0x6C, 0x32, 0xBC, 0xFD, 0x05, 0x8D, 0xFD]"
  "next_key 0x10 [0x47, 0xF7, 0xF7, 0xBC, 0x95, 0x35, 0x3E, 0x03, 0xF9, 0x6C, 0x32, 0xBC, 0xFD, 0x05, 0x8D, 0xFD] =
     [0x3C, 0xAA, 0xA3, 0xE8, 0xA9, 0x9F, 0x9D, 0xEB, 0x50, 0xF3, 0xAF, 0x57, 0xAD, 0xF6, 0x22, 0xAA]"
  "next_key 0x20 [0x3C, 0xAA, 0xA3, 0xE8, 0xA9, 0x9F, 0x9D, 0xEB, 0x50, 0xF3, 0xAF, 0x57, 0xAD, 0xF6, 0x22, 0xAA] =
     [0x5E, 0x39, 0x0F, 0x7D, 0xF7, 0xA6, 0x92, 0x96, 0xA7, 0x55, 0x3D, 0xC1, 0x0A, 0xA3, 0x1F, 0x6B]"
  "next_key 0x40 [0x5E, 0x39, 0x0F, 0x7D, 0xF7, 0xA6, 0x92, 0x96, 0xA7, 0x55, 0x3D, 0xC1, 0x0A, 0xA3, 0x1F, 0x6B] =
     [0x14, 0xF9, 0x70, 0x1A, 0xE3, 0x5F, 0xE2, 0x8C, 0x44, 0x0A, 0xDF, 0x4D, 0x4E, 0xA9, 0xC0, 0x26]"
  "next_key 0x80 [0x14, 0xF9, 0x70, 0x1A, 0xE3, 0x5F, 0xE2, 0x8C, 0x44, 0x0A, 0xDF, 0x4D, 0x4E, 0xA9, 0xC0, 0x26] =
     [0x47, 0x43, 0x87, 0x35, 0xA4, 0x1C, 0x65, 0xB9, 0xE0, 0x16, 0xBA, 0xF4, 0xAE, 0xBF, 0x7A, 0xD2]"
  "next_key 0x1B [0x47, 0x43, 0x87, 0x35, 0xA4, 0x1C, 0x65, 0xB9, 0xE0, 0x16, 0xBA, 0xF4, 0xAE, 0xBF, 0x7A, 0xD2] =
     [0x54, 0x99, 0x32, 0xD1, 0xF0, 0x85, 0x57, 0x68, 0x10, 0x93, 0xED, 0x9C, 0xBE, 0x2C, 0x97, 0x4E]"
  "next_key 0x36 [0x54, 0x99, 0x32, 0xD1, 0xF0, 0x85, 0x57, 0x68, 0x10, 0x93, 0xED, 0x9C, 0xBE, 0x2C, 0x97, 0x4E] =
     [0x13, 0x11, 0x1D, 0x7F, 0xE3, 0x94, 0x4A, 0x17, 0xF3, 0x07, 0xA7, 0x8B, 0x4D, 0x2B, 0x30, 0xC5]"
  by (simp_all add: aes_eval)

lemma fips_rounds:
  "full_round [0xD6, 0xAA, 0x74, 0xFD, 0xD2, 0xAF, 0x72, 0xFA, 0xDA, 0xA6, 0x78, 0xF1, 0xD6, 0xAB, 0x76, 0xFE]
     [0x00, 0x10, 0x20, 0x30, 0x40, 0x50, 0x60, 0x70, 0x80, 0x90, 0xA0, 0xB0, 0xC0, 0xD0, 0xE0, 0xF0] =
   [0x89, 0xD8, 0x10, 0xE8, 0x85, 0x5A, 0xCE, 0x68, 0x2D, 0x18, 0x43, 0xD8, 0xCB, 0x12, 0x8F, 0xE4]"
  "full_round [0xB6, 0x92, 0xCF, 0x0B, 0x64, 0x3D, 0xBD, 0xF1, 0xBE, 0x9B, 0xC5, 0x00, 0x68, 0x30, 0xB3, 0xFE]
     [0x89, 0xD8, 0x10, 0xE8, 0x85, 0x5A, 0xCE, 0x68, 0x2D, 0x18, 0x43, 0xD8, 0xCB, 0x12, 0x8F, 0xE4] =
   [0x49, 0x15, 0x59, 0x8F, 0x55, 0xE5, 0xD7, 0xA0, 0xDA, 0xCA, 0x94, 0xFA, 0x1F, 0x0A, 0x63, 0xF7]"
  "full_round [0xB6, 0xFF, 0x74, 0x4E, 0xD2, 0xC2, 0xC9, 0xBF, 0x6C, 0x59, 0x0C, 0xBF, 0x04, 0x69, 0xBF, 0x41]
     [0x49, 0x15, 0x59, 0x8F, 0x55, 0xE5, 0xD7, 0xA0, 0xDA, 0xCA, 0x94, 0xFA, 0x1F, 0x0A, 0x63, 0xF7] =
   [0xFA, 0x63, 0x6A, 0x28, 0x25, 0xB3, 0x39, 0xC9, 0x40, 0x66, 0x8A, 0x31, 0x57, 0x24, 0x4D, 0x17]"
  "full_round [0x47, 0xF7, 0xF7, 0xBC, 0x95, 0x35, 0x3E, 0x03, 0xF9, 0x6C, 0x32, 0xBC, 0xFD, 0x05, 0x8D, 0xFD]
     [0xFA, 0x63, 0x6A, 0x28, 0x25, 0xB3, 0x39, 0xC9, 0x40, 0x66, 0x8A, 0x31, 0x57, 0x24, 0x4D, 0x17] =
   [0x24, 0x72, 0x40, 0x23, 0x69, 0x66, 0xB3, 0xFA, 0x6E, 0xD2, 0x75, 0x32, 0x88, 0x42, 0x5B, 0x6C]"
  "full_round [0x3C, 0xAA, 0xA3, 0xE8, 0xA9, 0x9F, 0x9D, 0xEB, 0x50, 0xF3, 0xAF, 0x57, 0xAD, 0xF6, 0x22, 0xAA]
     [0x24, 0x72, 0x40, 0x23, 0x69, 0x66, 0xB3, 0xFA, 0x6E, 0xD2, 0x75, 0x32, 0x88, 0x42, 0x5B, 0x6C] =
   [0xC8, 0x16, 0x77, 0xBC, 0x9B, 0x7A, 0xC9, 0x3B, 0x25, 0x02, 0x79, 0x92, 0xB0, 0x26, 0x19, 0x96]"
  "full_round [0x5E, 0x39, 0x0F, 0x7D, 0xF7, 0xA6, 0x92, 0x96, 0xA7, 0x55, 0x3D, 0xC1, 0x0A, 0xA3, 0x1F, 0x6B]
     [0xC8, 0x16, 0x77, 0xBC, 0x9B, 0x7A, 0xC9, 0x3B, 0x25, 0x02, 0x79, 0x92, 0xB0, 0x26, 0x19, 0x96] =
   [0xC6, 0x2F, 0xE1, 0x09, 0xF7, 0x5E, 0xED, 0xC3, 0xCC, 0x79, 0x39, 0x5D, 0x84, 0xF9, 0xCF, 0x5D]"
  "full_round [0x14, 0xF9, 0x70, 0x1A, 0xE3, 0x5F, 0xE2, 0x8C, 0x44, 0x0A, 0xDF, 0x4D, 0x4E, 0xA9, 0xC0, 0x26]
     [0xC6, 0x2F, 0xE1, 0x09, 0xF7, 0x5E, 0xED, 0xC3, 0xCC, 0x79, 0x39, 0x5D, 0x84, 0xF9, 0xCF, 0x5D] =
   [0xD1, 0x87, 0x6C, 0x0F, 0x79, 0xC4, 0x30, 0x0A, 0xB4, 0x55, 0x94, 0xAD, 0xD6, 0x6F, 0xF4, 0x1F]"
  "full_round [0x47, 0x43, 0x87, 0x35, 0xA4, 0x1C, 0x65, 0xB9, 0xE0, 0x16, 0xBA, 0xF4, 0xAE, 0xBF, 0x7A, 0xD2]
     [0xD1, 0x87, 0x6C, 0x0F, 0x79, 0xC4, 0x30, 0x0A, 0xB4, 0x55, 0x94, 0xAD, 0xD6, 0x6F, 0xF4, 0x1F] =
   [0xFD, 0xE3, 0xBA, 0xD2, 0x05, 0xE5, 0xD0, 0xD7, 0x35, 0x47, 0x96, 0x4E, 0xF1, 0xFE, 0x37, 0xF1]"
  "full_round [0x54, 0x99, 0x32, 0xD1, 0xF0, 0x85, 0x57, 0x68, 0x10, 0x93, 0xED, 0x9C, 0xBE, 0x2C, 0x97, 0x4E]
     [0xFD, 0xE3, 0xBA, 0xD2, 0x05, 0xE5, 0xD0, 0xD7, 0x35, 0x47, 0x96, 0x4E, 0xF1, 0xFE, 0x37, 0xF1] =
   [0xBD, 0x6E, 0x7C, 0x3D, 0xF2, 0xB5, 0x77, 0x9E, 0x0B, 0x61, 0x21, 0x6E, 0x8B, 0x10, 0xB6, 0x89]"
  "last_round [0x13, 0x11, 0x1D, 0x7F, 0xE3, 0x94, 0x4A, 0x17, 0xF3, 0x07, 0xA7, 0x8B, 0x4D, 0x2B, 0x30, 0xC5]
     [0xBD, 0x6E, 0x7C, 0x3D, 0xF2, 0xB5, 0x77, 0x9E, 0x0B, 0x61, 0x21, 0x6E, 0x8B, 0x10, 0xB6, 0x89] =
   [0x69, 0xC4, 0xE0, 0xD8, 0x6A, 0x7B, 0x04, 0x30, 0xD8, 0xCD, 0xB7, 0x80, 0x70, 0xB4, 0xC5, 0x5A]"
  by (simp_all add: aes_eval)

lemma aes128_fips:
  "aes128 [0x00, 0x01, 0x02, 0x03, 0x04, 0x05, 0x06, 0x07, 0x08, 0x09, 0x0A, 0x0B, 0x0C, 0x0D, 0x0E, 0x0F]
     [0x00, 0x11, 0x22, 0x33, 0x44, 0x55, 0x66, 0x77, 0x88, 0x99, 0xAA, 0xBB, 0xCC, 0xDD, 0xEE, 0xFF] =
   [0x69, 0xC4, 0xE0, 0xD8, 0x6A, 0x7B, 0x04, 0x30, 0xD8, 0xCD, 0xB7, 0x80, 0x70, 0xB4, 0xC5, 0x5A]"
  by (simp add: aes128_def middle_keys_def Let_def fips_keys fips_rounds xor_bytes_def)

end
