(* ===== verification/Sha1.thy ===== *)
theory Sha1
  imports Prelude
begin

section \<open>The digest that Node provides: HMAC-SHA1\<close>

text \<open>
  \<open>hmacSha1\<close> of \<open>lib/crypto.js\<close> is Node's \<open>createHmac('sha1', key)\<close>. This theory is SHA-1 of FIPS
  180 on byte strings, with its 32-bit words, and HMAC of RFC 2104 over it.
\<close>

subsection \<open>SHA-1\<close>

definition rotl :: "nat \<Rightarrow> 32 word \<Rightarrow> 32 word" where
  "rotl n w = push_bit n w OR drop_bit (32 - n) w"

text \<open>The message is followed by a one bit, zeros, and its length in bits as 64 bits.\<close>

definition be64 :: "nat \<Rightarrow> bytes" where
  "be64 n = map (\<lambda>i. word_of_nat (n div 256 ^ i)) [7, 6, 5, 4, 3, 2, 1, 0]"

definition sha1_pad :: "bytes \<Rightarrow> bytes" where
  "sha1_pad m = m @ [0x80] @ replicate ((119 - length m mod 64) mod 64) 0 @ be64 (8 * length m)"

fun be_words :: "bytes \<Rightarrow> 32 word list" where
  "be_words (a # b # c # d # bs) =
     (push_bit 24 (ucast a) OR push_bit 16 (ucast b) OR push_bit 8 (ucast c) OR ucast d) # be_words bs"
| "be_words _ = []"

text \<open>The 80 words of a block, the latest first.\<close>

definition next_word :: "32 word list \<Rightarrow> 32 word list" where
  "next_word ws = rotl 1 (ws ! 2 XOR ws ! 7 XOR ws ! 13 XOR ws ! 15) # ws"

definition schedule :: "32 word list \<Rightarrow> 32 word list" where
  "schedule ws = rev (fold (\<lambda>_. next_word) [16..<80] (rev ws))"

type_synonym sha1_state = "32 word \<times> 32 word \<times> 32 word \<times> 32 word \<times> 32 word"

text \<open>The round functions and constants.\<close>

definition sha1_rounds :: "((32 word \<Rightarrow> 32 word \<Rightarrow> 32 word \<Rightarrow> 32 word) \<times> 32 word) list" where
  "sha1_rounds =
     replicate 20 (\<lambda>b c d. (b AND c) OR (NOT b AND d), 0x5A827999) @
     replicate 20 (\<lambda>b c d. b XOR c XOR d, 0x6ED9EBA1) @
     replicate 20 (\<lambda>b c d. (b AND c) OR (b AND d) OR (c AND d), 0x8F1BBCDC) @
     replicate 20 (\<lambda>b c d. b XOR c XOR d, 0xCA62C1D6)"

fun sha1_step :: "((32 word \<Rightarrow> 32 word \<Rightarrow> 32 word \<Rightarrow> 32 word) \<times> 32 word) \<times> 32 word \<Rightarrow> sha1_state \<Rightarrow> sha1_state" where
  "sha1_step ((f, k), w) (a, b, c, d, e) = (rotl 5 a + f b c d + e + k + w, a, rotl 30 b, c, d)"

fun add_states :: "sha1_state \<Rightarrow> sha1_state \<Rightarrow> sha1_state" where
  "add_states (a, b, c, d, e) (a', b', c', d', e') = (a + a', b + b', c + c', d + d', e + e')"

definition sha1_block :: "32 word list \<Rightarrow> sha1_state \<Rightarrow> sha1_state" where
  "sha1_block ws s = add_states s (fold sha1_step (zip sha1_rounds (schedule ws)) s)"

function sha1_blocks :: "32 word list \<Rightarrow> sha1_state \<Rightarrow> sha1_state" where
  "sha1_blocks ws s = (if ws = [] then s else sha1_blocks (drop 16 ws) (sha1_block (take 16 ws) s))"
  by pat_completeness auto
termination
  by (relation "measure (\<lambda>(ws, s). length ws)") auto

declare sha1_blocks.simps [simp del]

definition be_bytes :: "32 word \<Rightarrow> bytes" where
  "be_bytes w = map (\<lambda>n. ucast (drop_bit n w)) [24, 16, 8, 0]"

definition sha1 :: "bytes \<Rightarrow> bytes" where
  "sha1 m =
     (case sha1_blocks (be_words (sha1_pad m)) (0x67452301, 0xEFCDAB89, 0x98BADCFE, 0x10325476, 0xC3D2E1F0) of
        (a, b, c, d, e) \<Rightarrow> be_bytes a @ be_bytes b @ be_bytes c @ be_bytes d @ be_bytes e)"

subsection \<open>HMAC\<close>

definition hmac_key :: "bytes \<Rightarrow> bytes" where
  "hmac_key key = (let k = if length key > 64 then sha1 key else key in k @ replicate (64 - length k) 0)"

definition hmac_sha1 :: "bytes \<Rightarrow> bytes \<Rightarrow> bytes" where
  "hmac_sha1 key m =
     sha1 (map (\<lambda>b. b XOR 0x5C) (hmac_key key) @ sha1 (map (\<lambda>b. b XOR 0x36) (hmac_key key) @ m))"

definition hmacSha1 :: "bytes \<Rightarrow> bytes \<Rightarrow> bytes" where
  "hmacSha1 ciphertext key = hmac_sha1 key ciphertext"

subsection \<open>Sizes\<close>

lemma sha1_length [simp]: "length (sha1 m) = 20"
  by (simp add: sha1_def be_bytes_def split: prod.split)

lemma hmacSha1_length [simp]: "length (hmacSha1 ct key) = 20"
  by (simp add: hmacSha1_def hmac_sha1_def)

lemma hmac_key_length: "length (hmac_key key) = 64"
  by (simp add: hmac_key_def Let_def)

lemma sha1_pad_blocks: "length (sha1_pad m) mod 64 = 0"
proof -
  define r q where "r = length m mod 64" and "q = length m div 64"
  then have "length m = 64 * q + r" "r < 64" by simp_all
  moreover have "(119 - r) mod 64 = (if r < 56 then 55 - r else 119 - r)" using \<open>r < 64\<close> by (simp add: mod_if)
  ultimately show ?thesis
    by (simp add: sha1_pad_def be64_def r_def [symmetric])
qed

subsection \<open>Test vectors\<close>

lemma rotl_eval: "rotl n w = word_of_int (take_bit 32 (push_bit n (uint w)) OR drop_bit (32 - n) (uint w))"
  by (rule bit_word_eqI) (auto simp: rotl_def bit_simps)

lemma drop_eval: "drop_bit n w = word_of_int (drop_bit n (uint w))" for w :: "32 word"
  by (rule bit_word_eqI) (auto simp: bit_simps)

lemma replicate_20: "replicate 20 x = [x, x, x, x, x, x, x, x, x, x, x, x, x, x, x, x, x, x, x, x]"
  by (simp add: numeral_eq_Suc)

lemmas sha1_eval =
  rotl_eval drop_eval next_word_def schedule_def sha1_rounds_def replicate_20 sha1_block_def be_bytes_def

text \<open>FIPS 180, for the message \<open>abc\<close>.\<close>

lemma pad_abc:
  "be_words (sha1_pad [0x61, 0x62, 0x63]) = [0x61626380, 0, 0, 0, 0, 0, 0, 0, 0, 0, 0, 0, 0, 0, 0, 0x18]"
proof -
  have "replicate 52 (0 :: byte) = replicate 20 0 @ replicate 20 0 @ replicate 12 0"
    by (simp flip: replicate_add)
  moreover have "replicate 12 (0 :: byte) = [0, 0, 0, 0, 0, 0, 0, 0, 0, 0, 0, 0]" by (simp add: numeral_eq_Suc)
  ultimately show ?thesis by (simp add: sha1_pad_def be64_def replicate_20)
qed

lemma sha1_abc:
  "sha1 [0x61, 0x62, 0x63] =
     [0xA9, 0x99, 0x3E, 0x36, 0x47, 0x06, 0x81, 0x6A, 0xBA, 0x3E, 0x25, 0x71, 0x78, 0x50, 0xC2, 0x6C,
      0x9C, 0xD0, 0xD8, 0x9D]"
  by (simp add: sha1_def pad_abc sha1_blocks.simps sha1_eval)

end
