(* ===== verification/Session_Input.thy ===== *)
theory Session_Input
  imports Session_Opening
begin

section \<open>Every frame received is acted on\<close>

text \<open>
  The frame pump reads the frames of the stream; this theory says what becomes of them, in terms of
  what the host sees and of the session's keys: each frame is decrypted under the rolling IV, and
  each message in it is handed over. A frame that does not decrypt closes the session, which then
  reads no more; so a session that waits for input has decrypted all it was sent.
\<close>

subsection \<open>A session closed in its loop\<close>

definition dead :: "session \<Rightarrow> bool" where
  "dead s \<longleftrightarrow> st s = Closed \<and> (at_position s Check \<or> at_position s Over)"

lemma closed_finalize: "st s = Closed \<Longrightarrow> finalize s = (s, [])"
  by (simp add: finalize_def)

lemma closed_stays:
  assumes "st s = Closed" and "\<not> in_handshake s" and "task s \<noteq> NotRun"
  shows "st (fst (session_step env s e)) = Closed"
proof -
  from step_life [OF assms(3), of env e] assms(1,2)
  have "closes (snd (session_step env s e)) + 1 = of_bool (st (fst (session_step env s e)) = Closed) +
      late True (snd (session_step env s e))" and "hands (snd (session_step env s e)) = 0"
    by (auto simp: life_step_def)
  then show ?thesis by (simp add: late_none of_bool_def split: if_splits)
qed

lemma dead_step:
  assumes "dead s"
  shows "dead (fst (session_step env s e))"
proof -
  have c: "st s = Closed" and p: "at_position s Check \<or> at_position s Over" using assms by (simp_all add: dead_def)
  then have "\<not> in_handshake s" "task s \<noteq> NotRun" by (auto simp: in_handshake_def)
  note st = closed_stays [OF c this, of env e]
  have "at_position (fst (session_step env s e)) Check \<or> at_position (fst (session_step env s e)) Over"
  proof (cases "at_position s Over")
    case True
    then show ?thesis using over_step by blast
  next
    case False
    with p have k: "at_position s Check" by blast
    show ?thesis
    proof (cases e)
      case (CallSend name opts)
      with k still_position [OF call_send_still, where p = Check] show ?thesis by (simp del: at_position.simps)
    next
      case (CallRequest name opts rnd)
      with k still_position [OF request_still, where p = Check] show ?thesis by (simp del: at_position.simps)
    next
      case (RequestTimeout rid)
      with k still_position [OF timeout_still, where p = Check] show ?thesis by (simp del: at_position.simps)
    qed (use k c in \<open>simp_all add: settle_def micro_def loop_check_def on_data_def wake_def push_def drain_def Let_def
          fail_state disconnect_state closed_finalize idle_timeout_def\<close>)
  qed
  with st show ?thesis by (simp add: dead_def)
qed

lemma dead_run: "dead s \<Longrightarrow> task (fst (run (session_step env) s es)) \<noteq> AwaitFrame"
proof (induction es arbitrary: s)
  case (Cons e es)
  from Cons.IH [OF dead_step [OF Cons.prems]] show ?case by (simp add: run_Cons)
qed (auto simp: dead_def)

text \<open>A frame that does not decrypt ends the loop.\<close>

lemma bad_frame_dead:
  assumes "at_position s (GotBody ct)" and "opened env s Micro = [Inl e]"
  shows "dead (fst (micro env s))"
proof -
  let ?s = "s\<lparr>woken := [], task := LoopCheck\<rparr>"
  let ?f = "Error (''AES decrypt failed: '' @ message e)"
  from assms have "with_keys (aesKey s) (ivIn s) (\<lambda>k v. aesDecrypt (env_D env) k v ct) = Inl e"
    by (simp add: opened_def handled_def)
  then have h: "handleFrame env ct ?s = (let (s', fx) = fail_session ?f ?s in (s', fx, Inr ()))"
    by (simp add: handleFrame_def)
  have "fst (micro env s) = fst (fail_session ?f ?s)"
    using assms(1) by (simp add: micro_def got_frame_def h split_beta)
  moreover have "at_position (fst (handleFrame env ct ?s)) Check" using handleFrame_check [of ?s env ct] assms(1) by simp
  moreover have "st (fst (fail_session ?f ?s)) = Closed" using fail_shuts [of ?s ?f] by (simp add: shuts_def)
  ultimately show ?thesis by (simp add: dead_def h split_beta)
qed

subsection \<open>What the frames open to\<close>

lemma run_reads:
  assumes "at_position s p" and "aesKey s = Some k" and "ivIn s = Some v"
    and "task (fst (run (session_step env) s es)) = AwaitFrame"
  shows "opened_run env s es = device_rx (env_D env) k v (frames_run env s es) \<and>
         list_all (Not \<circ> isl) (device_rx (env_D env) k v (frames_run env s es)) \<and>
         ivIn (fst (run (session_step env) s es)) = Some (last (v # map (take 16) (frames_run env s es)))"
  using assms
proof (induction es arbitrary: s p v)
  case (Cons e es)
  let ?s1 = "fst (session_step env s e)"
  obtain p1 where p1: "at_position ?s1 p1" using at_position_step [OF Cons.prems(1)] by blast
  note step = step_keys [OF Cons.prems(1), of env e]
  have t: "task (fst (run (session_step env) ?s1 es)) = AwaitFrame" using Cons.prems(4) by (simp add: run_Cons)
  show ?case
  proof (cases "handled s e")
    case Nil
    then have o: "opened env s e = []" by (simp add: opened_def)
    with step Cons.prems have "aesKey ?s1 = Some k" "ivIn ?s1 = Some v" by simp_all
    from Cons.IH [OF p1 this t] Nil o show ?thesis by (simp add: run_Cons)
  next
    case h: (Cons ct cts)
    then have e: "e = Micro" and p: "p = GotBody ct" and cts: "cts = []"
      using Cons.prems(1) by (cases p; auto simp: handled_def split: if_splits)+
    have o: "opened env s e = [aesDecrypt (env_D env) k v ct]"
      using h cts Cons.prems(2,3) by (simp add: opened_def with_keys_def)
    have "\<exists>pt. aesDecrypt (env_D env) k v ct = Inr pt"
    proof (rule ccontr)
      assume "\<not> ?thesis"
      then obtain x where "aesDecrypt (env_D env) k v ct = Inl x" by (cases "aesDecrypt (env_D env) k v ct") auto
      then have "opened env s Micro = [Inl x]" using o e by simp
      from bad_frame_dead [OF Cons.prems(1) [unfolded p] this] have "dead ?s1" by (simp add: e)
      from dead_run [OF this, of env es] t show False by simp
    qed
    then obtain pt where pt: "aesDecrypt (env_D env) k v ct = Inr pt" ..
    with step o h Cons.prems(2) have "aesKey ?s1 = Some k" "ivIn ?s1 = Some (take 16 ct)" by simp_all
    from Cons.IH [OF p1 this t] h cts o pt show ?thesis by (simp add: run_Cons)
  qed
qed simp

text \<open>C12. No frame is held back and none is passed over. A session that enters its read loop, with any
  bytes buffered behind the Hello, goes through any sequence of events. Whenever it then waits for
  input (its promise for the next read is not settled): all the complete frames that a
  \<open>FrameReader\<close> finds in these bytes and those received since have been decrypted, each under the IV
  that the one before it left, and none of them failed to; the host has been handed exactly the
  messages in them, but for keep-alives, by \<open>message\<close> events or as responses, in order; and the
  inbound IV is that of the last frame.
\<close>

theorem session_frames_complete:
  assumes "at_position s Check" and "aesKey s = Some k" and "ivIn s = Some v"
    and "run (session_step env) s es = (s', fx)" and "task s' = AwaitFrame" and "woken s' = []"
  shows "let fs = fst (feed new_frame_reader (q_buf (inq s) @ received es));
             plains = device_rx (env_D env) k v fs in
           list_all (Not \<circ> isl) plains \<and> incoming fx = concat (map app_messages plains) \<and>
           ivIn s' = Some (last (v # map (take 16) fs))"
proof -
  have s': "s' = fst (run (session_step env) s es)" "fx = snd (run (session_step env) s es)" using assms(4) by simp_all
  have fs: "frames_run env s es = fst (feed new_frame_reader (q_buf (inq s) @ received es))"
    using run_frames_all [OF assms(1) assms(5,6) [unfolded s']] by (simp add: frames_def feed_eq new_frame_reader_def)
  from run_reads [OF assms(1-3) assms(5) [unfolded s']] run_incoming [OF assms(1), of env es]
  show ?thesis unfolding Let_def fs [symmetric] s' by simp
qed

text \<open>The concrete session, which has half a frame buffered when it enters its loop.\<close>

definition toy_pipelined :: session where
  "toy_pipelined = toy_session\<lparr>inq := \<lparr>q_buf = [0, 16], q_waiters = [], q_closed = False\<rparr>\<rparr>"

lemma toy_pipelined_run:
  fixes ct :: bytes
  assumes "length ct = 16" and "aesDecrypt xor_cipher (replicate 16 2) (replicate 16 2) ct = Inr [0x50, 2, 0, 7]"
  defines "r \<equiv> run (session_step toy_env) toy_pipelined [Micro, Data 2 (0xFF # ct), Micro, Micro, Micro]"
  shows "task (fst r) = AwaitFrame" and "woken (fst r) = []"
  using assms(1,2)
  by (simp_all add: r_def toy_pipelined_def toy_session_def new_session_def new_byte_queue_def pump_eval header_len_def
      handleFrame_def with_keys_def toy_env_def decode_eval dispatch_def classify_def first_uri_path_def)

theorem session_frames_complete_witness:
  "\<exists>ct. map messageId (incoming (snd (run (session_step toy_env) toy_pipelined
          [Micro, Data 2 (0xFF # ct), Micro, Micro, Micro]))) = [7]"
proof -
  let ?k = "replicate 16 2 :: bytes" and ?m = "[0x50, 2, 0, 7] :: bytes"
  obtain ct where e: "aesEncrypt xor_cipher ?k ?k ?m = Inr ct" by (simp add: aesEncrypt_Inr)
  from aes_roundtrip_ct [OF xor_cipher_ok e]
  have ct: "length ct = 16" "aesDecrypt xor_cipher ?k ?k ct = Inr ?m" by simp_all
  let ?es = "[Micro, Data 2 (0xFF # ct), Micro, Micro, Micro]"
  have s: "at_position toy_pipelined Check" "aesKey toy_pipelined = Some ?k" "ivIn toy_pipelined = Some ?k"
    by (simp_all add: toy_pipelined_def toy_session_def new_session_def new_byte_queue_def)
  have "q_buf (inq toy_pipelined) @ received ?es = [0, 16, 0xFF] @ ct" by (simp add: toy_pipelined_def received_def)
  moreover have "frames ([0, 16, 0xFF] @ ct) = [ct]"
    by (subst frames_header) (simp_all add: header_len_def ct(1) frames_short)
  ultimately have "fst (feed new_frame_reader (q_buf (inq toy_pipelined) @ received ?es)) = [ct]"
    by (simp add: frames_def feed_eq new_frame_reader_def)
  with session_frames_complete [OF s prod.collapse [symmetric] toy_pipelined_run [OF ct]] ct(2)
  have "incoming (snd (run (session_step toy_env) toy_pipelined ?es)) = app_messages (Inr ?m)"
    by (simp add: Let_def toy_env_def)
  also have "\<dots> = [\<lparr>mtype = 1, mcode = 2, messageId = 7, token = [], options = [], payload = []\<rparr>]"
    by (simp add: decode_eval classify_def first_uri_path_def)
  finally show ?thesis by (intro exI [of _ ct]) simp
qed

end
