(* ===== verification/Session_Tokens.thy ===== *)
theory Session_Tokens
  imports Session_Messages Session_Whole
begin

section \<open>Tokens: a response finds its request\<close>

text \<open>
  A request is known by a token of one random byte, and two tables follow it: the pending map, from
  the token to the request, and the armed timers, from the request to the token. Here is when the
  two agree: as long as no token is drawn while a request that holds it is unsettled. Then a
  response resolves its own request, however many events have happened since the request was sent.
\<close>

lemma hex_byte_inject [simp]: "hex_byte a = hex_byte b \<longleftrightarrow> a = b"
  by (auto dest: hex_byte_inj)

subsection \<open>Agreement on a token\<close>

text \<open>Every armed timer of the token belongs to the request that the pending map holds for it.\<close>

definition agree_on :: "string \<Rightarrow> session \<Rightarrow> bool" where
  "agree_on key s \<longleftrightarrow>
     (\<forall>(rid, k, name, ms)\<in>set (timers s). k = key \<longrightarrow> map_of (pending s) key = Some rid)"

definition unused :: "string \<Rightarrow> session \<Rightarrow> bool" where
  "unused key s \<longleftrightarrow> (\<forall>(rid, k, name, ms)\<in>set (timers s). k \<noteq> key)"

lemma agree_onD: "agree_on key s \<Longrightarrow> (rid, key, name, ms) \<in> set (timers s) \<Longrightarrow> map_of (pending s) key = Some rid"
  by (auto simp: agree_on_def)

lemma agree_onI: "(\<And>rid name ms. (rid, key, name, ms) \<in> set (timers s) \<Longrightarrow> map_of (pending s) key = Some rid) \<Longrightarrow> agree_on key s"
  by (auto simp: agree_on_def)

lemma unused_agrees: "unused key s \<Longrightarrow> agree_on key s"
  by (auto simp: unused_def agree_on_def)

text \<open>A handler that only takes away, and never one table's side of an agreement alone.\<close>

definition tidies :: "session \<Rightarrow> session \<Rightarrow> bool" where
  "tidies s s' \<longleftrightarrow>
     (books s \<longrightarrow> set (timers s') \<subseteq> set (timers s) \<and> (\<forall>key. agree_on key s \<longrightarrow> agree_on key s'))"

lemma tidies_same: "timers s' = timers s \<Longrightarrow> pending s' = pending s \<Longrightarrow> tidies s s'"
  by (simp add: tidies_def agree_on_def)

lemma tidies_trans: "tidies s s1 \<Longrightarrow> accounts s (s1, fx) \<Longrightarrow> tidies s1 s2 \<Longrightarrow> tidies s s2"
  by (auto simp: tidies_def accounts_def)

lemma tidies_cong:
  assumes "tidies s s1" and "timers s = timers t" "pending s = pending t" "next_req s = next_req t" "st s = st t"
    and "timers s1 = timers t1" "pending s1 = pending t1"
  shows "tidies t t1"
  using assms by (simp add: tidies_def agree_on_def books_def)

lemma tidies_remove:
  assumes "books s" and "map_of (timers s) rid = Some (key, name, ms)"
    and "timers s' = AList.delete rid (timers s)" and "pending s' = AList.delete key (pending s)"
  shows "tidies s s'"
  unfolding tidies_def
proof (intro impI conjI allI)
  show "set (timers s') \<subseteq> set (timers s)" by (auto simp: assms(3) delete_filter)
  fix k
  assume a: "agree_on k s"
  show "agree_on k s'"
  proof (rule agree_onI)
    fix r n m
    assume "(r, k, n, m) \<in> set (timers s')"
    then have t: "(r, k, n, m) \<in> set (timers s)" and r: "r \<noteq> rid" by (auto simp: assms(3) delete_filter)
    from agree_onD [OF a t] have p: "map_of (pending s) k = Some r" .
    from map_of_SomeD [OF assms(2)] a have "k = key \<Longrightarrow> map_of (pending s) k = Some rid" by (blast dest: agree_onD)
    with p r have "k \<noteq> key" by auto
    with p show "map_of (pending s') k = Some r" by (simp add: assms(4) delete_conv)
  qed
qed

lemma fold_delete_set:
  "set (fold (\<lambda>(key, rid). AList.delete rid) ps xs) = {x \<in> set xs. fst x \<notin> snd ` set ps}"
proof (induction ps arbitrary: xs)
  case (Cons p ps)
  then show ?case by (cases p) (auto simp: delete_filter)
qed simp

lemma finalize_tidies: "tidies s (fst (finalize s))"
proof (cases "st s = Closed")
  case True
  then show ?thesis by (simp add: finalize_def tidies_same)
next
  case False
  have t: "set (timers (fst (finalize s))) = {x \<in> set (timers s). fst x \<notin> snd ` set (pending s)}"
    using False by (simp add: finalize_def Let_def fold_delete_set)
  have "agree_on key (fst (finalize s))" if "agree_on key s" for key
  proof (rule agree_onI)
    fix rid name ms
    assume "(rid, key, name, ms) \<in> set (timers (fst (finalize s)))"
    then have "(rid, key, name, ms) \<in> set (timers s)" and no: "rid \<notin> snd ` set (pending s)" by (simp_all add: t)
    from agree_onD [OF that this(1)] have "(key, rid) \<in> set (pending s)" by (rule map_of_SomeD)
    with no show "map_of (pending (fst (finalize s))) key = Some rid" by force
  qed
  with t show ?thesis by (auto simp: tidies_def)
qed

lemma shut_tidies: "tidies s (fst (disconnect s))" "tidies s (fst (fail_session e s))"
  by (simp_all add: disconnect_state fail_state finalize_tidies)

lemma plainly_tidies: "plainly s r \<Longrightarrow> tidies s (fst r)"
  by (simp add: plainly_def tidies_same)

lemma timeout_tidies: "tidies s (fst (request_timeout rid s))"
proof (cases "map_of (timers s) rid")
  case None
  then show ?thesis by (simp add: request_timeout_def tidies_same)
next
  case (Some x)
  obtain key name ms where x: "x = (key, name, ms)" by (cases x)
  show ?thesis
  proof (cases "books s")
    case True
    from tidies_remove [OF True Some [unfolded x]] show ?thesis by (simp add: request_timeout_def Some x)
  qed (simp add: tidies_def)
qed

lemma dispatch_tidies: "tidies s (fst (dispatch env msg s))"
proof (cases "classify msg \<noteq> Some ''Ping'' \<and> token msg \<noteq> [] \<and> map_of (pending s) (to_hex (token msg)) \<noteq> None")
  case True
  then obtain rid where rid: "map_of (pending s) (to_hex (token msg)) = Some rid" by blast
  show ?thesis
  proof (cases "books s")
    case b: True
    from booksD(5) [OF b map_of_SomeD [OF rid]] obtain n m
      where "map_of (timers s) rid = Some (to_hex (token msg), n, m)" by blast
    from tidies_remove [OF b this] True rid show ?thesis by (simp add: dispatch_def)
  qed (simp add: tidies_def)
next
  case False
  then have "plainly s (act_effects (dispatch env msg s))"
    using sendPlain_plainly [of s env] by (auto simp: dispatch_def plainly_def split: sum.split)
  from plainly_tidies [OF this] show ?thesis by simp
qed

lemma handleFrame_tidies: "tidies s (fst (handleFrame env ct s))"
proof (cases "with_keys (aesKey s) (ivIn s) (\<lambda>k v. aesDecrypt (env_D env) k v ct)")
  case (Inl e)
  then show ?thesis by (simp add: handleFrame_def split_beta shut_tidies)
next
  case pt: (Inr pt)
  show ?thesis
  proof (cases "decode pt")
    case (Inl e)
    with pt show ?thesis by (simp add: handleFrame_def tidies_same)
  next
    case (Inr m)
    let ?s = "s\<lparr>ivIn := Some (subarray ct 0 16), recvCounter := messageId m\<rparr>"
    have "tidies s (fst (dispatch env m ?s))"
      using dispatch_tidies [of ?s env m] by (rule tidies_cong) simp_all
    with pt Inr show ?thesis by (simp add: handleFrame_def)
  qed
qed

lemma run_catch_tidies: "tidies s (fst (run_catch e s))"
proof -
  have "tidies s (fst (fail_session e (s\<lparr>task := Ended, hs_error := Some e\<rparr>)))"
    using shut_tidies(2) by (rule tidies_cong) simp_all
  then show ?thesis by (simp add: run_catch_def Let_def tidies_same)
qed

lemma after_segment_tidies: "tidies s (fst (after_segment env seg s))"
proof (cases "pc (fst seg)")
  case (Failed e)
  have "tidies s (fst (run_catch e (s\<lparr>task := InHandshake (fst seg), hs_progress := Some (prog (fst seg))\<rparr>)))"
    using run_catch_tidies by (rule tidies_cong) simp_all
  with Failed show ?thesis by (simp add: after_segment_def Let_def split_beta)
qed (simp_all add: after_segment_def Let_def adopt_def tidies_same)

lemma got_frame_tidies: "tidies s (fst (got_frame env ct s))"
proof -
  let ?r = "handleFrame env ct (s\<lparr>task := LoopCheck\<rparr>)"
  have h: "tidies s (fst ?r)" using handleFrame_tidies by (rule tidies_cong) simp_all
  have "accounts s (fst ?r, fst (snd ?r))" using handleFrame_accounts by (rule field_accounts) simp_all
  from tidies_trans [OF h this run_catch_tidies] h show ?thesis
    by (simp add: got_frame_def split_beta split: sum.split)
qed

lemma resume_read_tidies: "tidies s (fst (resume_read env r s))"
  by (cases "(env, r, s)" rule: resume_read.cases)
     (auto simp: resume_handshake_def after_segment_tidies got_frame_tidies run_catch_tidies tidies_same
        split: task.split)

lemma micro_tidies: "tidies s (fst (micro env s))"
proof (cases "woken s")
  case Nil
  then show ?thesis by (simp add: micro_def loop_check_def tidies_same)
next
  case (Cons r rs)
  have "tidies s (fst (resume_read env r (s\<lparr>woken := rs\<rparr>)))"
    using resume_read_tidies by (rule tidies_cong) simp_all
  with Cons show ?thesis by (simp add: micro_def)
qed

subsection \<open>One event\<close>

fun drawn :: "event list \<Rightarrow> byte list" where
  "drawn [] = []"
| "drawn (CallRequest name opts rnd # es) = rnd # drawn es"
| "drawn (_ # es) = drawn es"

lemma drawn_Cons: "drawn (e # es) = drawn [e] @ drawn es"
  by (cases e) simp_all

lemma step_tidies:
  assumes "task s \<noteq> NotRun" and "drawn [e] = []"
  shows "tidies s (fst (session_step env s e))"
proof (cases e)
  case IdleTimeout
  have "tidies s (fst (fail_session (Error ''idle timeout'') (s\<lparr>idle_armed := False\<rparr>)))"
    using shut_tidies(2) by (rule tidies_cong) simp_all
  then show ?thesis using IdleTimeout by (simp add: idle_timeout_def tidies_same)
next
  case (Settle reply)
  then show ?thesis
    by (simp add: settle_def resume_handshake_def after_segment_tidies tidies_same split: task.split hs_pc.split)
qed (use assms in \<open>simp_all add: on_data_def Let_def tidies_same shut_tidies finalize_tidies timeout_tidies
      micro_tidies plainly_tidies [OF call_send_plainly]\<close>)

text \<open>A request adds its own timer and its own entry, or, when it fails at once, nothing but takes away
  the entry of its token.\<close>

lemma request_tables:
  assumes "books s"
  shows "(timers (fst (request env name opts rnd s)) = timers s \<and>
            (\<forall>key. key \<noteq> to_hex [rnd] \<longrightarrow> map_of (pending (fst (request env name opts rnd s))) key = map_of (pending s) key)) \<or>
         (\<exists>ms. timers (fst (request env name opts rnd s)) = timers s @ [(next_req s, to_hex [rnd], name, ms)] \<and>
            pending (fst (request env name opts rnd s)) = AList.update (to_hex [rnd]) (next_req s) (pending s))"
proof (cases "st s = Connected")
  case True
  let ?rid = "next_req s" and ?key = "to_hex [rnd]"
  define ms where "ms = (case ro_timeoutMs opts of None \<Rightarrow> 5000 | Some ms \<Rightarrow> ms)"
  define s1 where "s1 = s\<lparr>next_req := ?rid + 1, timers := AList.update ?rid (?key, name, ms) (timers s),
      pending := AList.update ?key ?rid (pending s)\<rparr>"
  let ?r = "send env name (request_send opts rnd) s1"
  have t1: "timers s1 = timers s @ [(?rid, ?key, name, ms)]" unfolding s1_def by (rule enter_books(2) [OF assms True])
  have fresh: "?rid \<notin> fst ` set (timers s)" using booksD(4) [OF assms] by blast
  then have d: "AList.delete ?rid (timers s) = timers s" by (force simp: delete_filter filter_id_conv)
  have pl: "plainly s1 (act_effects ?r)" by (rule send_plainly)
  have req: "fst (request env name opts rnd s) =
      (case snd (snd ?r) of
         Inr _ \<Rightarrow> fst ?r
       | Inl e \<Rightarrow> (fst ?r)\<lparr>pending := AList.delete ?key (pending (fst ?r)), timers := AList.delete ?rid (timers (fst ?r))\<rparr>)"
    by (cases "snd (snd ?r)") (use True in \<open>simp_all add: request_def Let_def split_beta s1_def ms_def\<close>)
  have p1: "pending s1 = AList.update ?key ?rid (pending s)" by (simp add: s1_def)
  show ?thesis
  proof (cases "snd (snd ?r)")
    case (Inr mid)
    with pl t1 p1 show ?thesis by (intro disjI2 exI [of _ ms]) (simp add: req plainly_def)
  next
    case (Inl e)
    with pl t1 p1 d show ?thesis
      by (intro disjI1) (simp add: req plainly_def delete_conv update_conv, simp add: delete_filter)
  qed
qed (simp add: request_def Let_def)

lemma request_agrees:
  assumes "books s" and "key = to_hex [rnd] \<longrightarrow> unused key s" and "agree_on key s"
  shows "agree_on key (fst (request env name opts rnd s))"
proof (rule agree_onI)
  fix rid n m
  assume t: "(rid, key, n, m) \<in> set (timers (fst (request env name opts rnd s)))"
  have old: "(rid, key, n, m) \<in> set (timers s) \<Longrightarrow> key \<noteq> to_hex [rnd] \<and> map_of (pending s) key = Some rid"
    using assms(2) agree_onD [OF assms(3)] by (auto simp: unused_def)
  from request_tables [OF assms(1), of env name opts rnd] t old
  show "map_of (pending (fst (request env name opts rnd s))) key = Some rid"
    by (auto simp: update_conv)
qed

lemma step_agrees:
  assumes "books s" and "task s \<noteq> NotRun" and "\<And>rnd. rnd \<in> set (drawn [e]) \<Longrightarrow> key = to_hex [rnd] \<Longrightarrow> unused key s"
    and "agree_on key s"
  shows "agree_on key (fst (session_step env s e))"
proof (cases "drawn [e] = []")
  case True
  from step_tidies [OF assms(2) this, of env] assms(1,4) show ?thesis by (simp add: tidies_def)
next
  case False
  then obtain name opts rnd where e: "e = CallRequest name opts rnd" by (cases e) simp_all
  with assms(3) have "key = to_hex [rnd] \<longrightarrow> unused key s" by simp
  from request_agrees [OF assms(1) this assms(4)] show ?thesis by (simp add: e)
qed

text \<open>A timer that is armed after an event was armed before it, or is that of the request just called.\<close>

lemma step_timers:
  assumes "books s" and "task s \<noteq> NotRun" and "(rid, key, x) \<in> set (timers (fst (session_step env s e)))"
  shows "(rid, key, x) \<in> set (timers s) \<or> rid = next_req s \<and> (\<exists>rnd. rnd \<in> set (drawn [e]) \<and> key = to_hex [rnd])"
proof (cases "drawn [e] = []")
  case True
  from step_tidies [OF assms(2) this, of env] assms(1,3) show ?thesis by (auto simp: tidies_def)
next
  case False
  then obtain name opts rnd where "e = CallRequest name opts rnd" by (cases e) simp_all
  with request_tables [OF assms(1), of env name opts rnd] assms(3) show ?thesis by auto
qed

lemma step_books:
  assumes "books s" and "task s \<noteq> NotRun"
  shows "books (fst (session_step env s e))" and "task (fst (session_step env s e)) \<noteq> NotRun"
    and "next_req s \<le> next_req (fst (session_step env s e))"
  using step_accounts [OF assms(2), of env e] step_life [OF assms(2), of env e] assms
  by (auto simp: accounts_def balanced_def life_step_def)

subsection \<open>Runs\<close>

lemma run_agrees:
  assumes "books s" and "task s \<noteq> NotRun" and "rnd \<notin> set (drawn es)" and "agree_on (to_hex [rnd]) s"
  shows "agree_on (to_hex [rnd]) (fst (run (session_step env) s es))"
  using assms
proof (induction es arbitrary: s)
  case (Cons e es)
  from Cons.prems(3) have "rnd \<notin> set (drawn [e])" "rnd \<notin> set (drawn es)" by (auto simp: drawn_Cons [of e es])
  then have a: "agree_on (to_hex [rnd]) (fst (session_step env s e))"
    using Cons.prems by (intro step_agrees) auto
  show ?case
    using Cons.IH [OF step_books(1,2) [OF Cons.prems(1,2)] \<open>rnd \<notin> set (drawn es)\<close> a] by (simp add: run_Cons)
qed simp

lemma run_timers:
  assumes "books s" and "task s \<noteq> NotRun" and "rid < next_req s"
    and "(rid, x) \<in> set (timers (fst (run (session_step env) s es)))"
  shows "(rid, x) \<in> set (timers s)"
  using assms
proof (induction es arbitrary: s)
  case (Cons e es)
  note b = step_books [OF Cons.prems(1,2), of env e]
  from Cons.IH [OF b(1,2)] Cons.prems(3,4) b(3) have "(rid, x) \<in> set (timers (fst (session_step env s e)))"
    by (simp add: run_Cons)
  with step_timers [OF Cons.prems(1,2), of rid "fst x" "snd x" env e] Cons.prems(3) show ?case by simp
qed simp

text \<open>While no token is drawn twice the tables agree on every token.\<close>

lemma run_all_agree:
  assumes "books s" and "task s \<noteq> NotRun" and "distinct (drawn es)"
    and "\<And>key. agree_on key s" and "\<And>rnd. rnd \<in> set (drawn es) \<Longrightarrow> unused (to_hex [rnd]) s"
  shows "agree_on key (fst (run (session_step env) s es))"
  using assms
proof (induction es arbitrary: s)
  case (Cons e es)
  let ?s1 = "fst (session_step env s e)"
  note b = step_books [OF Cons.prems(1,2), of env e]
  have d: "distinct (drawn es)" "set (drawn [e]) \<inter> set (drawn es) = {}" "set (drawn [e]) \<union> set (drawn es) = set (drawn (e # es))"
    using Cons.prems(3) by (auto simp: drawn_Cons [of e es])
  have "agree_on k ?s1" for k
    using Cons.prems(5) d(3) by (intro step_agrees [OF Cons.prems(1,2) _ Cons.prems(4)]) blast
  moreover have "unused (to_hex [rnd]) ?s1" if rnd: "rnd \<in> set (drawn es)" for rnd
  proof -
    have u: "unused (to_hex [rnd]) s" using Cons.prems(5) d(3) rnd by blast
    have no: "rnd \<notin> set (drawn [e])" using rnd d(2) by blast
    have "(rid, to_hex [rnd], x) \<notin> set (timers ?s1)" for rid x
    proof
      assume "(rid, to_hex [rnd], x) \<in> set (timers ?s1)"
      from step_timers [OF Cons.prems(1,2) this] no have "(rid, to_hex [rnd], x) \<in> set (timers s)" by auto
      with u show False by (auto simp: unused_def)
    qed
    then show ?thesis by (auto simp: unused_def)
  qed
  ultimately show ?case using Cons.IH [OF b(1,2) d(1)] by (simp add: run_Cons)
qed simp

subsection \<open>The tables\<close>

lemma started:
  "books (fst (start_run env (new_session now)))" "task (fst (start_run env (new_session now))) \<noteq> NotRun"
  "timers (fst (start_run env (new_session now))) = []"
  by (simp_all add: start_run_eq books_def new_session_def)

text \<open>C34. The tables of the requests, after any sequence of events. The pending map has distinct tokens;
  each of its entries belongs to a request whose own timer is armed under the same token, and
  outside the connected state it is empty (a close leaves no entry behind). No timer of a settled
  request is armed. And as long as no token has been drawn twice, the two tables agree: the armed
  timers are those of the entries, and no others.
\<close>

theorem pending_table_sound:
  assumes "run (session_step env) (new_session now) (CallRun # es) = (s, fx)"
  shows "books s \<and> set (settlements fx) \<inter> fst ` set (timers s) = {} \<and>
         (distinct (drawn es) \<longrightarrow> (\<lambda>(rid, key, name, ms). (key, rid)) ` set (timers s) = set (pending s))"
proof (intro conjI impI)
  have b: "books s" "balanced (new_session now) (s, fx)"
    using started_accounts [where env = env and now = now and es = es] assms by simp_all
  then show "books s" by simp
  have "mset (settlements fx @ map fst (timers s)) = mset [0 ..< next_req s]"
    using b(2) by (simp add: balanced_def new_session_def)
  then have "distinct (settlements fx @ map fst (timers s))" by (metis distinct_upt mset_eq_imp_distinct_iff)
  then show "set (settlements fx) \<inter> fst ` set (timers s) = {}" by simp
  assume d: "distinct (drawn es)"
  have s: "s = fst (run (session_step env) (fst (start_run env (new_session now))) es)"
    using assms by (auto simp: run_Cons new_session_def)
  have "agree_on key s" for key
    unfolding s by (rule run_all_agree [OF started(1,2) d]) (simp_all add: agree_on_def unused_def started(3))
  then have "map_of (pending s) key = Some rid" if "(rid, key, n, m) \<in> set (timers s)" for rid key n m
    using agree_onD that by blast
  then have "(key, rid) \<in> set (pending s)" if "(rid, key, n, m) \<in> set (timers s)" for rid key n m
    using that by (blast intro: map_of_SomeD)
  moreover have "\<exists>n m. (rid, key, n, m) \<in> set (timers s)" if "(key, rid) \<in> set (pending s)" for rid key
    using booksD(5) [OF b(1) that] by (blast dest: map_of_SomeD)
  ultimately show "(\<lambda>(rid, key, name, ms). (key, rid)) ` set (timers s) = set (pending s)" by force
qed

subsection \<open>Responses\<close>

text \<open>A request that is sent holds its token until it is settled.\<close>

lemma request_holds_token:
  assumes "books s" and "task s \<noteq> NotRun" and "unused (to_hex [rnd]) s"
    and "request env name opts rnd s = (s1, fx)" and "settlements fx = []"
    and "run (session_step env) s1 es = (s2, fx2)" and "rnd \<notin> set (drawn es)" and "next_req s \<notin> set (settlements fx2)"
  shows "map_of (pending s2) (to_hex [rnd]) = Some (next_req s)" and "next_req s \<in> fst ` set (timers s2)"
    and "books s2"
proof -
  let ?rid = "next_req s" and ?key = "to_hex [rnd]"
  have c: "st s = Connected" using assms(4,5) by (auto simp: request_def Let_def split: if_splits)
  from request_sent [OF c assms(4,5)] obtain ms where t1: "timers s1 = AList.update ?rid (?key, name, ms) (timers s)"
    and n1: "next_req s1 = ?rid + 1" by blast
  from t1 have e1: "map_of (timers s1) ?rid = Some (?key, name, ms)" by (simp add: update_conv)
  have b1: "books s1" using request_accounts [of s env name opts rnd] assms(1,4) by (simp add: accounts_def)
  have k1: "task s1 \<noteq> NotRun" using request_keeps [of s env name opts rnd] assms(2,4) by (simp add: keeps_def)
  have a1: "agree_on ?key s1"
    using request_agrees [OF assms(1) _ unused_agrees, of ?key] assms(3,4) by (metis fst_conv)
  have s2: "s2 = fst (run (session_step env) s1 es)" "fx2 = snd (run (session_step env) s1 es)" using assms(6) by simp_all
  have ac: "books s2" "balanced s1 (s2, fx2)" using run_accounts [OF k1, of env es] b1 assms(6) by (simp_all add: accounts_def)
  then show "books s2" by simp
  have "?rid \<in> fst ` set (timers s1)" using e1 by (rule map_of_key)
  then have "?rid \<in># mset (settlements fx2) + mset (map fst (timers s2))" using ac(2) by (simp add: balanced_def)
  with assms(8) show r2: "?rid \<in> fst ` set (timers s2)" by simp
  then obtain x where x: "(?rid, x) \<in> set (timers s2)" by force
  have "(?rid, x) \<in> set (timers s1)" using run_timers [OF b1 k1 _ x [unfolded s2]] n1 by simp
  then have "x = (?key, name, ms)" using e1 booksD(1) [OF b1] by simp
  with x agree_onD [OF run_agrees [OF b1 k1 assms(7) a1, of env, folded s2(1)]]
  show "map_of (pending s2) ?key = Some ?rid" by blast
qed

text \<open>C29. A response finds its request. In a state with sound tables, as every reachable one is, a
  request is sent under a token that no unsettled request holds. Then any
  events happen, other requests among them, which neither settle it nor draw its token again. If
  then a frame arrives that decrypts and decodes to a message with this token (of any code, type or
  path, but not a ping), the session resolves the promise of this request with that message, and
  does nothing else visible: it surfaces no \<open>message\<close>, and takes away the timer and the entry of
  this request and no other.
\<close>

theorem response_resolves_request:
  assumes "books s" and "task s \<noteq> NotRun" and "unused (to_hex [rnd]) s"
    and "request env name opts rnd s = (s1, fx)" and "settlements fx = []"
    and "run (session_step env) s1 es = (s2, fx2)" and "rnd \<notin> set (drawn es)" and "next_req s \<notin> set (settlements fx2)"
    and "aesKey s2 = Some k" and "ivIn s2 = Some v" and "aesDecrypt (env_D env) k v ct = Inr pt" and "decode pt = Inr m"
    and "token m = [rnd]" and "classify m \<noteq> Some ''Ping''"
  shows "\<exists>s3. handleFrame env ct s2 = (s3, [ResolveReq (next_req s) m], Inr ()) \<and>
           next_req s \<in> fst ` set (timers s2) \<and> (to_hex [rnd], next_req s) \<in> set (pending s2) \<and>
           timers s3 = filter (\<lambda>t. fst t \<noteq> next_req s) (timers s2) \<and>
           set (pending s3) = set (pending s2) - {(to_hex [rnd], next_req s)}"
proof -
  let ?rid = "next_req s" and ?key = "to_hex [rnd]"
  note h = request_holds_token [OF assms(1-8)]
  have p: "(?key, ?rid) \<in> set (pending s2)" using h(1) by (rule map_of_SomeD)
  have "set (AList.delete ?key (pending s2)) = set (pending s2) - {(?key, ?rid)}"
    using p booksD(2) [OF h(3)] by (auto simp: delete_filter) (metis map_of_is_SomeI option.inject)
  then show ?thesis
    using h(1,2) p assms(9-14)
    by (simp add: handleFrame_def with_keys_def dispatch_def delete_filter subarray_def)
qed

subsection \<open>A concrete session\<close>

text \<open>A connection that has completed, and a first request on it.\<close>

lemma toy_connects:
  obtains s fx v where "run (session_step toy_env) (new_session 0) (CallRun # toy_dialogue) = (s, fx)" and "st s = Connected"
    and "aesKey s = Some (replicate 16 2)" and "ivOut s = Some v" and "length v = 16"
proof -
  from toy_world_256(1) obtain r where
    r: "pc (fst (runHandshake toy_env (toy_world\<lparr>w_coreId_blob := Inr (replicate 256 0)\<rparr>))) = Finished r" ..
  from dialogue_completes [OF r toy_world_256(2) length_replicate toy_world_256(3-7) toy_hello_wire, of 0]
  obtain s fx hct hw where s: "run (session_step toy_env) (new_session 0) (CallRun # toy_dialogue) = (s, fx)" "st s = Connected"
    "aesKey s = Some (replicate 16 2)" "ivOut s = Some (take 16 hct)"
    and "hello_out toy_env (replicate 16 2) (replicate 16 2) = Inr (hct, hw)"
    unfolding toy_dialogue_def toy_keys by blast
  from this(5) obtain hello where "aesEncrypt xor_cipher (replicate 16 2) (replicate 16 2) hello = Inr hct"
    by (auto simp: hello_out_Inr toy_env_def)
  from aes_roundtrip_ct(2) [OF xor_cipher_ok this] have "length (take 16 hct) = 16" by simp
  with s that show thesis by blast
qed

theorem pending_table_sound_witness:
  "\<exists>s fx rid. run (session_step toy_env) (new_session 0) (CallRun # toy_dialogue @ [CallRequest ''Describe'' no_ropts 5]) = (s, fx) \<and>
     (to_hex [5], rid) \<in> set (pending s) \<and>
     (\<lambda>(rid, key, name, ms). (key, rid)) ` set (timers s) = set (pending s)"
proof -
  obtain s fx v where s: "run (session_step toy_env) (new_session 0) (CallRun # toy_dialogue) = (s, fx)" "st s = Connected"
    "aesKey s = Some (replicate 16 2)" "ivOut s = Some v" "length v = 16" by (rule toy_connects)
  from toy_request [OF s(3) length_replicate s(4,5,2), of 5] obtain s1 fx1 where
    r: "request toy_env ''Describe'' no_ropts 5 s = (s1, fx1)" "settlements fx1 = []" by blast
  have "run (session_step toy_env) (new_session 0) ((CallRun # toy_dialogue) @ [CallRequest ''Describe'' no_ropts 5]) =
      (s1, fx @ fx1)" by (simp only: run_append s(1)) (simp add: run_Cons r(1))
  then have run: "run (session_step toy_env) (new_session 0) (CallRun # toy_dialogue @ [CallRequest ''Describe'' no_ropts 5]) =
      (s1, fx @ fx1)" by simp
  from request_sent [OF s(2) r] have "map_of (pending s1) (to_hex [5]) = Some (next_req s)" by (auto simp: update_conv)
  then have "(to_hex [5], next_req s) \<in> set (pending s1)" by (rule map_of_SomeD)
  moreover have "distinct (drawn (toy_dialogue @ [CallRequest ''Describe'' no_ropts 5]))"
    by (simp add: toy_dialogue_def dialogue_def)
  ultimately show ?thesis using pending_table_sound [OF run] run by blast
qed

text \<open>A second request, under another token, comes between the first one and its response.\<close>

theorem response_resolves_request_witness:
  "\<exists>s1 fx s2 fx2 ct s3. request toy_env ''Describe'' no_ropts 5 toy_session = (s1, fx) \<and>
     run (session_step toy_env) s1 [CallRequest ''Describe'' no_ropts 6] = (s2, fx2) \<and>
     handleFrame toy_env ct s2 = (s3, [ResolveReq 0 toy_answer], Inr ())"
proof -
  let ?k = "replicate 16 2 :: bytes" and ?pt = "[0x61, 69, 0, 1, 5, 0xFF, 9] :: bytes"
  obtain s1 fx v1 where r: "request toy_env ''Describe'' no_ropts 5 toy_session = (s1, fx)" "settlements fx = []"
    and k1: "aesKey s1 = Some ?k" "ivOut s1 = Some v1" "length v1 = 16" "st s1 = Connected"
    using toy_request [OF toy_ready(3) length_replicate toy_ready(5) length_replicate toy_connected(1)] by blast
  from toy_request [OF k1(1) length_replicate k1(2-4), of 6] obtain s2 fx2 where
    r2: "request toy_env ''Describe'' no_ropts 6 s1 = (s2, fx2)" "settlements fx2 = []" by blast
  have run: "run (session_step toy_env) s1 [CallRequest ''Describe'' no_ropts 6] = (s2, fx2)"
    using r2(1) by (simp add: run_Cons)
  have keys: "aesKey s2 = Some ?k" "ivIn s2 = Some ?k"
    using request_keys [of toy_session toy_env "''Describe''" no_ropts 5] request_keys [of s1 toy_env "''Describe''" no_ropts 6]
      r(1) r2(1) toy_ready(3,4) by (simp_all add: keys_kept_def)
  obtain ct where "aesEncrypt xor_cipher ?k ?k ?pt = Inr ct" by (simp add: aesEncrypt_Inr)
  from aes_roundtrip_ct(1) [OF xor_cipher_ok this] have ct: "aesDecrypt (env_D toy_env) ?k ?k ct = Inr ?pt"
    by (simp add: toy_env_def)
  have m: "decode ?pt = Inr toy_answer" by (simp add: decode_eval toy_answer_def)
  have start: "task toy_session \<noteq> NotRun" "unused (to_hex [5]) toy_session"
    by (simp_all add: toy_session_def new_session_def unused_def)
  have "5 \<notin> set (drawn [CallRequest ''Describe'' no_ropts 6])" "next_req toy_session \<notin> set (settlements fx2)"
    using r2(2) by simp_all
  from response_resolves_request [OF toy_connected(2) start r run this keys ct m toy_answer] r(1) run toy_connected(3)
  show ?thesis by auto
qed

end
