(* ===== verification/Session_Exchange.thy ===== *)
theory Session_Exchange
  imports Session_Whole
begin

section \<open>The handshake inside a session\<close>

text \<open>
  What the suspended handshake of a session is told, event by event, and what it had asked for. A
  session that emits \<open>handshake\<close> has asked six questions, in the order of the protocol, and its
  result is that of \<open>runHandshake\<close> on the answers, whatever else happened on the connection. So the
  theorems on \<open>runHandshake\<close> are theorems on sessions.
\<close>

subsection \<open>The input of the handshake\<close>

text \<open>What an event of the session tells the handshake that it is suspended in, if anything.\<close>

fun read_reply :: "reader settled \<Rightarrow> hs_reply option" where
  "read_reply (Resolve FrameHead b) = None"
| "read_reply (Resolve w b) = Some (GotBytes b)"
| "read_reply (Reject w e) = Some (Rejected e)"

fun hs_input :: "session \<Rightarrow> event \<Rightarrow> (hs_state \<times> hs_reply) option" where
  "hs_input s (Settle r) =
     (case task s of InHandshake hs \<Rightarrow> if asks (pc hs) then Some (hs, r) else None | _ \<Rightarrow> None)"
| "hs_input s Micro =
     (case task s of
        InHandshake hs \<Rightarrow>
          (case woken s of
             [] \<Rightarrow> None
           | r # rs \<Rightarrow> if reads_queue (pc hs) then map_option (Pair hs) (read_reply r) else None)
      | _ \<Rightarrow> None)"
| "hs_input s _ = None"

lemma hs_input_step:
  assumes "hs_input s e = Some (hs, reply)"
  shows "task s = InHandshake hs \<and> (\<forall>x. pc hs \<noteq> Failed x) \<and>
         (\<exists>w. session_step env s e = resume_handshake env hs reply (s\<lparr>woken := w\<rparr>))"
proof (cases e)
  case (Settle r)
  have "s\<lparr>woken := woken s\<rparr> = s" by simp
  with assms Settle have "task s = InHandshake hs \<and> (\<forall>x. pc hs \<noteq> Failed x) \<and>
      session_step env s e = resume_handshake env hs reply (s\<lparr>woken := woken s\<rparr>)"
    by (auto simp: settle_def split: task.splits hs_pc.splits if_splits)
  then show ?thesis by blast
next
  case Micro
  with assms obtain r rs where r: "woken s = r # rs" "read_reply r = Some reply" and t: "task s = InHandshake hs"
    and q: "reads_queue (pc hs)"
    by (auto split: task.splits list.splits if_splits)
  have "resume_read env r (s\<lparr>woken := rs\<rparr>) = resume_handshake env hs reply (s\<lparr>woken := rs\<rparr>)"
    using r(2) t by (cases r rule: read_reply.cases) auto
  with r(1) t q Micro show ?thesis by (auto simp: micro_def)
qed (use assms in simp_all)

subsection \<open>Questions and answers\<close>

text \<open>Along a list of answers: each with the question that the handshake is suspended at.\<close>

fun asked :: "hs_env \<Rightarrow> hs_state \<Rightarrow> hs_reply list \<Rightarrow> (hs_request option \<times> hs_reply) list" where
  "asked env s [] = []"
| "asked env s (r # rs) = (awaited env (pc s), r) # asked env (fst (hs_resume env s r)) rs"

text \<open>And along the events of a session.\<close>

fun exchanges :: "hs_env \<Rightarrow> session \<Rightarrow> event list \<Rightarrow> (hs_request option \<times> hs_reply) list" where
  "exchanges env s [] = []"
| "exchanges env s (e # es) =
     (case hs_input s e of None \<Rightarrow> [] | Some (hs, r) \<Rightarrow> [(awaited env (pc hs), r)]) @
     exchanges env (fst (session_step env s e)) es"

text \<open>Each promise settles with a value of its own kind, or rejects.\<close>

fun kind_ok :: "hs_request option \<times> hs_reply \<Rightarrow> bool" where
  "kind_ok (None, r) \<longleftrightarrow> False"
| "kind_ok (Some q, Rejected e) \<longleftrightarrow> True"
| "kind_ok (Some (LoadCoreKey i der), GotKey k) \<longleftrightarrow> True"
| "kind_ok (Some (LoadCoreKey i der), GotBytes b) \<longleftrightarrow> False"
| "kind_ok (Some q, GotKey k) \<longleftrightarrow> False"
| "kind_ok (Some q, GotBytes b) \<longleftrightarrow> True"

subsection \<open>One event\<close>

lemma input_none:
  assumes "opening_at env g w s" and "task s = InHandshake hs" and "hs_input s e = None"
  shows "task (fst (session_step env s e)) = InHandshake hs" and "hands (snd (session_step env s e)) = 0"
    and "written (snd (session_step env s e)) = []"
proof -
  have k: "task (fst r) = InHandshake hs \<and> hands (snd r) = 0" if "keeps s r \<or> shuts s r" for r
    using that assms(2) by (auto simp: keeps_def shuts_def)
  have key: "aesKey s = None" using assms(1) by (auto simp: opening_at_def)
  have "task (fst (session_step env s e)) = InHandshake hs \<and> hands (snd (session_step env s e)) = 0 \<and>
      written (snd (session_step env s e)) = []"
  proof (cases e)
    case (Settle r)
    with assms(2,3) show ?thesis by (cases "pc hs") (simp_all add: settle_def)
  next
    case Micro
    from assms(1,2) obtain o' where o': "at_opening (pc hs) s o'" unfolding opening_at_def by auto
    show ?thesis
    proof (cases "woken s")
      case (Cons r rs)
      with o' have "reads_queue (pc hs)" by (cases o'; cases "pc hs") simp_all
      with assms(2,3) Micro Cons obtain b where "r = Resolve FrameHead b" by (cases r rule: read_reply.cases) simp_all
      with assms(2) Micro Cons show ?thesis by (simp add: micro_def read_queue_def wake_def)
    qed (use assms(2) Micro in \<open>simp add: micro_def\<close>)
  next
    case IdleTimeout
    then show ?thesis
      using assms(2) fail_shuts [of "s\<lparr>idle_armed := False\<rparr>"] by (simp add: idle_timeout_def shuts_def fail_silent)
  next
    case (Data now b)
    then show ?thesis using k [of "(on_data now b s, [])"] on_data_keeps [of s now b] by simp
  next
    case (CallSend name opts)
    have "written (snd (call_send env name opts s)) = []"
      using keyless_send [OF key] by (simp add: call_send_def split_beta split: sum.split)
    with CallSend show ?thesis using k call_send_keeps by simp
  next
    case (CallRequest name opts rnd)
    then show ?thesis using k request_keeps keyless_request [OF key] by simp
  next
    case (RequestTimeout rid)
    have "written (snd (request_timeout rid s)) = []"
      by (simp add: request_timeout_def split: option.split prod.split)
    with RequestTimeout show ?thesis using k timeout_keeps by simp
  qed (use assms(2) k finalize_shuts disconnect_shuts fail_shuts in
        \<open>simp_all add: finalize_silent disconnect_silent fail_silent\<close>)
  then show "task (fst (session_step env s e)) = InHandshake hs" and "hands (snd (session_step env s e)) = 0"
    and "written (snd (session_step env s e)) = []" by simp_all
qed

lemma emits_hands: "EmitHandshake r \<in> set fx \<Longrightarrow> 0 < hands fx"
  by (induction fx) auto

lemma segment_emits:
  assumes "EmitHandshake r \<in> set (snd (after_segment env seg s))"
  shows "pc (fst seg) = Finished r"
proof (cases "pc (fst seg)")
  case (Failed e)
  let ?s = "s\<lparr>task := InHandshake (fst seg), hs_progress := Some (prog (fst seg))\<rparr>"
  have "hands (snd (run_catch e ?s)) = 0"
    using fail_shuts [of "?s\<lparr>task := Ended, hs_error := Some e\<rparr>" e]
    by (simp add: run_catch_def Let_def shuts_def)
  with assms emits_hands show ?thesis by (fastforce simp: after_segment_def Let_def split_beta Failed)
qed (use assms in \<open>auto simp: after_segment_def Let_def split: option.splits\<close>)

lemma segment_goes_on:
  assumes "task (fst (after_segment env seg s)) = InHandshake hs"
  shows "hs = fst seg"
proof (cases "pc (fst seg)")
  case (Failed e)
  let ?s = "s\<lparr>task := InHandshake (fst seg), hs_progress := Some (prog (fst seg))\<rparr>"
  have "task (fst (run_catch e ?s)) = Ended"
    using fail_shuts [of "?s\<lparr>task := Ended, hs_error := Some e\<rparr>" e]
    by (simp add: run_catch_def Let_def shuts_def)
  with assms show ?thesis by (simp add: after_segment_def Let_def split_beta Failed)
qed (use assms in \<open>auto simp: after_segment_def Let_def read_queue_def wake_def adopt_def split: option.splits\<close>)

lemma loop_quiet:
  assumes "at_position s p"
  shows "exchanges env s es = [] \<and> hands (snd (run (session_step env) s es)) = 0"
proof
  have "task s \<noteq> NotRun" "\<not> in_handshake s" using assms by (cases p; simp add: in_handshake_def)+
  with run_life [of s "st s = Closed" env es] show "hands (snd (run (session_step env) s es)) = 0" by simp
  show "exchanges env s es = []"
    using assms
  proof (induction es arbitrary: s p)
    case (Cons e es)
    have "hs_input s e = None" using Cons.prems by (cases e; cases p) simp_all
    moreover obtain p1 where "at_position (fst (session_step env s e)) p1" using at_position_step [OF Cons.prems] by blast
    ultimately show ?case using Cons.IH by simp
  qed simp
qed

subsection \<open>A session follows \<open>runHandshake\<close>\<close>

lemma follow:
  assumes "opening_at env g w s" and "task s = InHandshake hs"
  shows "\<exists>rs. exchanges env s es = asked env hs rs \<and>
           (\<forall>r. EmitHandshake r \<in> set (snd (run (session_step env) s es)) \<longrightarrow>
              pc (fst (run (hs_resume env) hs rs)) = Finished r \<and>
              (\<exists>rest. written (snd (run (session_step env) s es)) = concat (snd (run (hs_resume env) hs rs)) @ rest))"
  using assms
proof (induction es arbitrary: g w s hs)
  case Nil
  then show ?case by (intro exI [of _ "[]"]) simp
next
  case (Cons e es)
  let ?s1 = "fst (session_step env s e)" and ?fx = "snd (session_step env s e)"
  let ?fx' = "snd (run (session_step env) ?s1 es)"
  have parts: "snd (run (session_step env) s (e # es)) = ?fx @ ?fx'" by (simp add: run_Cons)
  from opening_step [OF Cons.prems(1), of e]
  have step: "opening_at env (g @ chunk e) (w @ written ?fx) ?s1 \<or> (\<exists>p. at_position ?s1 p)"
    unfolding opening_to_def opened_at_def by blast
  show ?case
  proof (cases "hs_input s e")
    case None
    note n = input_none [OF Cons.prems None]
    from n(1) have "\<not> at_position ?s1 p" for p by (cases p) simp_all
    with step have "opening_at env (g @ chunk e) (w @ written ?fx) ?s1" by blast
    from Cons.IH [OF this n(1)] obtain rs where rs: "exchanges env ?s1 es = asked env hs rs"
      "\<And>r. EmitHandshake r \<in> set ?fx' \<Longrightarrow> pc (fst (run (hs_resume env) hs rs)) = Finished r \<and>
         (\<exists>rest. written ?fx' = concat (snd (run (hs_resume env) hs rs)) @ rest)" by blast
    have "EmitHandshake r \<notin> set ?fx" for r using n emits_hands [of r ?fx] by auto
    with None rs n(3) show ?thesis unfolding parts by (intro exI [of _ rs]) auto
  next
    case (Some x)
    obtain hs' reply where x: "x = (hs', reply)" by fastforce
    from hs_input_step [OF Some [unfolded x], of env] Cons.prems(2) obtain v where hs': "hs' = hs"
      and seg: "session_step env s e = after_segment env (hs_resume env hs reply) (s\<lparr>woken := v\<rparr>)"
      by (auto simp: resume_handshake_def)
    let ?hs1 = "fst (hs_resume env hs reply)"
    have one: "exchanges env s (e # es) = (awaited env (pc hs), reply) # exchanges env ?s1 es"
      using Some by (simp add: x hs')
    have fin: "pc ?hs1 = Finished r" if "EmitHandshake r \<in> set ?fx" for r
      using that unfolding seg by (rule segment_emits)
    have wr: "written ?fx = concat (snd (hs_resume env hs reply))" unfolding seg by (rule segment_written)
    show ?thesis
    proof (cases "\<exists>p. at_position ?s1 p")
      case True
      then have q: "exchanges env ?s1 es = []" "hands ?fx' = 0" using loop_quiet by blast+
      have "EmitHandshake r \<notin> set ?fx'" for r using q emits_hands [of r ?fx'] by auto
      with one q fin wr show ?thesis unfolding parts by (intro exI [of _ "[reply]"]) (auto simp: run_Cons)
    next
      case False
      with step have o1: "opening_at env (g @ chunk e) (w @ written ?fx) ?s1" by blast
      then obtain hs1 where "task ?s1 = InHandshake hs1" unfolding opening_at_def by blast
      with segment_goes_on have t1: "task ?s1 = InHandshake ?hs1" unfolding seg by blast
      have "hands ?fx = 0"
        using step_life [of s env e] t1 Cons.prems(2) by (auto simp: life_step_def in_handshake_def)
      then have "EmitHandshake r \<notin> set ?fx" for r using emits_hands [of r ?fx] by auto
      moreover from Cons.IH [OF o1 t1] obtain rs where "exchanges env ?s1 es = asked env ?hs1 rs"
        "\<And>r. EmitHandshake r \<in> set ?fx' \<Longrightarrow> pc (fst (run (hs_resume env) ?hs1 rs)) = Finished r \<and>
           (\<exists>rest. written ?fx' = concat (snd (run (hs_resume env) ?hs1 rs)) @ rest)" by blast
      ultimately show ?thesis using one wr unfolding parts
        by (intro exI [of _ "reply # rs"]) (auto simp: run_Cons)
    qed
  qed
qed

subsection \<open>The course of a handshake that finishes\<close>

definition finishes :: "hs_env \<Rightarrow> hs_state \<Rightarrow> hs_reply list \<Rightarrow> hs_result \<Rightarrow> bool" where
  "finishes env s rs r \<longleftrightarrow>
     list_all kind_ok (asked env s rs) \<and> pc (fst (run (hs_resume env) s rs)) = Finished r"

lemma finishes_end: "awaited env (pc s) = None \<Longrightarrow> finishes env s rs r \<Longrightarrow> rs = [] \<and> pc s = Finished r"
  by (cases rs) (simp_all add: finishes_def)

lemma finishes_failed: "pc s = Failed e \<Longrightarrow> \<not> finishes env s rs r"
  using finishes_end [of env s rs r] by auto

text \<open>One answer: it is of the kind asked for, is not a rejection, and the rest finishes.\<close>

lemma finishes_next:
  assumes "finishes env s rs r" and "awaited env (pc s) = Some q"
  obtains reply rs' where "rs = reply # rs'" and "kind_ok (Some q, reply)" and "\<forall>e. reply \<noteq> Rejected e"
    and "finishes env (fst (hs_resume env s reply)) rs' r"
    and "asked env s rs = (Some q, reply) # asked env (fst (hs_resume env s reply)) rs'"
proof (cases rs)
  case Nil
  with assms show thesis by (auto simp: finishes_def)
next
  case (Cons reply rs')
  have f: "finishes env (fst (hs_resume env s reply)) rs' r" "kind_ok (Some q, reply)"
    using assms Cons by (simp_all add: finishes_def run_Cons)
  have "\<not> finishes env (fst (hs_resume env s (Rejected e))) rs' r" for e
    by (rule finishes_failed [where e = "if \<exists>ct. pc s = AtDecrypt ct then HandshakeError ''RSA decrypt failed'' (Cause (message e)) else e"])
      (use assms(2) in \<open>cases "pc s"; simp add: hs_resume.simps hs_fail_def\<close>)
  with f Cons assms(2) show thesis by (intro that [of reply rs']) auto
qed

lemma finishes_bytes:
  assumes "finishes env s rs r" and "awaited env (pc s) = Some q" and "\<forall>i der. q \<noteq> LoadCoreKey i der"
  obtains b rs' where "rs = GotBytes b # rs'" and "finishes env (fst (hs_resume env s (GotBytes b))) rs' r"
    and "asked env s rs = (Some q, GotBytes b) # asked env (fst (hs_resume env s (GotBytes b))) rs'"
proof -
  obtain reply rs' where *: "rs = reply # rs'" "kind_ok (Some q, reply)" "\<forall>e. reply \<noteq> Rejected e"
    "finishes env (fst (hs_resume env s reply)) rs' r"
    "asked env s rs = (Some q, reply) # asked env (fst (hs_resume env s reply)) rs'"
    using finishes_next [OF assms(1,2)] .
  moreover from this(2,3) assms(3) obtain b where "reply = GotBytes b" by (cases q; cases reply) simp_all
  ultimately show thesis using that by blast
qed

lemma finishes_key:
  assumes "finishes env s rs r" and "awaited env (pc s) = Some (LoadCoreKey i der)"
  obtains k rs' where "rs = GotKey k # rs'" and "finishes env (fst (hs_resume env s (GotKey k))) rs' r"
    and "asked env s rs = (Some (LoadCoreKey i der), GotKey k) # asked env (fst (hs_resume env s (GotKey k))) rs'"
proof -
  obtain reply rs' where *: "rs = reply # rs'" "kind_ok (Some (LoadCoreKey i der), reply)" "\<forall>e. reply \<noteq> Rejected e"
    "finishes env (fst (hs_resume env s reply)) rs' r"
    "asked env s rs = (Some (LoadCoreKey i der), reply) # asked env (fst (hs_resume env s reply)) rs'"
    using finishes_next [OF assms] .
  moreover from this(2,3) obtain k where "reply = GotKey k" by (cases reply) simp_all
  ultimately show thesis using that by blast
qed

lemma finishes_hello:
  assumes "pc s = AtHello c k v" and "finishes env s rs r"
  shows "\<exists>f. rs = [GotBytes f] \<and> asked env s rs = [(Some ReadFrame, GotBytes f)] \<and> r_coreId r = c"
proof -
  have a: "awaited env (pc s) = Some ReadFrame" using assms(1) by simp
  obtain f rs' where *: "rs = GotBytes f # rs'" "finishes env (fst (hs_resume env s (GotBytes f))) rs' r"
    "asked env s rs = (Some ReadFrame, GotBytes f) # asked env (fst (hs_resume env s (GotBytes f))) rs'"
    by (rule finishes_bytes [OF assms(2) a]) auto
  from hello_segment [OF assms(1) refl, of env f] * have
    "awaited env (pc (fst (hs_resume env s (GotBytes f)))) = None" by auto
  from finishes_end [OF this *(2)] * have "rs' = []" "pc (fst (hs_resume env s (GotBytes f))) = Finished r" by simp_all
  moreover from this(2) assms(1) have "r_coreId r = c"
    by (auto simp: hs_resume.simps after_hello_def hs_fail_def send_hello_def Let_def set_stage_def split: sum.splits)
  ultimately show ?thesis using * by simp
qed

lemma finishes_sign:
  assumes "pc s = AtSign c ct" and "finishes env s rs r"
  shows "\<exists>sig f. rs = [GotBytes sig, GotBytes f] \<and> r_coreId r = c \<and>
           asked env s rs = [(Some (PoolSign (env_serverPriv env) (env_hmac env ct (env_sessionKey env))), GotBytes sig),
             (Some ReadFrame, GotBytes f)]"
proof -
  let ?q = "PoolSign (env_serverPriv env) (env_hmac env ct (env_sessionKey env))"
  have a: "awaited env (pc s) = Some ?q" using assms(1) by simp
  obtain sig rs' where *: "rs = GotBytes sig # rs'" "finishes env (fst (hs_resume env s (GotBytes sig))) rs' r"
    "asked env s rs = (Some ?q, GotBytes sig) # asked env (fst (hs_resume env s (GotBytes sig))) rs'"
    by (rule finishes_bytes [OF assms(2) a]) auto
  then obtain k v where "pc (fst (hs_resume env s (GotBytes sig))) = AtHello c k v"
    using *(2) finishes_failed [of "fst (hs_resume env s (GotBytes sig))"] assms(1)
    by (auto simp: hs_resume.simps after_sign_def Let_def split: sum.splits)
  from finishes_hello [OF this *(2)] * show ?thesis by auto
qed

lemma finishes_encrypt:
  assumes "pc s = AtEncrypt c pem" and "finishes env s rs r"
  shows "\<exists>ct sig f. rs = [GotBytes ct, GotBytes sig, GotBytes f] \<and> r_coreId r = c \<and>
           asked env s rs = [(Some (PoolEncrypt pem (env_sessionKey env)), GotBytes ct),
             (Some (PoolSign (env_serverPriv env) (env_hmac env ct (env_sessionKey env))), GotBytes sig),
             (Some ReadFrame, GotBytes f)]"
proof -
  let ?q = "PoolEncrypt pem (env_sessionKey env)"
  have a: "awaited env (pc s) = Some ?q" using assms(1) by simp
  obtain ct rs' where *: "rs = GotBytes ct # rs'" "finishes env (fst (hs_resume env s (GotBytes ct))) rs' r"
    "asked env s rs = (Some ?q, GotBytes ct) # asked env (fst (hs_resume env s (GotBytes ct))) rs'"
    by (rule finishes_bytes [OF assms(2) a]) auto
  then have "pc (fst (hs_resume env s (GotBytes ct))) = AtSign c ct" using assms(1) by (simp add: hs_resume.simps)
  from finishes_sign [OF this *(2)] * show ?thesis by auto
qed

lemma finishes_core_key:
  assumes "pc s = AtCoreKey c der" and "finishes env s rs r"
  shows "\<exists>pem ct sig f. rs = [GotKey (Some pem), GotBytes ct, GotBytes sig, GotBytes f] \<and> r_coreId r = c \<and> pem \<noteq> [] \<and>
           asked env s rs = [(Some (LoadCoreKey c der), GotKey (Some pem)),
             (Some (PoolEncrypt pem (env_sessionKey env)), GotBytes ct),
             (Some (PoolSign (env_serverPriv env) (env_hmac env ct (env_sessionKey env))), GotBytes sig),
             (Some ReadFrame, GotBytes f)]"
proof -
  let ?q = "LoadCoreKey c der"
  have a: "awaited env (pc s) = Some ?q" using assms(1) by simp
  obtain k rs' where *: "rs = GotKey k # rs'" "finishes env (fst (hs_resume env s (GotKey k))) rs' r"
    "asked env s rs = (Some ?q, GotKey k) # asked env (fst (hs_resume env s (GotKey k))) rs'"
    using finishes_key [OF assms(2) a] .
  then obtain pem where pem: "k = Some pem" "pem \<noteq> []" "pc (fst (hs_resume env s (GotKey k))) = AtEncrypt c pem"
    using *(2) finishes_failed [of "fst (hs_resume env s (GotKey k))"] assms(1)
    by (auto simp: hs_resume.simps after_core_key_def hs_fail_def set_stage_def split: option.splits if_splits)
  from finishes_encrypt [OF pem(3) *(2)] * pem show ?thesis by auto
qed

lemma finishes_decrypt:
  assumes "pc s = AtDecrypt b" and "finishes env s rs r"
  shows "\<exists>pt pem ct sig f. rs = [GotBytes pt, GotKey (Some pem), GotBytes ct, GotBytes sig, GotBytes f] \<and>
           identify env pt = Inr (r_coreId r) \<and> pem \<noteq> [] \<and>
           asked env s rs = [(Some (PoolDecrypt (env_serverPriv env) b), GotBytes pt),
             (Some (LoadCoreKey (r_coreId r) (if length pt > 52 then Some (drop 52 pt) else None)), GotKey (Some pem)),
             (Some (PoolEncrypt pem (env_sessionKey env)), GotBytes ct),
             (Some (PoolSign (env_serverPriv env) (env_hmac env ct (env_sessionKey env))), GotBytes sig),
             (Some ReadFrame, GotBytes f)]"
proof -
  let ?q = "PoolDecrypt (env_serverPriv env) b"
  have a: "awaited env (pc s) = Some ?q" using assms(1) by simp
  obtain pt rs' where *: "rs = GotBytes pt # rs'" "finishes env (fst (hs_resume env s (GotBytes pt))) rs' r"
    "asked env s rs = (Some ?q, GotBytes pt) # asked env (fst (hs_resume env s (GotBytes pt))) rs'"
    by (rule finishes_bytes [OF assms(2) a]) auto
  let ?c = "to_hex (take 12 (drop 40 pt))" and ?der = "if length pt > 52 then Some (drop 52 pt) else None"
  have "identify env pt = Inr ?c \<and> pc (fst (hs_resume env s (GotBytes pt))) = AtCoreKey ?c ?der"
    using *(2) finishes_failed [of "fst (hs_resume env s (GotBytes pt))"] assms(1)
    by (auto simp: hs_resume.simps after_decrypt_def hs_fail_def NONCE_BYTES_def ID_BYTES_def Let_def
        subarray_def identify_def split: if_splits)
  then have id: "identify env pt = Inr ?c" and p: "pc (fst (hs_resume env s (GotBytes pt))) = AtCoreKey ?c ?der" by simp_all
  from finishes_core_key [OF p *(2)] * id show ?thesis by auto
qed

lemma finishes_start:
  assumes "finishes env (fst (hs_start env)) rs r"
  shows "\<exists>b pt pem ct sig f. rs = [GotBytes b, GotBytes pt, GotKey (Some pem), GotBytes ct, GotBytes sig, GotBytes f] \<and>
           identify env pt = Inr (r_coreId r) \<and> pem \<noteq> [] \<and>
           asked env (fst (hs_start env)) rs = [(Some (ReadBytes 256), GotBytes b),
             (Some (PoolDecrypt (env_serverPriv env) b), GotBytes pt),
             (Some (LoadCoreKey (r_coreId r) (if length pt > 52 then Some (drop 52 pt) else None)), GotKey (Some pem)),
             (Some (PoolEncrypt pem (env_sessionKey env)), GotBytes ct),
             (Some (PoolSign (env_serverPriv env) (env_hmac env ct (env_sessionKey env))), GotBytes sig),
             (Some ReadFrame, GotBytes f)]"
proof -
  have pc: "pc (fst (hs_start env)) = AtReadCoreId" by (simp add: hs_start_def)
  then have a: "awaited env (pc (fst (hs_start env))) = Some (ReadBytes 256)" by simp
  obtain b rs' where *: "rs = GotBytes b # rs'" "finishes env (fst (hs_resume env (fst (hs_start env)) (GotBytes b))) rs' r"
    "asked env (fst (hs_start env)) rs = (Some (ReadBytes 256), GotBytes b) # asked env (fst (hs_resume env (fst (hs_start env)) (GotBytes b))) rs'"
    by (rule finishes_bytes [OF assms a]) auto
  then have "pc (fst (hs_resume env (fst (hs_start env)) (GotBytes b))) = AtDecrypt b" using pc by (simp add: hs_resume.simps)
  from finishes_decrypt [OF this *(2)] * show ?thesis by auto
qed

subsection \<open>Where the bytes come from\<close>

text \<open>The two reads of the handshake: the first 256 bytes of the stream, and a frame right after them.\<close>

lemma read_input:
  assumes "opening_at env g w s" and "hs_input s e = Some (hs, GotBytes x)" and "awaited env (pc hs) = Some q"
  shows "(q = ReadBytes 256 \<longrightarrow> (\<exists>rest. length x = 256 \<and> g @ chunk e = x @ rest)) \<and>
         (q = ReadFrame \<longrightarrow> (\<exists>b h rest. length b = 256 \<and> length h = 3 \<and> header_len h = length x \<and>
            g @ chunk e = b @ h @ x @ rest))"
proof (cases "reads_queue (pc hs)")
  case True
  then have m: "e = Micro" using assms(2) by (cases e; cases "pc hs") (auto split: task.splits if_splits)
  with assms(2) obtain r rs where t: "task s = InHandshake hs" "woken s = r # rs" "read_reply r = Some (GotBytes x)"
    by (auto split: task.splits list.splits if_splits)
  from assms(1) t(1) obtain o' where "at_opening (pc hs) s o'" "is_lost o' \<or> taken o' @ q_buf (inq s) = g"
    unfolding opening_at_def by auto
  with t(2,3) m assms(3) show ?thesis by (cases o'; cases "pc hs") auto
next
  case False
  with assms(3) have "q \<noteq> ReadBytes 256 \<and> q \<noteq> ReadFrame" by (cases "pc hs") auto
  then show ?thesis by simp
qed

lemma read_exchanges:
  assumes "opening_at env g w s" and "(Some q, GotBytes x) \<in> set (exchanges env s es)"
  shows "(q = ReadBytes 256 \<longrightarrow> (\<exists>rest. length x = 256 \<and> g @ received es = x @ rest)) \<and>
         (q = ReadFrame \<longrightarrow> (\<exists>b h rest. length b = 256 \<and> length h = 3 \<and> header_len h = length x \<and>
            g @ received es = b @ h @ x @ rest))"
  using assms
proof (induction es arbitrary: g w s)
  case (Cons e es)
  let ?s1 = "fst (session_step env s e)"
  have rec: "g @ received (e # es) = (g @ chunk e) @ received es" by (simp add: received_def)
  from Cons.prems(2) consider
    (now) hs where "hs_input s e = Some (hs, GotBytes x)" "awaited env (pc hs) = Some q"
  | (later) "(Some q, GotBytes x) \<in> set (exchanges env ?s1 es)"
    by (cases "hs_input s e") auto
  then show ?case
  proof cases
    case now
    from read_input [OF Cons.prems(1) now] show ?thesis unfolding rec by (metis append.assoc)
  next
    case later
    then have "\<not> at_position ?s1 p" for p using loop_quiet [of ?s1 p env es] by auto
    with opening_step [OF Cons.prems(1), of e] have
      "opening_at env (g @ chunk e) (w @ written (snd (session_step env s e))) ?s1"
      unfolding opening_to_def opened_at_def by blast
    from Cons.IH [OF this later] show ?thesis unfolding rec .
  qed
qed simp

text \<open>A session that connects has run the handshake. Whatever happens on the connection and in
  whatever order, if each promise settles with a value of its kind and the session emits
  \<open>handshake\<close> with result \<open>r\<close>, then it has asked six questions, in this order: for the first 256
  bytes; for their decryption under the server's key; for the key of the device; for the
  encryption of the fresh session key under it; for the signature of the MAC; and for the Hello
  frame. The decryption begins with the nonce of this very session, the reported id is the
  12 bytes after it, the key was on file for that id, and the frame is what follows in the
  stream; \<open>r\<close> is the result of \<open>runHandshake\<close> on these answers; and what the session has written
  begins with what \<open>runHandshake\<close> writes.
\<close>

theorem session_handshake_authentic:
  assumes "run (session_step env) (new_session date) (CallRun # es) = (s, fx)" and "EmitHandshake r \<in> set fx"
    and "list_all kind_ok (exchanges env (new_session date) (CallRun # es))"
  shows "\<exists>blob pt pem ct sig hello w.
           exchanges env (new_session date) (CallRun # es) =
             [(Some (ReadBytes 256), GotBytes blob),
              (Some (PoolDecrypt (env_serverPriv env) blob), GotBytes pt),
              (Some (LoadCoreKey (r_coreId r) (if length pt > 52 then Some (drop 52 pt) else None)), GotKey (Some pem)),
              (Some (PoolEncrypt pem (env_sessionKey env)), GotBytes ct),
              (Some (PoolSign (env_serverPriv env) (env_hmac env ct (env_sessionKey env))), GotBytes sig),
              (Some ReadFrame, GotBytes hello)] \<and>
           take 40 pt = env_nonce env \<and> r_coreId r = to_hex (take 12 (drop 40 pt)) \<and> 52 \<le> length pt \<and> pem \<noteq> [] \<and>
           (\<exists>h rest. received es = blob @ h @ hello @ rest \<and> length blob = 256 \<and> length h = 3 \<and>
              header_len h = length hello) \<and>
           w = \<lparr>w_coreId_blob = Inr blob, w_plaintext = Inr pt, w_corePubPem = Inr (Some pem),
                w_sessionCiphertext = Inr ct, w_signature = Inr sig, w_helloFrame = Inr hello\<rparr> \<and>
           pc (fst (runHandshake env w)) = Finished r \<and>
           (\<exists>rest. written fx = concat (snd (runHandshake env w)) @ rest)"
proof -
  define s0 where "s0 = fst (start_run env (new_session date))"
  have t: "task (new_session date) = NotRun" by (simp add: new_session_def)
  have ex: "exchanges env (new_session date) (CallRun # es) = exchanges env s0 es"
    using t by (simp add: s0_def)
  have fx: "fx = Write (env_nonce env) # snd (run (session_step env) s0 es)"
    using assms(1) t by (auto simp: run_Cons s0_def start_run_eq)
  have t0: "task s0 = InHandshake (fst (hs_start env))" by (simp add: s0_def start_run_eq read_queue_def wake_def)
  note op = opening_started [of env date, folded s0_def]
  obtain rs rest where rs: "exchanges env s0 es = asked env (fst (hs_start env)) rs"
    "pc (fst (run (hs_resume env) (fst (hs_start env)) rs)) = Finished r"
    "written (snd (run (session_step env) s0 es)) = concat (snd (run (hs_resume env) (fst (hs_start env)) rs)) @ rest"
    using follow [OF op t0, of es] assms(2) fx by auto
  have "finishes env (fst (hs_start env)) rs r" using rs(1,2) assms(3) ex by (simp add: finishes_def)
  from finishes_start [OF this] obtain blob pt pem ct sig hello where
    l: "rs = [GotBytes blob, GotBytes pt, GotKey (Some pem), GotBytes ct, GotBytes sig, GotBytes hello]"
    and id: "identify env pt = Inr (r_coreId r)" "pem \<noteq> []"
    and asked: "asked env (fst (hs_start env)) rs = [(Some (ReadBytes 256), GotBytes blob),
              (Some (PoolDecrypt (env_serverPriv env) blob), GotBytes pt),
              (Some (LoadCoreKey (r_coreId r) (if length pt > 52 then Some (drop 52 pt) else None)), GotKey (Some pem)),
              (Some (PoolEncrypt pem (env_sessionKey env)), GotBytes ct),
              (Some (PoolSign (env_serverPriv env) (env_hmac env ct (env_sessionKey env))), GotBytes sig),
              (Some ReadFrame, GotBytes hello)]"
    by blast
  have "(Some (ReadBytes 256), GotBytes blob) \<in> set (exchanges env s0 es)"
    "(Some ReadFrame, GotBytes hello) \<in> set (exchanges env s0 es)" unfolding rs(1) asked by simp_all
  note at = read_exchanges [OF op this(1)] read_exchanges [OF op this(2)]
  then obtain rest1 b h rest2 where p: "length blob = 256" "received es = blob @ rest1"
    "received es = b @ h @ hello @ rest2" "length b = 256" "length h = 3" "header_len h = length hello" by auto
  from p(1-4) have "b = blob" by (simp add: append_eq_append_conv)
  let ?w = "\<lparr>w_coreId_blob = Inr blob, w_plaintext = Inr pt, w_corePubPem = Inr (Some pem),
                w_sessionCiphertext = Inr ct, w_signature = Inr sig, w_helloFrame = Inr hello\<rparr>"
  have "replies ?w = rs" by (simp add: l replies_def)
  then have run: "fst (runHandshake env ?w) = fst (run (hs_resume env) (fst (hs_start env)) rs)"
    "snd (runHandshake env ?w) = env_nonce env # snd (run (hs_resume env) (fst (hs_start env)) rs)"
    by (simp_all add: runHandshake_def split_beta Let_def hs_start_def)
  from this(1) have fin: "pc (fst (runHandshake env ?w)) = Finished r" using rs(2) by simp
  have "written fx = concat (snd (runHandshake env ?w)) @ rest" using fx rs(3) run(2) by simp
  then have wr: "\<exists>rest. written fx = concat (snd (runHandshake env ?w)) @ rest" ..
  have id': "take 40 pt = env_nonce env" "r_coreId r = to_hex (take 12 (drop 40 pt))" "52 \<le> length pt"
    using id(1) by (auto simp: identify_def split: if_splits)
  have stream: "\<exists>h rest. received es = blob @ h @ hello @ rest \<and> length blob = 256 \<and> length h = 3 \<and>
      header_len h = length hello" using p \<open>b = blob\<close> by blast
  show ?thesis
    unfolding ex rs(1) asked
    by (rule exI [of _ blob], rule exI [of _ pt], rule exI [of _ pem], rule exI [of _ ct], rule exI [of _ sig],
        rule exI [of _ hello], rule exI [of _ ?w], intro conjI refl id' id(2) stream fin wr)
qed

subsection \<open>A concrete connection\<close>

lemma exchanges_append:
  "exchanges env s (es @ fs) = exchanges env s es @ exchanges env (fst (run (session_step env) s es)) fs"
  by (induction es arbitrary: s) (simp_all add: run_Cons)

lemma dialogue_kinds:
  assumes "length blob = 256" and "identify env pt = Inr c" and "pem \<noteq> []" and "32 \<le> length (env_sessionKey env)"
    and "encodeDeviceFrame hello = Inr hello_wire"
  shows "list_all kind_ok (exchanges env (new_session date) (CallRun # dialogue blob pt pem ct sig hello_wire))"
proof -
  let ?p = "\<lparr>ap_key = aes_key env, ap_iv = start_iv env\<rparr>"
  let ?es1 = "[CallRun, Data 1 blob, Micro]" and ?es3 = "[Data 2 hello_wire, Micro, Micro]"
  let ?es2 = "[Settle (GotBytes pt), Settle (GotKey (Some pem)), Settle (GotBytes ct), Settle (GotBytes sig)]"
  let ?hs = "\<lparr>pc = AtHello c (aes_key env) (start_iv env), prog = \<lparr>p_stage = GET_HELLO, p_coreId = Some c\<rparr>\<rparr>"
  have p: "deriveAesParams (env_sessionKey env) = Inr ?p"
    using assms(4) by (simp add: deriveAesParams_def subarray_def)
  obtain s1 fx1 where s1: "run (session_step env) (new_session date) ?es1 = (s1, fx1)"
    and t1: "task s1 = InHandshake \<lparr>pc = AtDecrypt blob, prog = \<lparr>p_stage = READ_COREID, p_coreId = None\<rparr>\<rparr>"
      "woken s1 = []" "inq s1 = new_byte_queue"
    using dialogue_start [OF assms(1), of env date 1] by blast
  let ?s2 = "s1\<lparr>task := InHandshake ?hs, hs_progress := Some (prog ?hs)\<rparr>"
  obtain fx2 where s2: "run (session_step env) s1 ?es2 = (read_queue FrameHead 3 ?s2, fx2)"
    using settle_chain [OF t1(1) assms(2,3) p] by (auto simp: Let_def)
  from assms(5) have w: "hello_wire = (u16be (length hello) @ [SYNC_BYTE]) @ hello" and l: "length hello < 65536"
    by (auto simp: encodeDeviceFrame_def split: if_splits)
  have head: "length (u16be (length hello) @ [SYNC_BYTE]) = 3"
    "header_len (u16be (length hello) @ [SYNC_BYTE]) = length hello"
    using header_len_u16be [OF l] by simp_all
  have 1: "list_all kind_ok (exchanges env (new_session date) ?es1)"
    using assms(1) by (simp add: start_run_eq new_session_def new_byte_queue_def read_queue_def wake_def read_def drain_def
        on_data_def push_def Let_def hs_start_def)
  have 2: "list_all kind_ok (exchanges env s1 ?es2)"
  proof -
    from assms(2) have "\<not> length pt < 52" "take 40 pt = env_nonce env" by (auto simp: identify_def split: if_splits)
    with t1(1) assms(3) p show ?thesis
      by (simp add: settle_def resume_handshake_def after_segment_def hs_resume.simps
          after_decrypt_def after_core_key_def after_sign_def set_stage_def subarray_def
          NONCE_BYTES_def ID_BYTES_def Let_def)
  qed
  have 3: "list_all kind_ok (exchanges env (read_queue FrameHead 3 ?s2) ?es3)"
    using t1 head unfolding w
    by (simp add: read_queue_def wake_def read_def drain_def new_byte_queue_def on_data_def push_def Let_def micro_def)
  have "CallRun # dialogue blob pt pem ct sig hello_wire = ?es1 @ ?es2 @ ?es3" by (simp add: dialogue_def)
  with 1 2 3 show ?thesis by (simp only: exchanges_append s1 s2 fst_conv list_all_append)
qed

lemma hands_emits: "0 < hands fx \<Longrightarrow> \<exists>r. EmitHandshake r \<in> set fx"
proof (induction fx)
  case (Cons e fx)
  then show ?case by (cases e) auto
qed simp

theorem session_handshake_authentic_witness:
  "\<exists>(r :: hs_result) pt. take 40 pt = replicate 40 1 \<and> r_coreId r = to_hex (take 12 (drop 40 pt)) \<and>
     (Some (PoolDecrypt ''PEM'' (take 256 (received toy_dialogue))), GotBytes pt) \<in>
       set (exchanges toy_env (new_session 0) (CallRun # toy_dialogue)) \<and>
     length (exchanges toy_env (new_session 0) (CallRun # toy_dialogue)) = 6"
proof -
  obtain s fx where run: "run (session_step toy_env) (new_session 0) (CallRun # toy_dialogue) = (s, fx)" "hands fx = 1"
    by (rule toy_completes)
  then obtain r where r: "EmitHandshake r \<in> set fx" using hands_emits [of fx] by auto
  have "identify toy_env (replicate 40 1 @ replicate 12 0xAB) = Inr (to_hex (replicate 12 0xAB))"
    "32 \<le> length (env_sessionKey toy_env)" by (simp_all add: identify_def toy_env_def)
  then have "list_all kind_ok (exchanges toy_env (new_session 0) (CallRun # toy_dialogue))"
    unfolding toy_dialogue_def by (intro dialogue_kinds [OF length_replicate _ _ _ toy_hello_wire]) simp_all
  from session_handshake_authentic [OF run(1) r this] obtain blob pt pem ct sig hello h rest where
    *: "exchanges toy_env (new_session 0) (CallRun # toy_dialogue) =
             [(Some (ReadBytes 256), GotBytes blob),
              (Some (PoolDecrypt (env_serverPriv toy_env) blob), GotBytes pt),
              (Some (LoadCoreKey (r_coreId r) (if length pt > 52 then Some (drop 52 pt) else None)), GotKey (Some pem)),
              (Some (PoolEncrypt pem (env_sessionKey toy_env)), GotBytes ct),
              (Some (PoolSign (env_serverPriv toy_env) (env_hmac toy_env ct (env_sessionKey toy_env))), GotBytes sig),
              (Some ReadFrame, GotBytes hello)]"
      "take 40 pt = env_nonce toy_env" "r_coreId r = to_hex (take 12 (drop 40 pt))"
      "received toy_dialogue = blob @ h @ hello @ rest" "length blob = 256"
    by blast
  have e: "env_nonce toy_env = replicate 40 1" "env_serverPriv toy_env = ''PEM''" by (simp_all add: toy_env_def)
  show ?thesis
  proof (intro exI conjI)
    show "take 40 pt = replicate 40 1" using *(2) e(1) by simp
    show "r_coreId r = to_hex (take 12 (drop 40 pt))" by (rule *(3))
    have "take 256 (received toy_dialogue) = blob" using *(4,5) by simp
    then show "(Some (PoolDecrypt ''PEM'' (take 256 (received toy_dialogue))), GotBytes pt) \<in>
        set (exchanges toy_env (new_session 0) (CallRun # toy_dialogue))"
      unfolding *(1) e by simp
    show "length (exchanges toy_env (new_session 0) (CallRun # toy_dialogue)) = 6" unfolding *(1) by simp
  qed
qed

end
