(* ===== verification/Session_Course.thy ===== *)
theory Session_Course
  imports Session_Exchange
begin

section \<open>The course of a connection\<close>

text \<open>
  What a connection does as a whole, from \<open>run()\<close> on, for every way the stream is cut and every
  order of events. First the outbound side: all that is written, from the nonce to the last frame,
  with the session key message spelled out by the answers that the session was given. Then the
  liveness of the handshake: if nothing breaks the connection and the answers are right, a session
  that has nothing left to wait for has completed it.
\<close>

subsection \<open>Outbound, with the session key message\<close>

text \<open>The opening up to the moment the handshake completes, followed step by step by \<open>runHandshake\<close>.\<close>

lemma opening_course:
  assumes "opening_at env g w s" and "task s = InHandshake hs" and "0 < hands (snd (run (session_step env) s es))"
  shows "\<exists>es1 es2 rs r. es = es1 @ es2 \<and> exchanges env s es = asked env hs rs \<and>
           pc (fst (run (hs_resume env) hs rs)) = Finished r \<and>
           written (snd (run (session_step env) s es1)) = concat (snd (run (hs_resume env) hs rs)) \<and>
           sent_run env s es1 = [] \<and>
           opened_at env (g @ received es1) (w @ written (snd (run (session_step env) s es1)))
             (fst (run (session_step env) s es1))"
  using assms
proof (induction es arbitrary: g w s hs)
  case (Cons e es)
  let ?s1 = "fst (session_step env s e)" and ?fx = "snd (session_step env s e)"
  note step = opening_step [OF Cons.prems(1), of e]
  then have quiet: "sent env s e = []" by blast
  have hands: "hands (snd (run (session_step env) s (e # es))) = hands ?fx + hands (snd (run (session_step env) ?s1 es))"
    by (simp add: run_Cons)
  show ?case
  proof (cases "\<exists>hs1. task ?s1 = InHandshake hs1")
    case True
    then obtain hs1 where t1: "task ?s1 = InHandshake hs1" ..
    then have "\<not> at_position ?s1 p" for p by (cases p) simp_all
    with step have o: "opening_at env (g @ chunk e) (w @ written ?fx) ?s1" and h0: "hands ?fx = 0"
      unfolding opening_to_def opened_at_def by blast+
    from Cons.IH [OF o t1] Cons.prems(3) h0 hands obtain es1 es2 rs r where
      es: "es = es1 @ es2" and ex: "exchanges env ?s1 es = asked env hs1 rs"
      and fin: "pc (fst (run (hs_resume env) hs1 rs)) = Finished r"
      and wr: "written (snd (run (session_step env) ?s1 es1)) = concat (snd (run (hs_resume env) hs1 rs))"
      and sn: "sent_run env ?s1 es1 = []"
      and op: "opened_at env ((g @ chunk e) @ received es1) ((w @ written ?fx) @ written (snd (run (session_step env) ?s1 es1)))
             (fst (run (session_step env) ?s1 es1))"
      by auto
    have "\<exists>rs. exchanges env s (e # es) = asked env hs rs \<and> pc (fst (run (hs_resume env) hs rs)) = Finished r \<and>
        written ?fx @ written (snd (run (session_step env) ?s1 es1)) = concat (snd (run (hs_resume env) hs rs))"
    proof (cases "hs_input s e")
      case None
      note n = input_none [OF Cons.prems(1,2) None]
      with None ex fin wr t1 show ?thesis by (intro exI [of _ rs]) simp
    next
      case (Some x)
      obtain hs' reply where x: "x = (hs', reply)" by fastforce
      from hs_input_step [OF Some [unfolded x], of env] Cons.prems(2) obtain v where hs': "hs' = hs"
        and seg: "session_step env s e = after_segment env (hs_resume env hs reply) (s\<lparr>woken := v\<rparr>)"
        by (auto simp: resume_handshake_def)
      from segment_goes_on t1 have "hs1 = fst (hs_resume env hs reply)" unfolding seg by blast
      with Some ex fin wr x hs' segment_written show ?thesis unfolding seg
        by (intro exI [of _ "reply # rs"]) (simp add: run_Cons seg)
    qed
    then obtain rs' where "exchanges env s (e # es) = asked env hs rs'" "pc (fst (run (hs_resume env) hs rs')) = Finished r"
      "written ?fx @ written (snd (run (session_step env) ?s1 es1)) = concat (snd (run (hs_resume env) hs rs'))" by blast
    with es sn quiet op show ?thesis
      by (intro exI [of _ "e # es1"] exI [of _ es2] exI [of _ rs'] exI [of _ r]) (simp add: run_Cons received_def)
  next
    case False
    then have no: "\<not> opening_at env (g @ chunk e) (w @ written ?fx) ?s1" unfolding opening_at_def by blast
    from step consider (over) "at_position ?s1 Over" "hands ?fx = 0"
      | (linked) "opened_at env (g @ chunk e) (w @ written ?fx) ?s1" "0 < hands ?fx"
      using no unfolding opening_to_def by argo
    then show ?thesis
    proof cases
      case over
      with over_hands [OF over(1), of env es] hands Cons.prems(3) show ?thesis by simp
    next
      case linked
      then have q: "exchanges env ?s1 es = []" using loop_quiet unfolding opened_at_def by blast
      from linked(2) have "hs_input s e \<noteq> None" using input_none(2) [OF Cons.prems(1,2)] by fastforce
      then obtain hs' reply where x: "hs_input s e = Some (hs', reply)" by fastforce
      from hs_input_step [OF x, of env] Cons.prems(2) obtain v where hs': "hs' = hs"
        and seg: "session_step env s e = after_segment env (hs_resume env hs reply) (s\<lparr>woken := v\<rparr>)"
        by (auto simp: resume_handshake_def)
      from hands_emits [OF linked(2)] segment_emits obtain r where
        "pc (fst (hs_resume env hs reply)) = Finished r" unfolding seg by blast
      moreover have "written ?fx = concat (snd (hs_resume env hs reply))" unfolding seg by (rule segment_written)
      ultimately show ?thesis using linked(1) x hs' q quiet
        by (intro exI [of _ "[e]"] exI [of _ es] exI [of _ "[reply]"] exI [of _ r]) (simp add: run_Cons received_def)
    qed
  qed
qed simp

text \<open>An answer of the wrong kind would change nothing.\<close>

lemma wrong_kind: "\<not> kind_ok (awaited env (pc hs), r) \<Longrightarrow> hs_resume env hs r = (hs, [])"
  by (cases "pc hs"; cases r) (simp_all add: hs_resume.simps)

lemma kinds_only:
  "\<exists>rs'. filter kind_ok (asked env hs rs) = asked env hs rs' \<and> list_all kind_ok (asked env hs rs') \<and>
     run (hs_resume env) hs rs' = run (hs_resume env) hs rs"
proof (induction rs arbitrary: hs)
  case Nil
  then show ?case by (intro exI [of _ "[]"]) simp
next
  case (Cons r rs)
  show ?case
  proof (cases "kind_ok (awaited env (pc hs), r)")
    case True
    from Cons.IH [of "fst (hs_resume env hs r)"] obtain rs' where
      "filter kind_ok (asked env (fst (hs_resume env hs r)) rs) = asked env (fst (hs_resume env hs r)) rs'"
      "list_all kind_ok (asked env (fst (hs_resume env hs r)) rs')"
      "run (hs_resume env) (fst (hs_resume env hs r)) rs' = run (hs_resume env) (fst (hs_resume env hs r)) rs" by blast
    with True show ?thesis by (intro exI [of _ "r # rs'"]) (simp add: run_Cons)
  next
    case False
    from wrong_kind [OF this] Cons.IH [of hs] False show ?thesis by (simp add: run_Cons)
  qed
qed

text \<open>What the six answers make the handshake write.\<close>

lemma handshake_writes:
  assumes "pc (fst (run (hs_resume env) (fst (hs_start env))
      [GotBytes b, GotBytes pt, GotKey (Some pem), GotBytes ct, GotBytes sig, GotBytes f])) = Finished r"
  shows "\<exists>hct hw. hello_out env (aes_key env) (start_iv env) = Inr (hct, hw) \<and>
     concat (snd (run (hs_resume env) (fst (hs_start env))
      [GotBytes b, GotBytes pt, GotKey (Some pem), GotBytes ct, GotBytes sig, GotBytes f])) = (ct @ sig) @ hw"
proof -
  let ?w = "\<lparr>w_coreId_blob = Inr b, w_plaintext = Inr pt, w_corePubPem = Inr (Some pem),
                w_sessionCiphertext = Inr ct, w_signature = Inr sig, w_helloFrame = Inr f\<rparr>"
  let ?rs = "[GotBytes b, GotBytes pt, GotKey (Some pem), GotBytes ct, GotBytes sig, GotBytes f]"
  have run: "fst (runHandshake env ?w) = fst (run (hs_resume env) (fst (hs_start env)) ?rs)"
    "snd (runHandshake env ?w) = env_nonce env # snd (run (hs_resume env) (fst (hs_start env)) ?rs)"
    by (simp_all add: runHandshake_def replies_def split_beta Let_def hs_start_def)
  have "straight_line env ?w = Inr r" using assms unfolding run(1) [symmetric] by (simp add: finished_straight)
  then obtain p hp m hct hw where *: "identify env pt = Inr (r_coreId r)" "pem \<noteq> []"
    "deriveAesParams (env_sessionKey env) = Inr p" "aesDecrypt (env_D env) (ap_key p) (ap_iv p) f = Inr hp"
    "decode hp = Inr m" "hello_out env (ap_key p) (ap_iv p) = Inr (hct, hw)"
    by (rule straight_line_success) auto
  have p: "ap_key p = aes_key env" "ap_iv p = start_iv env"
    using *(3) by (auto simp: deriveAesParams_def subarray_def split: if_splits)
  from *(1) have pt: "\<not> length pt < 52" "take 40 pt = env_nonce env" by (auto simp: identify_def split: if_splits)
  have "concat (snd (run (hs_resume env) (fst (hs_start env)) ?rs)) = (ct @ sig) @ hw"
    using pt *(2-6) by (simp add: run_Cons hs_start_def hs_resume.simps after_decrypt_def after_core_key_def
        after_sign_def after_hello_def send_hello_def set_stage_def subarray_def NONCE_BYTES_def ID_BYTES_def Let_def
        hello_out_def [symmetric])
  with *(6) p show ?thesis by auto
qed

text \<open>A run whose handshake completes splits at that moment. What has been written then is the nonce, the
  session key message of the six answers, and the server's Hello.\<close>

definition six_questions :: "hs_env \<Rightarrow> bytes \<Rightarrow> bytes \<Rightarrow> string \<Rightarrow> bytes option \<Rightarrow> string \<Rightarrow> bytes \<Rightarrow> bytes \<Rightarrow> bytes \<Rightarrow>
    (hs_request option \<times> hs_reply) list" where
  "six_questions env blob pt i der pem ct sig frame =
     [(Some (ReadBytes 256), GotBytes blob),
      (Some (PoolDecrypt (env_serverPriv env) blob), GotBytes pt),
      (Some (LoadCoreKey i der), GotKey (Some pem)),
      (Some (PoolEncrypt pem (env_sessionKey env)), GotBytes ct),
      (Some (PoolSign (env_serverPriv env) (env_hmac env ct (env_sessionKey env))), GotBytes sig),
      (Some ReadFrame, GotBytes frame)]"

lemma completed_course:
  fixes env :: hs_env and date :: nat and es :: "event list"
  defines "s0 \<equiv> fst (start_run env (new_session date))"
  assumes "0 < hands (snd (run (session_step env) s0 es))"
  shows "\<exists>es1 es2 blob pt i der pem ct sig f hct hw. es = es1 @ es2 \<and>
     filter kind_ok (exchanges env s0 es) = six_questions env blob pt i der pem ct sig f \<and>
     hello_out env (aes_key env) (start_iv env) = Inr (hct, hw) \<and>
     written (snd (run (session_step env) s0 es1)) = (ct @ sig) @ hw \<and> sent_run env s0 es1 = [] \<and>
     opened_at env (received es1) (env_nonce env @ written (snd (run (session_step env) s0 es1)))
       (fst (run (session_step env) s0 es1))"
proof -
  have t0: "task s0 = InHandshake (fst (hs_start env))" by (simp add: s0_def start_run_eq read_queue_def wake_def)
  from opening_course [OF opening_started [of env date, folded s0_def] t0 assms(2)]
  obtain es1 es2 rs r where es: "es = es1 @ es2" and a: "exchanges env s0 es = asked env (fst (hs_start env)) rs"
    and fin: "pc (fst (run (hs_resume env) (fst (hs_start env)) rs)) = Finished r"
    and w1: "written (snd (run (session_step env) s0 es1)) = concat (snd (run (hs_resume env) (fst (hs_start env)) rs))"
    and none: "sent_run env s0 es1 = []"
    and at: "opened_at env (received es1) (env_nonce env @ written (snd (run (session_step env) s0 es1)))
        (fst (run (session_step env) s0 es1))" by auto
  from kinds_only [of env "fst (hs_start env)" rs] obtain rs' where
    k: "filter kind_ok (asked env (fst (hs_start env)) rs) = asked env (fst (hs_start env)) rs'"
      "list_all kind_ok (asked env (fst (hs_start env)) rs')"
      "run (hs_resume env) (fst (hs_start env)) rs' = run (hs_resume env) (fst (hs_start env)) rs" by blast
  have "finishes env (fst (hs_start env)) rs' r" using k fin by (simp add: finishes_def)
  from finishes_start [OF this] obtain blob pt pem ct sig f where
    l: "rs' = [GotBytes blob, GotBytes pt, GotKey (Some pem), GotBytes ct, GotBytes sig, GotBytes f]"
    and q: "asked env (fst (hs_start env)) rs' = six_questions env blob pt (r_coreId r)
        (if length pt > 52 then Some (drop 52 pt) else None) pem ct sig f" unfolding six_questions_def by blast
  have "pc (fst (run (hs_resume env) (fst (hs_start env)) rs')) = Finished r" using fin k(3) by simp
  from handshake_writes [OF this [unfolded l]] obtain hct hw where
    ho: "hello_out env (aes_key env) (start_iv env) = Inr (hct, hw)"
    and w: "written (snd (run (session_step env) s0 es1)) = (ct @ sig) @ hw"
    unfolding w1 k(3) [symmetric] l by blast
  have "filter kind_ok (exchanges env s0 es) = six_questions env blob pt (r_coreId r)
      (if length pt > 52 then Some (drop 52 pt) else None) pem ct sig f" using a k(1) q by simp
  from es this ho w none at show ?thesis by (intro exI conjI)
qed

text \<open>C5. What the session sends is what the device reads. Once the handshake has completed, everything
  written to the socket is the nonce, the session key message, and a stream of whole frames. The
  session key message is the fresh session key as the pool encrypted it under the key on file for
  the device, followed by the pool's signature of the MAC of that ciphertext: it is made of the
  answers to the fourth and fifth of the six questions that the session asked. From the frames, a
  device that starts from the shared IV and rolls it as the firmware does decrypts first the
  server's Hello, and then exactly the messages that the session sent, in order, and nothing is
  left over, provided that every message is shorter than 65520 bytes, so that its ciphertext fits
  the length prefix. (An answer of a kind that was not asked for is ignored.)
\<close>

theorem server_messages_arrive:
  assumes "block_cipher (env_E env) D"
    and "run (session_step env) (new_session date) (CallRun # es) = (s, fx)" and "0 < hands fx"
    and "list_all fits (sent_run env (new_session date) (CallRun # es))"
  shows "\<exists>blob pt i der pem ct sig frame stream hello.
           filter kind_ok (exchanges env (new_session date) (CallRun # es)) =
             [(Some (ReadBytes 256), GotBytes blob),
              (Some (PoolDecrypt (env_serverPriv env) blob), GotBytes pt),
              (Some (LoadCoreKey i der), GotKey (Some pem)),
              (Some (PoolEncrypt pem (env_sessionKey env)), GotBytes ct),
              (Some (PoolSign (env_serverPriv env) (env_hmac env ct (env_sessionKey env))), GotBytes sig),
              (Some ReadFrame, GotBytes frame)] \<and>
           written fx = env_nonce env @ (ct @ sig) @ stream \<and>
           encode (server_hello (header_len (env_counter env))) = Inr hello \<and>
           snd (device_drain stream) = [] \<and>
           device_rx D (aes_key env) (start_iv env) (fst (device_drain stream)) =
             Inr hello # map Inr (sent_run env (new_session date) (CallRun # es))"
proof -
  define s0 where "s0 = fst (start_run env (new_session date))"
  have t: "task (new_session date) = NotRun" by (simp add: new_session_def)
  have fx: "0 < hands (snd (run (session_step env) s0 es))"
    "written fx = env_nonce env @ written (snd (run (session_step env) s0 es))"
    using assms(2,3) t by (auto simp: run_Cons s0_def start_run_eq)
  have ex: "exchanges env (new_session date) (CallRun # es) = exchanges env s0 es"
    and sent: "sent_run env (new_session date) (CallRun # es) = sent_run env s0 es"
    using t by (simp_all add: s0_def opened_def handled_def)
  from completed_course [OF fx(1) [unfolded s0_def], folded s0_def] obtain es1 es2 blob pt i der pem ct sig f hct hw where
    es: "es = es1 @ es2" and q: "filter kind_ok (exchanges env s0 es) = six_questions env blob pt i der pem ct sig f"
    and ho: "hello_out env (aes_key env) (start_iv env) = Inr (hct, hw)"
    and w: "written (snd (run (session_step env) s0 es1)) = (ct @ sig) @ hw" and none: "sent_run env s0 es1 = []"
    and at: "opened_at env (received es1) (env_nonce env @ written (snd (run (session_step env) s0 es1)))
       (fst (run (session_step env) s0 es1))" by blast
  let ?s1 = "fst (run (session_step env) s0 es1)"
  from at ho have p: "at_position ?s1 Check" and len: "32 \<le> length (env_sessionKey env)"
    and keys: "aesKey ?s1 = Some (aes_key env)" "ivOut ?s1 = Some (take 16 hct)" unfolding opened_at_def by auto
  have ps: "sent_run env s0 es = sent_run env ?s1 es2" using none by (simp add: es runs_append)
  have "list_all fits (sent_run env ?s1 es2)" using assms(4) unfolding sent ps .
  note server_stream [OF assms(1) p len keys ho this]
  moreover have "written fx = env_nonce env @ (ct @ sig) @ hw @ written (snd (run (session_step env) ?s1 es2))"
    using fx(2) w by (simp add: es run_append)
  ultimately show ?thesis using q unfolding ex sent ps six_questions_def by blast
qed

text \<open>A session that is asked to send nothing sends its Hello and nothing else.\<close>

theorem server_messages_arrive_witness:
  "\<exists>ct sig stream hello. written (snd (run (session_step toy_env) (new_session 0) (CallRun # toy_dialogue))) =
       replicate 40 1 @ (ct @ sig) @ stream \<and>
     (Some (PoolSign ''PEM'' []), GotBytes sig) \<in> set (exchanges toy_env (new_session 0) (CallRun # toy_dialogue)) \<and>
     encode (server_hello 0x1234) = Inr hello \<and>
     device_rx xor_cipher (replicate 16 2) (replicate 16 2) (fst (device_drain stream)) = [Inr hello]"
proof -
  obtain s fx where r: "run (session_step toy_env) (new_session 0) (CallRun # toy_dialogue) = (s, fx)" "hands fx = 1"
    by (rule toy_completes)
  have d: "block_cipher xor_cipher (env_D toy_env)" and e: "block_cipher (env_E toy_env) xor_cipher"
    by (simp_all add: toy_env_def xor_cipher_ok)
  have nil: "received toy_dialogue @ [] = replicate 256 0 @ ([0, 16, 0xFF] @ toy_hello) @ concat []"
    using toy_received by simp
  have "list_all2 (\<lambda>ct w. encodeDeviceFrame ct = Inr w) (chain xor_cipher (aes_key toy_env) (take 16 toy_hello) []) []"
    by simp
  from device_messages [OF d length_replicate toy_hello_wire this nil r(1)]
  have "opened_run toy_env (new_session 0) (CallRun # toy_dialogue) = []" by simp
  then have sent: "sent_run toy_env (new_session 0) (CallRun # toy_dialogue) = []"
    by (rule nothing_sent) (simp add: toy_dialogue_def dialogue_def)
  have n: "env_nonce toy_env = replicate 40 1" "header_len (env_counter toy_env) = 0x1234" "env_serverPriv toy_env = ''PEM''"
    "env_hmac toy_env x y = []" for x y by (simp_all add: toy_env_def header_len_def)
  from r(2) have "0 < hands fx" by simp
  have f: "list_all fits (sent_run toy_env (new_session 0) (CallRun # toy_dialogue))" by (simp only: sent list.pred_inject)
  from server_messages_arrive [OF e r(1) \<open>0 < hands fx\<close> f, unfolded sent n toy_keys list.map] show ?thesis
  proof (elim exE conjE)
    fix blob pt i der pem ct sig frame stream hello
    assume q: "filter kind_ok (exchanges toy_env (new_session 0) (CallRun # toy_dialogue)) =
      [(Some (ReadBytes 256), GotBytes blob), (Some (PoolDecrypt ''PEM'' blob), GotBytes pt),
       (Some (LoadCoreKey i der), GotKey (Some pem)), (Some (PoolEncrypt pem (env_sessionKey toy_env)), GotBytes ct),
       (Some (PoolSign ''PEM'' []), GotBytes sig), (Some ReadFrame, GotBytes frame)]"
      and w: "written fx = replicate 40 1 @ (ct @ sig) @ stream" "encode (server_hello 0x1234) = Inr hello"
        "device_rx xor_cipher (replicate 16 2) (replicate 16 2) (fst (device_drain stream)) = [Inr hello]"
    have "(Some (PoolSign ''PEM'' []), GotBytes sig) \<in> set (filter kind_ok (exchanges toy_env (new_session 0) (CallRun # toy_dialogue)))"
      unfolding q by simp
    then have "(Some (PoolSign ''PEM'' []), GotBytes sig) \<in> set (exchanges toy_env (new_session 0) (CallRun # toy_dialogue))"
      unfolding set_filter by (elim CollectE conjE)
    with w show ?thesis unfolding r(1) snd_conv by (intro exI conjI)
  qed
qed

end
