(* ===== verification/Session_Connects.thy ===== *)
theory Session_Connects
  imports Session_Course
begin

section \<open>A handshake that nothing breaks completes\<close>

text \<open>
  If \<open>runHandshake\<close> succeeds on what the device sends and what the pool and the key loader answer,
  then so does a session: for every way the stream is cut and every order in which chunks, answers,
  continuations, timers and calls of the host come, and whether or not more bytes follow the Hello
  at once. What may not happen is that the connection breaks: that the socket fails or closes, that
  the idle timer fires, or that the host disconnects.
\<close>

subsection \<open>Hypotheses on the events\<close>

fun breaks :: "event \<Rightarrow> bool" where
  "breaks (SocketError e) \<longleftrightarrow> True"
| "breaks SocketClosed \<longleftrightarrow> True"
| "breaks IdleTimeout \<longleftrightarrow> True"
| "breaks CallDisconnect \<longleftrightarrow> True"
| "breaks _ \<longleftrightarrow> False"

text \<open>An answer of the pool or the loader is the one that the world holds for this question.\<close>

fun right_answer :: "hs_world \<Rightarrow> hs_request option \<times> hs_reply \<Rightarrow> bool" where
  "right_answer w (Some (PoolDecrypt key ct), r) \<longleftrightarrow> r = reply_bytes (w_plaintext w)"
| "right_answer w (Some (LoadCoreKey i der), r) \<longleftrightarrow> r = reply_key (w_corePubPem w)"
| "right_answer w (Some (PoolEncrypt key b), r) \<longleftrightarrow> r = reply_bytes (w_sessionCiphertext w)"
| "right_answer w (Some (PoolSign key b), r) \<longleftrightarrow> r = reply_bytes (w_signature w)"
| "right_answer w _ \<longleftrightarrow> True"

text \<open>Nothing is left to wait for but bytes: no continuation is due and no question is open.\<close>

definition at_rest :: "session \<Rightarrow> bool" where
  "at_rest s \<longleftrightarrow> woken s = [] \<and> (case task s of InHandshake hs \<Rightarrow> \<not> asks (pc hs) | _ \<Rightarrow> True)"

subsection \<open>The path of a successful handshake\<close>

fun on_path :: "hs_env \<Rightarrow> hs_world \<Rightarrow> hs_pc \<Rightarrow> bool" where
  "on_path env w AtReadCoreId \<longleftrightarrow> True"
| "on_path env w (AtDecrypt ct) \<longleftrightarrow> True"
| "on_path env w (AtCoreKey i der) \<longleftrightarrow> bindE (w_plaintext w) (identify env) = Inr i"
| "on_path env w (AtEncrypt i pem) \<longleftrightarrow> bindE (w_plaintext w) (identify env) = Inr i"
| "on_path env w (AtSign i ct) \<longleftrightarrow> bindE (w_plaintext w) (identify env) = Inr i"
| "on_path env w (AtHello i k v) \<longleftrightarrow>
     bindE (w_plaintext w) (identify env) = Inr i \<and> k = aes_key env \<and> v = start_iv env"
| "on_path env w _ \<longleftrightarrow> False"

lemma path_next:
  assumes "straight_line env w = Inr r" and "on_path env w (pc hs)" and "asks (pc hs)"
    and "right_answer w (awaited env (pc hs), reply)"
  shows "on_path env w (pc (fst (hs_resume env hs reply)))"
  using assms(1)
proof (rule straight_line_success, goal_cases)
  case (1 blob pt pem ct sig p frame hp m hct hw)
  then have p: "ap_key p = aes_key env" "ap_iv p = start_iv env"
    by (auto simp: deriveAesParams_def subarray_def split: if_splits)
  from 1(3) have pt: "\<not> length pt < 52" "take 40 pt = env_nonce env" "r_coreId r = to_hex (take 12 (drop 40 pt))"
    by (auto simp: identify_def split: if_splits)
  show ?case
    using assms(2-4) 1 p pt
    by (cases "pc hs") (simp_all add: hs_resume.simps after_decrypt_def after_core_key_def after_sign_def set_stage_def
        subarray_def NONCE_BYTES_def ID_BYTES_def Let_def)
qed

lemma path_hello:
  assumes "straight_line env w = Inr r" and "on_path env w (pc hs)" and "pc hs = AtHello i k v"
    and "w_helloFrame w = Inr frame"
  shows "pc (fst (hs_resume env hs (GotBytes frame))) = Finished r"
  using assms(1)
proof (rule straight_line_success, goal_cases)
  case (1 blob pt pem ct sig p frame' hp m hct hw)
  then have p: "ap_key p = aes_key env" "ap_iv p = start_iv env"
    by (auto simp: deriveAesParams_def subarray_def split: if_splits)
  from 1 assms p have "i = r_coreId r" "frame' = frame" "k = aes_key env" "v = start_iv env" by simp_all
  with 1 p assms(3) show ?case
    by (simp add: hs_resume.simps after_hello_def send_hello_def set_stage_def subarray_def Let_def
        hello_out_def [symmetric])
qed

subsection \<open>A session that nothing has broken\<close>

fun resolved :: "reader settled \<Rightarrow> bool" where
  "resolved (Resolve w b) \<longleftrightarrow> True"
| "resolved (Reject w e) \<longleftrightarrow> False"

definition unbroken :: "session \<Rightarrow> bool" where
  "unbroken s \<longleftrightarrow> st s \<noteq> Closed \<and> \<not> q_closed (inq s) \<and> list_all resolved (woken s)"

lemma drain_loop_open: "drain_loop buf False ws = (buf', ws', es) \<Longrightarrow> list_all resolved es"
  by (induction buf False ws arbitrary: buf' ws' es rule: drain_loop.induct) (auto split: if_splits prod.splits)

lemma drain_open: "\<not> q_closed q \<Longrightarrow> list_all resolved (snd (drain q))"
  using drain_loop_open [of "q_buf q" "q_waiters q"] by (simp add: drain_def split: prod.splits)

lemma unbroken_read: "unbroken s \<Longrightarrow> unbroken (read_queue w n s)"
  by (simp add: unbroken_def read_queue_def wake_def read_def drain_open)

lemma unbroken_data: "unbroken s \<Longrightarrow> unbroken (on_data now c s)"
  by (simp add: unbroken_def on_data_def Let_def wake_def push_def drain_open)

lemma unbroken_still: "unbroken s \<Longrightarrow> still s s' \<Longrightarrow> st s' = st s \<Longrightarrow> unbroken s'"
  by (simp add: unbroken_def still_def)

lemma unbroken_segment:
  assumes "unbroken s" and "\<forall>e. pc (fst seg) \<noteq> Failed e"
  shows "unbroken (fst (after_segment env seg s))"
proof -
  let ?s = "s\<lparr>task := InHandshake (fst seg), hs_progress := Some (prog (fst seg))\<rparr>"
  have u: "unbroken ?s" using assms(1) by (simp add: unbroken_def)
  then have "unbroken (adopt r ?s)" for r by (simp add: unbroken_def adopt_def)
  with u assms(2) show ?thesis
    by (cases "pc (fst seg)") (simp_all add: after_segment_def Let_def unbroken_read)
qed

text \<open>An event that neither breaks the connection nor tells the handshake anything.\<close>

lemma unbroken_step:
  assumes "unbroken s" and "opening_at env g w s" and "task s = InHandshake hs" and "hs_input s e = None"
    and "\<not> breaks e"
  shows "unbroken (fst (session_step env s e))"
proof (cases e)
  case (Settle r)
  with assms show ?thesis by (cases "pc hs") (simp_all add: settle_def)
next
  case Micro
  from assms(2,3) obtain o' where o': "at_opening (pc hs) s o'" unfolding opening_at_def by auto
  show ?thesis
  proof (cases "woken s")
    case (Cons x xs)
    with o' have "reads_queue (pc hs)" by (cases o'; cases "pc hs") simp_all
    with assms(3,4) Micro Cons obtain b where x: "x = Resolve FrameHead b" by (cases x rule: read_reply.cases) simp_all
    have "unbroken (s\<lparr>woken := xs\<rparr>)" using assms(1) Cons by (simp add: unbroken_def)
    from unbroken_read [OF this] show ?thesis by (simp add: Micro micro_def Cons x)
  qed (use assms(1,3) Micro in \<open>simp add: micro_def\<close>)
next
  case (CallSend name opts)
  with unbroken_still [OF assms(1) call_send_still] call_send_keeps [of s env name opts] show ?thesis
    by (simp add: keeps_def)
next
  case (CallRequest name opts rnd)
  with unbroken_still [OF assms(1) request_still] request_keeps [of s env name opts rnd] show ?thesis
    by (simp add: keeps_def)
next
  case (RequestTimeout rid)
  with unbroken_still [OF assms(1) timeout_still] timeout_keeps [of s rid] show ?thesis by (simp add: keeps_def)
qed (use assms unbroken_data in simp_all)

text \<open>An event that tells the handshake something takes one continuation off the list at most.\<close>

lemma input_step:
  assumes "hs_input s e = Some (hs, reply)" and "unbroken s"
  obtains v where "session_step env s e = resume_handshake env hs reply (s\<lparr>woken := v\<rparr>)" and "unbroken (s\<lparr>woken := v\<rparr>)"
proof (cases e)
  case (Settle r)
  have "s\<lparr>woken := woken s\<rparr> = s" by simp
  moreover from assms(1) Settle have "session_step env s e = resume_handshake env hs reply s"
    by (auto simp: settle_def split: task.splits hs_pc.splits if_splits)
  ultimately show thesis using assms(2) that [of "woken s"] by simp
next
  case Micro
  with assms obtain r rs where r: "woken s = r # rs" "read_reply r = Some reply" and t: "task s = InHandshake hs"
    by (auto split: task.splits list.splits if_splits)
  have "resume_read env r (s\<lparr>woken := rs\<rparr>) = resume_handshake env hs reply (s\<lparr>woken := rs\<rparr>)"
    using r(2) t by (cases r rule: read_reply.cases) auto
  moreover have "unbroken (s\<lparr>woken := rs\<rparr>)" using assms(2) r(1) by (simp add: unbroken_def)
  ultimately show thesis using r(1) Micro that [of rs] by (simp add: micro_def)
qed (use assms in simp_all)

subsection \<open>One event of the opening\<close>

definition on_course :: "hs_env \<Rightarrow> hs_world \<Rightarrow> bytes \<Rightarrow> bytes \<Rightarrow> session \<Rightarrow> bool" where
  "on_course env w g wr s \<longleftrightarrow>
     (\<exists>hs. task s = InHandshake hs \<and> opening_at env g wr s \<and> on_path env w (pc hs) \<and> unbroken s)"

definition connects :: "hs_env \<Rightarrow> hs_result \<Rightarrow> bytes \<Rightarrow> bytes \<Rightarrow> session \<times> effect list \<Rightarrow> bool" where
  "connects env r g wr p \<longleftrightarrow>
     EmitHandshake r \<in> set (snd p) \<and> opened_at env g wr (fst p) \<and> st (fst p) = Connected \<and>
     coreId (fst p) = Some (r_coreId r) \<and> unbroken (fst p)"

lemma going_on:
  assumes "opening_at env g wr s" and "task (fst (session_step env s e)) = InHandshake hs"
  shows "opening_at env (g @ chunk e) (wr @ written (snd (session_step env s e))) (fst (session_step env s e))"
proof -
  from assms(2) have "\<not> at_position (fst (session_step env s e)) p" for p by (cases p) simp_all
  with opening_step [OF assms(1), of e] show ?thesis unfolding opening_to_def opened_at_def by blast
qed

lemma path_goes_on:
  assumes "on_path env w (pc (fst seg))"
  shows "task (fst (after_segment env seg s)) = InHandshake (fst seg)" and "\<forall>e. pc (fst seg) \<noteq> Failed e"
  using assms by (cases "pc (fst seg)"; simp add: after_segment_def Let_def read_queue_def wake_def)+

lemma course_step:
  assumes "straight_line env w = Inr r" and "w_helloFrame w = Inr hello" and "length blob = 256"
    and "encodeDeviceFrame hello = Inr hello_wire"
    and "on_course env w g wr s" and "\<not> breaks e"
    and "list_all (right_answer w) (exchanges env s [e])"
    and "(g @ chunk e) @ later = blob @ hello_wire @ tail"
  shows "on_course env w (g @ chunk e) (wr @ written (snd (session_step env s e))) (fst (session_step env s e)) \<or>
         connects env r (g @ chunk e) (wr @ written (snd (session_step env s e))) (session_step env s e)"
proof -
  from assms(5) obtain hs where t: "task s = InHandshake hs" and o: "opening_at env g wr s"
    and p: "on_path env w (pc hs)" and u: "unbroken s" unfolding on_course_def by blast
  show ?thesis
  proof (cases "hs_input s e")
    case None
    note n = input_none(1) [OF o t None]
    from going_on [OF o n] n p unbroken_step [OF u o t None assms(6)] show ?thesis
      unfolding on_course_def by blast
  next
    case (Some x)
    obtain hs' reply where x: "x = (hs', reply)" by fastforce
    note i = Some [unfolded x]
    obtain v where seg: "session_step env s e = after_segment env (hs_resume env hs' reply) (s\<lparr>woken := v\<rparr>)"
      and uv: "unbroken (s\<lparr>woken := v\<rparr>)" using input_step [OF i u, of env] by (metis resume_handshake_def)
    have hs': "hs' = hs" using hs_input_step [OF i, of env] t by simp
    have goes: ?thesis if "on_path env w (pc (fst (hs_resume env hs reply)))"
    proof -
      note g = path_goes_on [OF that]
      have "task (fst (session_step env s e)) = InHandshake (fst (hs_resume env hs reply))"
        unfolding seg hs' by (rule g(1))
      moreover have "unbroken (fst (session_step env s e))" unfolding seg hs' by (rule unbroken_segment [OF uv g(2)])
      ultimately show ?thesis using going_on [OF o] that unfolding on_course_def by blast
    qed
    have right: "right_answer w (awaited env (pc hs), reply)" using assms(7) i hs' by simp
    show ?thesis
    proof (cases "asks (pc hs)")
      case True
      from goes [OF path_next [OF assms(1) p True right]] show ?thesis .
    next
      case False
      with i hs' t have m: "e = Micro" by (cases e) (auto split: if_splits)
      with i t hs' obtain y ys where y: "woken s = y # ys" "read_reply y = Some reply" "reads_queue (pc hs)"
        by (auto split: list.splits if_splits)
      with u obtain b where b: "reply = GotBytes b" by (cases y rule: read_reply.cases) (auto simp: unbroken_def)
      obtain q where q: "awaited env (pc hs) = Some q" using y(3) by (cases "pc hs") simp_all
      note inp = read_input [OF o i [unfolded hs' b] q]
      show ?thesis
      proof (cases "pc hs")
        case AtReadCoreId
        then have "on_path env w (pc (fst (hs_resume env hs reply)))" by (simp add: b hs_resume.simps)
        then show ?thesis by (rule goes)
      next
        case (AtHello j k iv)
        with q inp obtain bl h rest where s: "length bl = 256" "length h = 3" "header_len h = length b"
          "g @ chunk e = bl @ h @ b @ rest" by auto
        from s(4) assms(8) have "bl @ h @ b @ (rest @ later) = blob @ hello_wire @ tail" by simp
        from device_stream_unique [OF this _ assms(4) s(2)] s(1,3) assms(3) have "b = hello" by simp
        from path_hello [OF assms(1) p AtHello assms(2)] have fin: "pc (fst (hs_resume env hs reply)) = Finished r"
          by (simp add: b \<open>b = hello\<close>)
        let ?s = "s\<lparr>woken := v, task := InHandshake (fst (hs_resume env hs reply)),
            hs_progress := Some (prog (fst (hs_resume env hs reply)))\<rparr>"
        have step: "session_step env s e = (adopt r ?s, map Write (snd (hs_resume env hs reply)) @ [EmitHandshake r])"
          unfolding seg hs' using fin by (simp add: after_segment_def Let_def)
        have "\<not> opening_at env g' w' (fst (session_step env s e))" for g' w'
          by (simp add: step opening_at_def adopt_def)
        moreover have "\<not> at_position (fst (session_step env s e)) Over" by (simp add: step adopt_def)
        ultimately have "opened_at env (g @ chunk e) (wr @ written (snd (session_step env s e))) (fst (session_step env s e))"
          using opening_step [OF o, of e] unfolding opening_to_def by blast
        moreover have "unbroken (adopt r ?s)" using uv by (simp add: unbroken_def adopt_def)
        moreover have "st (adopt r ?s) = Connected" "coreId (adopt r ?s) = Some (r_coreId r)" by (simp_all add: adopt_def)
        ultimately show ?thesis unfolding connects_def by (simp add: step)
      qed (use y(3) in simp_all)
    qed
  qed
qed

subsection \<open>The loop\<close>

lemma send_coreId: "coreId (fst (send env name opts s)) = coreId s"
  by (simp add: send_def sendPlain_def alloc_id_def split_beta Let_def split: option.split sum.split)

lemma shut_coreId:
  "coreId (fst (finalize s)) = coreId s" "coreId (fst (disconnect s)) = coreId s"
  "coreId (fst (fail_session e s)) = coreId s" "coreId (fst (run_catch e s)) = coreId s"
  by (simp_all add: fail_state disconnect_state run_catch_def Let_def finalize_def wake_def)

lemma handleFrame_coreId: "coreId (fst (handleFrame env ct s)) = coreId s"
  by (simp add: handleFrame_def dispatch_def sendPlain_def split_beta shut_coreId Let_def split: sum.split option.split)

lemma got_frame_coreId: "coreId (fst (got_frame env ct s)) = coreId s"
  by (simp add: got_frame_def split_beta shut_coreId handleFrame_coreId split: sum.split)

lemma loop_coreId:
  assumes "at_position s p"
  shows "coreId (fst (session_step env s e)) = coreId s"
proof -
  have t: "task s \<noteq> NotRun" "\<And>hs. task s \<noteq> InHandshake hs" using assms by (cases p; simp)+
  show ?thesis
  proof (cases e)
    case (Settle r)
    with t show ?thesis by (simp add: settle_def split: task.split)
  next
    case Micro
    with assms show ?thesis
      by (cases p) (simp_all add: micro_def got_frame_coreId shut_coreId loop_check_def read_queue_def wake_def)
  qed (use t in \<open>simp_all add: shut_coreId idle_timeout_def on_data_def wake_def Let_def
        request_timeout_def call_send_def request_def split_beta send_coreId split: option.split prod.split sum.split\<close>)
qed

lemma loop_run_coreId: "at_position s p \<Longrightarrow> coreId (fst (run (session_step env) s es)) = coreId s"
proof (induction es arbitrary: s p)
  case (Cons e es)
  obtain p1 where "at_position (fst (session_step env s e)) p1" using at_position_step [OF Cons.prems] by blast
  from Cons.IH [OF this] loop_coreId [OF Cons.prems] show ?case by (simp add: run_Cons)
qed simp

text \<open>A connected session that receives nothing stays connected.\<close>

definition idles :: "session \<Rightarrow> bool" where
  "idles s \<longleftrightarrow> st s = Connected \<and> unbroken s \<and> q_buf (inq s) = [] \<and> (at_position s Check \<or> at_position s WaitHead)"

lemma idle_step:
  assumes "idles s" and "\<not> breaks e" and "chunk e = []"
  shows "idles (fst (session_step env s e))"
proof -
  have s: "idles s'" if "still s s'" "st s' = st s" for s'
    using assms(1) that unbroken_still [of s s'] still_position [OF that(1)]
    by (auto simp: idles_def simp del: at_position.simps) (simp_all add: still_def)
  have t: "task s \<noteq> NotRun" "\<And>hs. task s \<noteq> InHandshake hs" using assms(1) by (auto simp: idles_def)
  show ?thesis
  proof (cases e)
    case (CallSend name opts)
    with s [OF call_send_still] call_send_keeps [of s env name opts] show ?thesis by (simp add: keeps_def)
  next
    case (CallRequest name opts rnd)
    with s [OF request_still] request_keeps [of s env name opts rnd] show ?thesis by (simp add: keeps_def)
  next
    case (RequestTimeout rid)
    with s [OF timeout_still] timeout_keeps [of s rid] show ?thesis by (simp add: keeps_def)
  next
    case (Settle r)
    with t assms(1) show ?thesis by (simp add: settle_def split: task.split)
  next
    case (Data now c)
    with assms(1,3) unbroken_data [of s now c] show ?thesis
      by (auto simp: idles_def on_data_def Let_def wake_def push_def drain_def)
  next
    case Micro
    show ?thesis
    proof (cases "at_position s Check")
      case True
      then have "fst (micro env s) = read_queue FrameHead 3 (s\<lparr>task := AwaitFrame\<rparr>)"
        using assms(1) by (simp add: micro_def loop_check_def idles_def)
      moreover have "unbroken (s\<lparr>task := AwaitFrame\<rparr>)" using assms(1) by (simp add: idles_def unbroken_def)
      moreover have "at_position (read_queue FrameHead 3 (s\<lparr>task := AwaitFrame\<rparr>)) WaitHead"
        "q_buf (inq (read_queue FrameHead 3 (s\<lparr>task := AwaitFrame\<rparr>))) = []"
        using assms(1) True by (simp_all add: idles_def unbroken_def read_queue_def wake_def read_def drain_def)
      ultimately show ?thesis using Micro assms(1) unbroken_read by (simp add: idles_def del: at_position.simps)
    next
      case False
      with assms(1) Micro show ?thesis by (auto simp: idles_def micro_def)
    qed
  qed (use assms t in simp_all)
qed

lemma idle_run:
  "idles s \<Longrightarrow> list_all (Not \<circ> breaks) es \<Longrightarrow> received es = [] \<Longrightarrow> idles (fst (run (session_step env) s es))"
proof (induction es arbitrary: s)
  case (Cons e es)
  then have "chunk e = []" "received es = []" by (simp_all add: received_def)
  with Cons idle_step [of s e env] show ?case by (simp add: run_Cons)
qed simp

subsection \<open>Runs\<close>

lemma course_run:
  assumes "straight_line env w = Inr r" and "w_helloFrame w = Inr hello" and "length blob = 256"
    and "encodeDeviceFrame hello = Inr hello_wire"
    and "on_course env w g wr s" and "list_all (Not \<circ> breaks) es"
    and "list_all (right_answer w) (exchanges env s es)"
    and "g @ received es = blob @ hello_wire @ tail"
  shows "(\<exists>wr'. on_course env w (g @ received es) wr' (fst (run (session_step env) s es))) \<or>
         (\<exists>es1 es2 wr'. es = es1 @ es2 \<and> connects env r (g @ received es1) wr' (run (session_step env) s es1))"
  using assms(5-8)
proof (induction es arbitrary: g wr s)
  case Nil
  then show ?case by (auto simp: received_def)
next
  case (Cons e es)
  let ?s1 = "fst (session_step env s e)"
  have "exchanges env s (e # es) = exchanges env s [e] @ exchanges env ?s1 es" by simp
  then have ex: "list_all (right_answer w) (exchanges env s [e])" "list_all (right_answer w) (exchanges env ?s1 es)"
    using Cons.prems(3) by (simp_all only: list_all_append)
  have st: "(g @ chunk e) @ received es = blob @ hello_wire @ tail" using Cons.prems(4) by (simp add: received_def)
  have b: "\<not> breaks e" "list_all (Not \<circ> breaks) es" using Cons.prems(2) by (simp_all add: list_all_iff)
  from course_step [OF assms(1-4) Cons.prems(1) b(1) ex(1) st] show ?case
  proof
    assume "on_course env w (g @ chunk e) (wr @ written (snd (session_step env s e))) ?s1"
    from Cons.IH [OF this b(2) ex(2) st] show ?thesis
    proof (elim disjE exE conjE)
      fix es1 es2 wr'
      assume "es = es1 @ es2" and "connects env r ((g @ chunk e) @ received es1) wr' (run (session_step env) ?s1 es1)"
      then show ?thesis
        by (intro disjI2 exI [of _ "e # es1"] exI [of _ es2] exI [of _ wr']) (simp add: connects_def run_Cons received_def)
    qed (auto simp: run_Cons received_def)
  next
    assume "connects env r (g @ chunk e) (wr @ written (snd (session_step env s e))) (session_step env s e)"
    then show ?thesis
      by (intro disjI2 exI [of _ "[e]"] exI [of _ es]) (auto simp: connects_def run_Cons received_def)
  qed
qed

text \<open>A session in its handshake that is at rest lacks bytes.\<close>

lemma course_rests:
  assumes "on_course env w (blob @ hello_wire @ tail) wr s" and "at_rest s" and "length blob = 256"
    and "encodeDeviceFrame hello = Inr hello_wire"
  shows False
proof -
  from assms(1) obtain hs o' where t: "task s = InHandshake hs" and o: "at_opening (pc hs) s o'"
    and g: "is_lost o' \<or> taken o' @ q_buf (inq s) = blob @ hello_wire @ tail"
    unfolding on_course_def opening_at_def by auto
  from assms(4) have len: "length hello \<le> 65535" and w: "hello_wire = u16be (length hello) @ [SYNC_BYTE] @ hello"
    by (auto simp: encodeDeviceFrame_def split: if_splits)
  have r: "woken s = []" "\<not> asks (pc hs)" using assms(2) t by (simp_all add: at_rest_def)
  show False
  proof (cases o')
    case WantBlob
    with o g assms(3) show ?thesis by auto
  next
    case (WantHello b)
    with o g have "length b = 256" "b @ q_buf (inq s) = blob @ hello_wire @ tail" "length (q_buf (inq s)) < 3" by auto
    moreover from this assms(3) have "q_buf (inq s) = hello_wire @ tail" by (simp add: append_eq_append_conv)
    ultimately show ?thesis by (simp add: w)
  next
    case (WantRest b h)
    with o g have b: "length b = 256" "length h = 3" "b @ h @ q_buf (inq s) = blob @ hello_wire @ tail"
      "length (q_buf (inq s)) < header_len h" by auto
    with assms(3) have e: "h @ q_buf (inq s) = hello_wire @ tail" by (simp add: append_eq_append_conv)
    have h: "h = u16be (length hello) @ [SYNC_BYTE]"
      using arg_cong [OF e, of "take 3"] b(2) by (simp add: w u16be_def)
    have "header_len h = length hello" unfolding h using header_len_u16be len by simp
    with e b(2,4) show ?thesis by (simp add: w h)
  qed (use o r in auto)
qed

text \<open>From the moment a session connects, its identity stays, and if nothing more comes, so does its state.\<close>

lemma connected_stays:
  assumes "connects env r (received es1) wr (run (session_step env) s0 es1)" and "list_all (Not \<circ> breaks) es2"
    and "length blob = 256" and "encodeDeviceFrame hello = Inr hello_wire"
    and "received (es1 @ es2) = blob @ hello_wire @ rest"
  shows "EmitHandshake r \<in> set (snd (run (session_step env) s0 (es1 @ es2)))"
    and "coreId (fst (run (session_step env) s0 (es1 @ es2))) = Some (r_coreId r)"
    and "rest = [] \<Longrightarrow> st (fst (run (session_step env) s0 (es1 @ es2))) = Connected"
proof -
  let ?s1 = "fst (run (session_step env) s0 es1)"
  from assms(1) obtain b h c where em: "EmitHandshake r \<in> set (snd (run (session_step env) s0 es1))"
    and c1: "st ?s1 = Connected" "coreId ?s1 = Some (r_coreId r)" "unbroken ?s1" and p: "at_position ?s1 Check"
    and g: "length b = 256" "length h = 3" "length c = header_len h" "received es1 = b @ h @ c @ q_buf (inq ?s1)"
    unfolding connects_def opened_at_def by auto
  show "EmitHandshake r \<in> set (snd (run (session_step env) s0 (es1 @ es2)))" using em by (simp add: run_append)
  show "coreId (fst (run (session_step env) s0 (es1 @ es2))) = Some (r_coreId r)"
    using loop_run_coreId [OF p] c1(2) by (simp add: run_append)
  assume "rest = []"
  then have "b @ h @ c @ (q_buf (inq ?s1) @ received es2) = blob @ hello_wire @ []"
    using assms(5) g(4) by (simp add: received_def)
  from device_stream_unique [OF this _ assms(4) g(2,3)] g(1) assms(3)
  have "q_buf (inq ?s1) = []" "received es2 = []" by simp_all
  then show "st (fst (run (session_step env) s0 (es1 @ es2))) = Connected"
    using idle_run [of ?s1 es2 env] c1 p assms(2) by (simp add: idles_def run_append del: at_position.simps)
qed

text \<open>C6. A connection that nothing breaks completes its handshake. Suppose that \<open>runHandshake\<close> succeeds
  with result \<open>r\<close> on a first message and a Hello frame of the device and on answers of the pool and
  the key loader. Let a session go through any sequence of events in which the connection is not
  broken (no socket error or close, no idle timeout, no disconnect by the host), in which what it
  receives, cut in any way, is that message, that frame and possibly more, and in which the
  questions that it asked were answered so. Whenever no question is open and no continuation is due,
  it has emitted \<open>handshake\<close> exactly once, with the result \<open>r\<close>, and bears the id of \<open>r\<close>; and if
  nothing was received beyond the Hello frame, it is connected.
\<close>

theorem session_runs_handshake:
  assumes "pc (fst (runHandshake env w)) = Finished r"
    and "w_coreId_blob w = Inr blob" and "length blob = 256"
    and "w_helloFrame w = Inr hello" and "encodeDeviceFrame hello = Inr hello_wire"
    and "run (session_step env) (new_session date) (CallRun # es) = (s, fx)"
    and "received es = blob @ hello_wire @ rest" and "list_all (Not \<circ> breaks) es"
    and "list_all (right_answer w) (exchanges env (new_session date) (CallRun # es))" and "at_rest s"
  shows "EmitHandshake r \<in> set fx \<and> hands fx = 1 \<and> coreId s = Some (r_coreId r) \<and> (rest = [] \<longrightarrow> st s = Connected)"
proof -
  define s0 where "s0 = fst (start_run env (new_session date))"
  have t: "task (new_session date) = NotRun" by (simp add: new_session_def)
  have ex: "list_all (right_answer w) (exchanges env s0 es)" using assms(9) t by (simp add: s0_def)
  have s: "s = fst (run (session_step env) s0 es)" and fx: "fx = Write (env_nonce env) # snd (run (session_step env) s0 es)"
    using assms(6) t by (auto simp: run_Cons s0_def start_run_eq)
  have straight: "straight_line env w = Inr r" using assms(1) by (simp add: finished_straight)
  have t0: "task s0 = InHandshake (fst (hs_start env))" by (simp add: s0_def start_run_eq read_queue_def wake_def)
  have "on_course env w [] (env_nonce env) s0"
    unfolding on_course_def
    by (intro exI [of _ "fst (hs_start env)"] conjI t0 opening_started [of env date, folded s0_def])
      (simp_all add: hs_start_def s0_def start_run_eq unbroken_def new_session_def new_byte_queue_def read_queue_def
        wake_def read_def drain_def)
  from course_run [OF straight assms(4,3,5) this assms(8) ex, of rest] assms(7)
  consider (still) wr where "on_course env w (blob @ hello_wire @ rest) wr s"
    | (through) es1 es2 wr where "es = es1 @ es2" "connects env r (received es1) wr (run (session_step env) s0 es1)"
    unfolding s by auto
  then show ?thesis
  proof cases
    case still
    from course_rests [OF this assms(10,3,5)] show ?thesis ..
  next
    case through
    have "list_all (Not \<circ> breaks) es2" using assms(8) through(1) by simp
    note c = connected_stays [OF through(2) this assms(3,5) assms(7) [unfolded through(1)]]
    moreover have "hands fx \<le> 1"
      using run_life [of s0 False env es] t0 by (simp add: fx in_handshake_def s0_def start_run_eq)
    moreover have "EmitHandshake r \<in> set fx" using c(1) by (simp add: fx through(1))
    ultimately show ?thesis using emits_hands [of r fx] by (auto simp: s through(1))
  qed
qed

subsection \<open>A concrete connection\<close>

text \<open>The first message comes in two pieces, the second of which brings the Hello frame along, while the
  pool has not been asked yet.\<close>

definition toy_pieces :: "event list" where
  "toy_pieces = [Data 1 (replicate 100 0), Data 2 (replicate 156 0 @ [0, 16, 0xFF] @ toy_hello), Micro,
     Settle (GotBytes (replicate 40 1 @ replicate 12 0xAB)), Settle (GotKey (Some ''DEVICE PEM'')),
     Settle (GotBytes [3]), Settle (GotBytes [4]), Micro, Micro]"

lemma pieces_start:
  assumes "length front = 100" and "length rear = 156" and "length head = 3"
  shows "\<exists>s fx. run (session_step env) (new_session date) [CallRun, Data 1 front, Data 2 (rear @ head @ frame), Micro] = (s, fx) \<and>
           task s = InHandshake \<lparr>pc = AtDecrypt (front @ rear), prog = \<lparr>p_stage = READ_COREID, p_coreId = None\<rparr>\<rparr> \<and>
           woken s = [] \<and> inq s = \<lparr>q_buf = head @ frame, q_waiters = [], q_closed = False\<rparr>"
    and "list_all (right_answer w)
           (exchanges env (new_session date) [CallRun, Data 1 front, Data 2 (rear @ head @ frame), Micro])"
  using assms by (simp_all add: step_eval)

lemma settle_answers:
  assumes "task s = InHandshake \<lparr>pc = AtDecrypt blob, prog = \<lparr>p_stage = READ_COREID, p_coreId = None\<rparr>\<rparr>"
    and "identify env pt = Inr c" and "pem \<noteq> []" and "deriveAesParams (env_sessionKey env) = Inr p"
    and "w_plaintext w = Inr pt" "w_corePubPem w = Inr (Some pem)" "w_sessionCiphertext w = Inr ct" "w_signature w = Inr sig"
  shows "list_all (right_answer w) (exchanges env s [Settle (GotBytes pt), Settle (GotKey (Some pem)),
           Settle (GotBytes ct), Settle (GotBytes sig)])"
proof -
  from assms(2) have "\<not> length pt < 52" "take 40 pt = env_nonce env" by (auto simp: identify_def split: if_splits)
  with assms(1,3-) show ?thesis
    by (simp add: settle_def resume_handshake_def after_segment_def hs_resume.simps after_decrypt_def
        after_core_key_def after_sign_def set_stage_def subarray_def NONCE_BYTES_def ID_BYTES_def Let_def)
qed

lemma pieces_end:
  assumes "task s = InHandshake hs" and "pc hs = AtHello c k v" and "woken s = []"
    and "inq s = \<lparr>q_buf = head @ frame, q_waiters = [], q_closed = False\<rparr>"
    and "length head = 3" and "header_len head = length frame"
    and "pc (fst (hs_resume env hs (GotBytes frame))) = Finished r"
  shows "at_rest (fst (run (session_step env) (read_queue FrameHead 3 s) [Micro, Micro]))"
    and "list_all (right_answer w) (exchanges env (read_queue FrameHead 3 s) [Micro, Micro])"
proof -
  let ?s1 = "s\<lparr>inq := \<lparr>q_buf = frame, q_waiters = [], q_closed = False\<rparr>, woken := [Resolve FrameHead head]\<rparr>"
  let ?s2 = "s\<lparr>inq := \<lparr>q_buf = [], q_waiters = [], q_closed = False\<rparr>, woken := [Resolve FrameBody frame]\<rparr>"
  have s: "read_queue FrameHead 3 s = ?s1" using assms by (simp add: read_queue_def wake_def read_def drain_def)
  have 1: "micro env ?s1 = (?s2, [])" using assms by (simp add: micro_def read_queue_def wake_def read_def drain_def)
  have 2: "at_rest (fst (micro env ?s2))"
    using assms by (simp add: micro_def resume_handshake_def after_segment_def Let_def adopt_def at_rest_def)
  show "at_rest (fst (run (session_step env) (read_queue FrameHead 3 s) [Micro, Micro]))"
    unfolding s using 2 by (simp add: run_Cons 1)
  show "list_all (right_answer w) (exchanges env (read_queue FrameHead 3 s) [Micro, Micro])"
    unfolding s using assms(1,2) by (simp add: 1)
qed

lemma toy_pieces_run:
  defines "w \<equiv> toy_world\<lparr>w_coreId_blob := Inr (replicate 256 0)\<rparr>"
  shows "at_rest (fst (run (session_step toy_env) (new_session 0) (CallRun # toy_pieces)))"
    and "list_all (right_answer w) (exchanges toy_env (new_session 0) (CallRun # toy_pieces))"
proof -
  let ?pt = "replicate 40 1 @ replicate 12 0xAB :: bytes"
  let ?es1 = "[CallRun, Data 1 (replicate 100 0), Data 2 (replicate 156 0 @ [0, 16, 0xFF] @ toy_hello), Micro]"
  let ?es2 = "[Settle (GotBytes ?pt), Settle (GotKey (Some ''DEVICE PEM'')), Settle (GotBytes [3]), Settle (GotBytes [4])]"
  let ?p = "\<lparr>ap_key = aes_key toy_env, ap_iv = start_iv toy_env\<rparr>" and ?c = "to_hex (replicate 12 0xAB)"
  let ?hs = "\<lparr>pc = AtHello ?c (aes_key toy_env) (start_iv toy_env), prog = \<lparr>p_stage = GET_HELLO, p_coreId = Some ?c\<rparr>\<rparr>"
  have id: "identify toy_env ?pt = Inr ?c" by (simp add: identify_def toy_env_def)
  have p: "deriveAesParams (env_sessionKey toy_env) = Inr ?p" by (simp add: deriveAesParams_def subarray_def toy_env_def)
  have es: "CallRun # toy_pieces = ?es1 @ ?es2 @ [Micro, Micro]" by (simp add: toy_pieces_def)
  from toy_world_256(1) obtain r where "straight_line toy_env w = Inr r"
    by (auto simp: finished_straight w_def)
  from path_hello [OF this, of ?hs ?c "aes_key toy_env" "start_iv toy_env" toy_hello] id toy_world_256(3,7)
  have fin: "pc (fst (hs_resume toy_env ?hs (GotBytes toy_hello))) = Finished r" by (simp add: w_def)
  have h: "length [0 :: byte, 16, 0xFF] = 3" "header_len [0, 16, 0xFF] = length toy_hello"
    by (simp_all add: toy_hello_def header_len_def)
  note start = pieces_start [where front = "replicate 100 0" and rear = "replicate 156 0" and env = toy_env and date = 0 and frame = toy_hello,
      OF length_replicate length_replicate h(1)]
  from start(1) obtain s1 fx1 blob where s1: "run (session_step toy_env) (new_session 0) ?es1 = (s1, fx1)"
    "task s1 = InHandshake \<lparr>pc = AtDecrypt blob, prog = \<lparr>p_stage = READ_COREID, p_coreId = None\<rparr>\<rparr>"
    "woken s1 = []" "inq s1 = \<lparr>q_buf = [0, 16, 0xFF] @ toy_hello, q_waiters = [], q_closed = False\<rparr>" by blast
  let ?s2 = "s1\<lparr>task := InHandshake ?hs, hs_progress := Some (prog ?hs)\<rparr>"
  obtain fx2 where s2: "run (session_step toy_env) s1 ?es2 = (read_queue FrameHead 3 ?s2, fx2)"
    using settle_chain [OF s1(2) id _ p, of "''DEVICE PEM''" "[3]" "[4]"] by (auto simp: Let_def)
  have e2: "list_all (right_answer w) (exchanges toy_env s1 ?es2)"
    by (rule settle_answers [OF s1(2) id _ p]) (use toy_world_256(3-6) in \<open>simp_all add: w_def\<close>)
  note fin3 = pieces_end [of ?s2 ?hs, OF _ _ _ _ h fin]
  show "at_rest (fst (run (session_step toy_env) (new_session 0) (CallRun # toy_pieces)))"
    unfolding es using fin3(1) s1 by (simp only: run_append s1(1) s2 fst_conv) simp
  show "list_all (right_answer w) (exchanges toy_env (new_session 0) (CallRun # toy_pieces))"
    unfolding es using fin3(2) [of _ _ _ w] start(2) [of w] e2 s1
    by (simp only: exchanges_append s1(1) s2 fst_conv list_all_append) simp
qed

theorem session_runs_handshake_witness:
  "\<exists>r. EmitHandshake r \<in> set (snd (run (session_step toy_env) (new_session 0) (CallRun # toy_pieces))) \<and>
     hands (snd (run (session_step toy_env) (new_session 0) (CallRun # toy_pieces))) = 1 \<and>
     st (fst (run (session_step toy_env) (new_session 0) (CallRun # toy_pieces))) = Connected"
proof -
  from toy_world_256(1) obtain r where
    r: "pc (fst (runHandshake toy_env (toy_world\<lparr>w_coreId_blob := Inr (replicate 256 0)\<rparr>))) = Finished r" ..
  have "received toy_pieces = replicate 256 0 @ ([0, 16, 0xFF] @ toy_hello) @ []"
    by (simp add: toy_pieces_def received_def replicate_add [symmetric])
  moreover have "list_all (Not \<circ> breaks) toy_pieces" by (simp add: toy_pieces_def)
  ultimately show ?thesis
    using session_runs_handshake [OF r toy_world_256(2) length_replicate toy_world_256(7) toy_hello_wire
        prod.collapse [symmetric] _ _ toy_pieces_run(2) toy_pieces_run(1)] by blast
qed

end
