(* ===== verification/Gateway.thy ===== *)
theory Gateway
  imports Session_Life
begin

section \<open>The gateway (class \<open>Gateway\<close> of \<open>lib/server.js\<close>)\<close>

text \<open>
  The gateway owns the listener and one session per accepted socket. Its state holds the sessions
  themselves, so that one event of the gateway is either a call of its own methods, an event of a
  listener, or an event of one session, whose effects run through the listeners that
  \<open>_onConnection\<close> attached. These read \<open>coreId\<close>, \<open>_handshakeError\<close> and \<open>_handshakeProgress\<close> of the
  session; the session sets them before it emits and not after, so the model reads them from the
  state after the session's step.

  Connections and listeners are numbered in the order of their creation. Time is the value of
  \<open>process.hrtime.bigint()\<close> in nanoseconds, given with the event. The registry is not part of the
  repository: what the gateway asks of it are the effects \<open>Register\<close>, of a session with its \<open>coreId\<close>,
  and \<open>Unregister\<close>.
\<close>

subsection \<open>Classifying failures\<close>

fun prefix_of :: "string \<Rightarrow> string \<Rightarrow> bool" where
  "prefix_of [] t \<longleftrightarrow> True"
| "prefix_of (c # s) [] \<longleftrightarrow> False"
| "prefix_of (c # s) (d # t) \<longleftrightarrow> c = d \<and> prefix_of s t"

fun str_includes :: "string \<Rightarrow> string \<Rightarrow> bool" where
  "str_includes [] s \<longleftrightarrow> prefix_of s []"
| "str_includes (c # m) s \<longleftrightarrow> prefix_of s (c # m) \<or> str_includes m s"

definition handshakeFailureReason :: "js_error option \<Rightarrow> string \<Rightarrow> string" where
  "handshakeFailureReason err stage =
     (case err of
        None \<Rightarrow> if stage = ''unknown'' then ''socket_closed'' else ''aborted''
      | Some e \<Rightarrow>
          let m = message e in
          if str_includes m ''RSA decrypt'' then ''rsa_fail''
          else if str_includes m ''nonce mismatch'' then ''nonce_mismatch''
          else if str_includes m ''AES decrypt'' then ''aes_hello_fail''
          else if str_includes m ''CoAP parse'' then ''hello_parse_fail''
          else if str_includes m ''core key not found'' then ''missing_core_key''
          else if m = ''idle timeout'' then ''timeout''
          else ''error'')"

definition disconnectReason :: "js_error option \<Rightarrow> string" where
  "disconnectReason err =
     (case err of
        None \<Rightarrow> ''peer_close''
      | Some e \<Rightarrow>
          let m = message e in
          if m = ''idle timeout'' then ''idle''
          else if str_includes m ''AES decrypt'' then ''aes_fail''
          else ''error'')"

text \<open>The stages are strings in the code, spelled as their names.\<close>

fun stage_name :: "stage \<Rightarrow> string" where
  "stage_name SEND_NONCE = ''SEND_NONCE''"
| "stage_name READ_COREID = ''READ_COREID''"
| "stage_name GET_COREKEY = ''GET_COREKEY''"
| "stage_name SEND_SESSIONKEY = ''SEND_SESSIONKEY''"
| "stage_name GET_HELLO = ''GET_HELLO''"
| "stage_name SEND_HELLO = ''SEND_HELLO''"
| "stage_name DONE = ''DONE''"

subsection \<open>State and effects\<close>

text \<open>What \<open>_onConnection\<close> captures for one socket, with its two \<open>once\<close> listeners.\<close>

record conn =
  c_session :: session
  c_remote :: string
  c_startedAt :: int
  handshakeSucceeded :: bool
  once_handshake :: bool
  once_close :: bool

text \<open>A listener of \<open>createServer\<close>: its address once bound, and its \<open>error\<close> listeners.\<close>

record listener =
  bound :: "string option"
  reject_armed :: bool
  forwards :: nat

record gateway =
  conns :: "conn list"
  sessions :: "nat list"
  listeners :: "listener list"
  server :: "nat option"

record failure_report =
  f_conn :: nat
  f_remote :: string
  f_coreId :: "string option"
  f_stage :: string
  f_result :: string
  f_durationMs :: int
  f_error :: "js_error option"

datatype gateway_effect =
    SetNoDelay nat
  | EmitConnection string nat
  | FromSession nat effect
  | Register nat "string option"
  | Unregister string
  | EmitSession nat int
  | HandshakeFailed failure_report
  | SessionDisconnected nat "string option" string int
  | Listen nat nat string
  | EmitListening "string option"
  | StartResolved nat "string option"
  | StartRejected nat js_error
  | EmitGatewayError js_error
  | UnhandledError js_error
  | CloseListener nat
  | StopResolved

text \<open>\<open>g_env\<close> gives each connection what its session takes from outside: the primitives and the server's
  key, which are the same for all, and the random bytes that are drawn for it.\<close>

record gateway_opts =
  g_port :: nat
  g_host :: "string option"
  g_env :: "nat \<Rightarrow> hs_env"

definition new_gateway :: gateway where
  "new_gateway = \<lparr>conns = [], sessions = [], listeners = [], server = None\<rparr>"

subsection \<open>Connections\<close>

text \<open>\<open>Math.round(Number(ns) / 1e6)\<close>.\<close>

definition round_ms :: "int \<Rightarrow> int" where
  "round_ms ns = (ns + 500000) div 1000000"

definition set_conn :: "nat \<Rightarrow> conn \<Rightarrow> gateway \<Rightarrow> gateway" where
  "set_conn c x g = g\<lparr>conns := (conns g)[c := x]\<rparr>"

definition on_handshake :: "nat \<Rightarrow> int \<Rightarrow> gateway \<Rightarrow> gateway \<times> gateway_effect list" where
  "on_handshake c now g =
     (let x = conns g ! c in
      if once_handshake x
      then (set_conn c (x\<lparr>once_handshake := False, handshakeSucceeded := True\<rparr>) g,
            [Register c (coreId (c_session x)), EmitSession c (round_ms (now - c_startedAt x))])
      else (g, []))"

text \<open>An empty \<open>coreId\<close> would be falsy; the handshake yields 24 digits.\<close>

definition truthy :: "string option \<Rightarrow> bool" where
  "truthy x \<longleftrightarrow> x \<noteq> None \<and> x \<noteq> Some []"

definition on_close :: "nat \<Rightarrow> int \<Rightarrow> gateway \<Rightarrow> gateway \<times> gateway_effect list" where
  "on_close c now g =
     (let x = conns g ! c; s = c_session x in
      if \<not> once_close x then (g, [])
      else
        let g1 = set_conn c (x\<lparr>once_close := False\<rparr>) (g\<lparr>sessions := removeAll c (sessions g)\<rparr>);
            wasRegistered = (truthy (coreId s) \<and> handshakeSucceeded x);
            out = (if truthy (coreId s) then [Unregister (the (coreId s))] else []);
            durationMs = round_ms (now - c_startedAt x)
        in if \<not> handshakeSucceeded x then
             let stage = (case hs_progress s of None \<Rightarrow> ''unknown'' | Some p \<Rightarrow> stage_name (p_stage p))
             in (g1, out @ [HandshakeFailed
                   \<lparr>f_conn = c, f_remote = c_remote x,
                    f_coreId = (case hs_progress s of None \<Rightarrow> None | Some p \<Rightarrow> p_coreId p),
                    f_stage = stage, f_result = handshakeFailureReason (hs_error s) stage,
                    f_durationMs = durationMs, f_error = hs_error s\<rparr>])
           else if wasRegistered then
             (g1, out @ [SessionDisconnected c (coreId s) (disconnectReason (hs_error s)) durationMs])
           else (g1, out))"

text \<open>The listeners hear what the session emits, in its order.\<close>

fun hear :: "nat \<Rightarrow> int \<Rightarrow> gateway \<Rightarrow> effect list \<Rightarrow> gateway \<times> gateway_effect list" where
  "hear c now g [] = (g, [])"
| "hear c now g (e # fx) =
     (let (g1, o1) = (case e of EmitHandshake r \<Rightarrow> on_handshake c now g
                              | EmitClose \<Rightarrow> on_close c now g
                              | _ \<Rightarrow> (g, []));
          (g2, o2) = hear c now g1 fx
      in (g2, FromSession c e # o1 @ o2))"

definition session_event :: "(nat \<Rightarrow> hs_env) \<Rightarrow> nat \<Rightarrow> int \<Rightarrow> event \<Rightarrow> gateway \<Rightarrow> gateway \<times> gateway_effect list" where
  "session_event env c now e g =
     (if c < length (conns g) then
        let x = conns g ! c; (s, fx) = session_step (env c) (c_session x) e
        in hear c now (set_conn c (x\<lparr>c_session := s\<rparr>) g) fx
      else (g, []))"

definition on_connection :: "(nat \<Rightarrow> hs_env) \<Rightarrow> string \<Rightarrow> nat \<Rightarrow> int \<Rightarrow> gateway \<Rightarrow> gateway \<times> gateway_effect list" where
  "on_connection env remote date now g =
     (let c = length (conns g);
          x = \<lparr>c_session = new_session date, c_remote = remote, c_startedAt = now, handshakeSucceeded = False,
               once_handshake = True, once_close = True\<rparr>;
          g1 = g\<lparr>conns := conns g @ [x], sessions := sessions g @ [c]\<rparr>;
          (g2, fx) = session_event env c now CallRun g1
      in (g2, [SetNoDelay c, EmitConnection remote c] @ fx))"

subsection \<open>The listener\<close>

definition gateway_start :: "gateway_opts \<Rightarrow> gateway \<Rightarrow> gateway \<times> gateway_effect list" where
  "gateway_start opts g =
     (let i = length (listeners g) in
      (g\<lparr>listeners := listeners g @ [\<lparr>bound = None, reject_armed = True, forwards = 0\<rparr>], server := Some i\<rparr>,
       [Listen i (g_port opts) (case g_host opts of None \<Rightarrow> ''0.0.0.0'' | Some h \<Rightarrow> h)]))"

text \<open>
  The callback of \<open>listen\<close> works on \<open>this._server\<close>, which is another listener if \<open>start\<close> was called
  again before it fired; \<open>off('error', reject)\<close> then removes nothing.
\<close>

definition on_listening :: "nat \<Rightarrow> string \<Rightarrow> gateway \<Rightarrow> gateway \<times> gateway_effect list" where
  "on_listening i addr g =
     (case server g of
        None \<Rightarrow> (g, [])
      | Some j \<Rightarrow>
          let ls = (listeners g)[i := (listeners g ! i)\<lparr>bound := Some addr\<rparr>];
              x = ls ! j;
              x' = x\<lparr>reject_armed := reject_armed x \<and> i \<noteq> j, forwards := forwards x + 1\<rparr>
          in (g\<lparr>listeners := ls[j := x']\<rparr>, [EmitListening (bound x), StartResolved i (bound x)]))"

definition on_server_error :: "nat \<Rightarrow> js_error \<Rightarrow> gateway \<Rightarrow> gateway \<times> gateway_effect list" where
  "on_server_error i e g =
     (let x = listeners g ! i in
      (g\<lparr>listeners := (listeners g)[i := x\<lparr>reject_armed := False\<rparr>]\<rparr>,
       (if reject_armed x then [StartRejected i e] else []) @ replicate (forwards x) (EmitGatewayError e) @
       (if \<not> reject_armed x \<and> forwards x = 0 then [UnhandledError e] else [])))"

text \<open>A failed \<open>listen\<close> leaves the listener unbound; \<open>address()\<close> of it is \<open>null\<close>.\<close>

definition gateway_address :: "gateway \<Rightarrow> string option" where
  "gateway_address g = (case server g of None \<Rightarrow> None | Some i \<Rightarrow> bound (listeners g ! i))"

definition sessionCount :: "gateway \<Rightarrow> nat" where
  "sessionCount g = length (sessions g)"

text \<open>
  \<open>disconnect()\<close> of a session removes it from the set that \<open>stop\<close> iterates; a \<open>Set\<close> allows that, and
  the iteration still meets every other member.
\<close>

fun disconnect_all :: "(nat \<Rightarrow> hs_env) \<Rightarrow> int \<Rightarrow> nat list \<Rightarrow> gateway \<Rightarrow> gateway \<times> gateway_effect list" where
  "disconnect_all env now [] g = (g, [])"
| "disconnect_all env now (c # cs) g =
     (let (g1, o1) = session_event env c now CallDisconnect g; (g2, o2) = disconnect_all env now cs g1
      in (g2, o1 @ o2))"

text \<open>After \<open>close()\<close> a listener has no address any more.\<close>

definition gateway_stop :: "(nat \<Rightarrow> hs_env) \<Rightarrow> int \<Rightarrow> gateway \<Rightarrow> gateway \<times> gateway_effect list" where
  "gateway_stop env now g =
     (case server g of
        None \<Rightarrow> (g, [StopResolved])
      | Some i \<Rightarrow>
          let (g1, fx) = disconnect_all env now (sessions g) g
          in (g1\<lparr>sessions := [], listeners := (listeners g1)[i := (listeners g1 ! i)\<lparr>bound := None\<rparr>]\<rparr>,
              fx @ [CloseListener i]))"

subsection \<open>One event\<close>

datatype gateway_event =
    Start
  | Bound nat string
  | ServerError nat js_error
  | Accept string nat int
  | OnSession nat int event
  | Stop int
  | ListenerClosed nat

fun gateway_step :: "gateway_opts \<Rightarrow> gateway \<Rightarrow> gateway_event \<Rightarrow> gateway \<times> gateway_effect list" where
  "gateway_step opts g Start = gateway_start opts g"
| "gateway_step opts g (Bound i addr) = (if i < length (listeners g) then on_listening i addr g else (g, []))"
| "gateway_step opts g (ServerError i e) = (if i < length (listeners g) then on_server_error i e g else (g, []))"
| "gateway_step opts g (Accept remote date now) = on_connection (g_env opts) remote date now g"
| "gateway_step opts g (OnSession c now e) = session_event (g_env opts) c now e g"
| "gateway_step opts g (Stop now) = gateway_stop (g_env opts) now g"
| "gateway_step opts g (ListenerClosed i) =
     (if i < length (listeners g) then (g, [StopResolved]) else (g, []))"

end
