(* ===== verification/Session_Health.thy ===== *)
theory Session_Health
  imports Session_Life
begin

section \<open>What a session shows when it closes\<close>

text \<open>
  The gateway reports a closed session by its fields \<open>coreId\<close>, \<open>_handshakeError\<close> and
  \<open>_handshakeProgress\<close>. The invariant \<open>healthy_session\<close> says what these can be: up to the first
  \<open>close\<close> there is no handshake error, a session that has finished its handshake has its id and
  its keys, and the only step that closes a session for the first time and leaves an error is one
  of the handshake.
\<close>

subsection \<open>The invariants of the fields\<close>

definition keyed :: "session \<Rightarrow> bool" where
  "keyed s \<longleftrightarrow> (\<exists>k v. aesKey s = Some k \<and> ivOut s = Some v \<and> length k = 16 \<and> length v = 16)"

text \<open>What the suspended handshake has learned.\<close>

definition hs_good :: "hs_state \<Rightarrow> bool" where
  "hs_good hs \<longleftrightarrow>
     (case pc hs of
        AtCoreKey c der \<Rightarrow> length c = 24
      | AtEncrypt c pem \<Rightarrow> length c = 24
      | AtSign c ct \<Rightarrow> length c = 24
      | AtHello c k v \<Rightarrow> length c = 24 \<and> length k = 16 \<and> length v = 16
      | Finished r \<Rightarrow> length (r_coreId r) = 24 \<and> length (r_aesKey r) = 16 \<and> length (r_ivOut r) = 16
      | _ \<Rightarrow> True)"

fun rejected :: "reader settled \<Rightarrow> bool" where
  "rejected (Reject w e) \<longleftrightarrow> True"
| "rejected _ \<longleftrightarrow> False"

definition no_reject :: "session \<Rightarrow> bool" where
  "no_reject s \<longleftrightarrow> list_all (\<lambda>r. \<not> rejected r) (woken s)"

definition named :: "session \<Rightarrow> bool" where
  "named s \<longleftrightarrow> (\<exists>i. coreId s = Some i \<and> length i = 24)"

definition fields_ok :: "effect list \<Rightarrow> session \<Rightarrow> bool" where
  "fields_ok h s \<longleftrightarrow>
     (0 < hands h \<longrightarrow> named s) \<and> (st s = Closed \<longrightarrow> 0 < closes h) \<and> (closes h = 0 \<longleftrightarrow> \<not> q_closed (inq s)) \<and>
     (closes h = 0 \<longrightarrow> no_reject s \<and> hs_error s = None) \<and> hs_progress s \<noteq> None"

definition task_ok :: "effect list \<Rightarrow> session \<Rightarrow> bool" where
  "task_ok h s \<longleftrightarrow>
     (\<forall>hs. task s = InHandshake hs \<longrightarrow> hands h = 0 \<and> hs_good hs) \<and>
     (task s = LoopCheck \<or> task s = AwaitFrame \<longrightarrow> keyed s)"

definition healthy_session :: "effect list \<Rightarrow> session \<Rightarrow> bool" where
  "healthy_session h s \<longleftrightarrow> fields_ok h s \<and> task_ok h s \<and> task s \<noteq> NotRun"

subsection \<open>Two kinds of handlers\<close>

text \<open>One that leaves these fields alone, and one that shuts the session.\<close>

definition mild :: "session \<Rightarrow> session \<times> effect list \<Rightarrow> bool" where
  "mild s r \<longleftrightarrow>
     st (fst r) = st s \<and> coreId (fst r) = coreId s \<and> hs_error (fst r) = hs_error s \<and>
     hs_progress (fst r) = hs_progress s \<and> q_closed (inq (fst r)) = q_closed (inq s) \<and>
     (\<not> q_closed (inq s) \<longrightarrow> no_reject s \<longrightarrow> no_reject (fst r)) \<and> (keyed s \<longrightarrow> keyed (fst r)) \<and>
     closes (snd r) = 0 \<and> hands (snd r) = 0"

definition final :: "session \<Rightarrow> session \<times> effect list \<Rightarrow> bool" where
  "final s r \<longleftrightarrow>
     st (fst r) = Closed \<and> coreId (fst r) = coreId s \<and> hs_error (fst r) = hs_error s \<and>
     hs_progress (fst r) = hs_progress s \<and> task (fst r) = task s \<and>
     (q_closed (inq (fst r)) \<longleftrightarrow> q_closed (inq s) \<or> st s \<noteq> Closed) \<and>
     (keyed s \<longrightarrow> keyed (fst r)) \<and> closes (snd r) = of_bool (st s \<noteq> Closed) \<and> hands (snd r) = 0"

lemma mild_fields: "fields_ok h s \<Longrightarrow> mild s r \<Longrightarrow> fields_ok (h @ snd r) (fst r)"
  by (auto simp: fields_ok_def mild_def named_def)

lemma final_fields: "fields_ok h s \<Longrightarrow> final s r \<Longrightarrow> fields_ok (h @ snd r) (fst r)"
  by (auto simp: fields_ok_def final_def named_def)

lemma mild_healthy:
  "healthy_session h s \<Longrightarrow> mild s r \<Longrightarrow> task (fst r) = task s \<Longrightarrow> healthy_session (h @ snd r) (fst r)"
  using mild_fields [of h s r] by (auto simp: healthy_session_def task_ok_def mild_def)

lemma final_healthy:
  "healthy_session h s \<Longrightarrow> final s r \<Longrightarrow> healthy_session (h @ snd r) (fst r)"
  using final_fields [of h s r] by (auto simp: healthy_session_def task_ok_def final_def)

lemma mild_refl: "mild s (s, [])"
  by (simp add: mild_def)

lemma mild_trans:
  "mild s (s1, fx) \<Longrightarrow> mild s1 (s2, gx) \<Longrightarrow> mild s (s2, fx @ gx)"
  by (auto simp: mild_def)

subsection \<open>The queue\<close>

lemma rejected_drain_closed: "q_closed (fst (drain q)) = q_closed q"
  by (simp add: drain_def split_beta)

lemma drain_loop_rejects: "drain_loop buf False ws = (buf', ws', es) \<Longrightarrow> list_all (\<lambda>r. \<not> rejected r) es"
  by (induction buf False ws arbitrary: buf' ws' es rule: drain_loop.induct) (auto split: if_splits prod.splits)

lemma drain_rejects: "\<not> q_closed q \<Longrightarrow> list_all (\<lambda>r. \<not> rejected r) (snd (drain q))"
  using drain_loop_rejects [of "q_buf q" "q_waiters q"]
  by (cases "drain_loop (q_buf q) False (q_waiters q)") (auto simp: drain_def)

lemma wake_mild:
  assumes "q_closed (fst r) = q_closed (inq s)" and "\<not> q_closed (inq s) \<Longrightarrow> list_all (\<lambda>r. \<not> rejected r) (snd r)"
  shows "mild s (wake s r, [])"
  using assms by (auto simp: mild_def wake_def no_reject_def keyed_def)

lemma read_queue_mild: "mild s (read_queue w n s, [])"
  unfolding read_queue_def
  by (rule wake_mild) (simp_all add: read_def rejected_drain_closed drain_rejects)

lemma on_data_mild: "mild s (on_data now b s, [])"
proof -
  let ?s = "s\<lparr>lastHeard := now, idle_armed := True\<rparr>"
  have "mild s (?s, [])" by (simp add: mild_def no_reject_def keyed_def)
  moreover have "mild ?s (wake ?s (push (inq ?s) b), [])"
    by (rule wake_mild) (simp_all add: push_def rejected_drain_closed drain_rejects)
  ultimately show ?thesis using mild_trans by (fastforce simp: on_data_def Let_def)
qed

subsection \<open>Sending\<close>

lemma sendPlain_mild:
  assumes "block_cipher (env_E env) D"
  shows "mild s (act_effects (sendPlain env plain s))"
proof (cases "with_keys (aesKey s) (ivOut s) (\<lambda>k v. aesEncrypt (env_E env) k v plain)")
  case (Inr ct)
  then obtain k v where k: "aesKey s = Some k" "aesEncrypt (env_E env) k v plain = Inr ct"
    by (auto simp: with_keys_def split: option.splits)
  from aes_roundtrip_ct(2) [OF assms k(2)] have "length (subarray ct 0 16) = 16" by (simp add: subarray_def)
  moreover have "length k = 16" using k(2) by (simp add: aesEncrypt_Inr_iff)
  ultimately show ?thesis
    using Inr k(1) by (auto simp: sendPlain_def Let_def mild_def no_reject_def keyed_def split: sum.split)
qed (simp add: sendPlain_def mild_refl)

lemma alloc_mild: "mild s (snd (alloc_id opts s), [])"
  by (simp add: alloc_id_def mild_def no_reject_def keyed_def split: option.split)

lemma send_mild:
  assumes "block_cipher (env_E env) D"
  shows "mild s (act_effects (send env name opts s))"
  using mild_trans [OF alloc_mild sendPlain_mild [OF assms, of "snd (alloc_id opts s)"]] alloc_mild mild_refl
  by (simp add: send_def split_beta split: option.split sum.split)

lemma call_send_mild:
  assumes "block_cipher (env_E env) D"
  shows "mild s (call_send env name opts s)"
  using send_mild [OF assms, of s name opts]
  by (simp add: call_send_def split_beta mild_def split: sum.split)

lemma request_mild:
  assumes "block_cipher (env_E env) D"
  shows "mild s (request env name opts rnd s)"
proof -
  have f: "mild s (s\<lparr>next_req := n, timers := t, pending := p\<rparr>, [])"
    "mild s (s\<lparr>timers := t, pending := p, next_req := n\<rparr>, [])"
    "mild s (s\<lparr>next_req := n\<rparr>, [RejectReq m e])" for n t p m e
    by (simp_all add: mild_def no_reject_def keyed_def)
  have g: "mild a (b\<lparr>pending := p, timers := t\<rparr>, fx @ [RejectReq rid e])" if "mild a (b, fx)" for a b fx p t rid e
    using that by (simp add: mild_def no_reject_def keyed_def)
  show ?thesis
    using f g mild_trans [OF f(1) send_mild [OF assms]]
    by (auto simp: request_def Let_def split_beta split: sum.split)
qed

lemma timeout_mild: "mild s (request_timeout rid s)"
  by (simp add: request_timeout_def mild_def no_reject_def keyed_def split: option.split prod.split)

subsection \<open>Closing\<close>

lemma finalize_final: "final s (finalize s)"
proof (cases "st s = Closed")
  case False
  have "closes (map (\<lambda>(key, rid). RejectReq rid e) ps) = 0 \<and> hands (map (\<lambda>(key, rid). RejectReq rid e) ps) = 0"
    for e and ps :: "(string \<times> nat) list" by (induction ps) auto
  with False show ?thesis
    by (simp add: finalize_def Let_def final_def wake_def close_def rejected_drain_closed keyed_def)
qed (simp add: finalize_def final_def)

lemma disconnect_final: "final s (disconnect s)"
  using finalize_final [of s] by (auto simp: disconnect_def split_beta final_def)

lemma fail_final: "final s (fail_session e s)"
  using disconnect_final [of s] by (auto simp: fail_session_def split_beta final_def)

lemma idle_final: "idle_armed s \<Longrightarrow> final s (idle_timeout s)"
proof -
  have "final (s\<lparr>idle_armed := False\<rparr>) r \<Longrightarrow> final s r" for r by (simp add: final_def keyed_def)
  then show "idle_armed s \<Longrightarrow> ?thesis" using fail_final by (simp add: idle_timeout_def)
qed

subsection \<open>Receiving\<close>

text \<open>An acknowledgement of a ping can always be sent.\<close>

lemma ack_sent:
  assumes "block_cipher (env_E env) D" and "keyed s" and "decode pt = Inr m"
  shows "\<exists>plain. encode (ping_ack m) = Inr plain \<and> (\<exists>u. snd (snd (sendPlain env plain s)) = Inr u)"
proof -
  have t: "length (token m) \<le> 8" using decode_fields [OF assms(3)] by simp
  then obtain plain where e: "encode (ping_ack m) = Inr plain" and l: "length plain \<le> 12"
    by (force simp: ping_ack_def encode_def payload_part_def Let_def)
  from assms(2) obtain k v where k: "aesKey s = Some k" "ivOut s = Some v" "length k = 16" "length v = 16"
    by (auto simp: keyed_def)
  let ?ct = "cbc_encrypt (env_E env) k v (pkcs7_pad plain)"
  have a: "aesEncrypt (env_E env) k v plain = Inr ?ct" using k(3,4) by (rule aesEncrypt_Inr)
  have "length ?ct \<le> 16"
    using aes_roundtrip_ct(2) [OF assms(1) a] l by simp
  then have "\<exists>w. encodeFrame ?ct = Inr w" by (simp add: encodeFrame_def)
  with a k(1,2) e show ?thesis by (auto simp: sendPlain_def with_keys_def Let_def)
qed

lemma dispatch_mild:
  assumes "block_cipher (env_E env) D" and "keyed s" and "decode pt = Inr m"
  shows "mild s (act_effects (dispatch env m s))" and "\<exists>u. snd (snd (dispatch env m s)) = Inr u"
  using ack_sent [OF assms] sendPlain_mild [OF assms(1), of s] mild_refl [of s]
  by (auto simp: dispatch_def mild_def no_reject_def keyed_def split: option.split)

lemma handleFrame_kind:
  assumes "block_cipher (env_E env) D" and "keyed s"
  shows "(mild s (act_effects (handleFrame env ct s)) \<and> task (fst (handleFrame env ct s)) = task s \<or>
          final s (act_effects (handleFrame env ct s))) \<and>
         (\<exists>u. snd (snd (handleFrame env ct s)) = Inr u)"
proof (cases "with_keys (aesKey s) (ivIn s) (\<lambda>k v. aesDecrypt (env_D env) k v ct)")
  case (Inl e)
  then show ?thesis using fail_final by (simp add: handleFrame_def split_beta)
next
  case pt: (Inr pt)
  show ?thesis
  proof (cases "decode pt")
    case (Inl e)
    with pt show ?thesis by (simp add: handleFrame_def mild_def no_reject_def keyed_def)
  next
    case (Inr m)
    let ?s = "s\<lparr>ivIn := Some (subarray ct 0 16), recvCounter := messageId m\<rparr>"
    have k: "keyed ?s" using assms(2) by (simp add: keyed_def)
    have "mild s (?s, [])" by (simp add: mild_def no_reject_def keyed_def)
    from mild_trans [OF this dispatch_mild(1) [OF assms(1) k Inr]] dispatch_mild(2) [OF assms(1) k Inr]
      dispatch_keeps [of ?s env m]
    show ?thesis using pt Inr by (simp add: handleFrame_def keeps_def)
  qed
qed

subsection \<open>The handshake\<close>

lemma send_hello_good:
  assumes "block_cipher (env_E env) D" and "length c = 24" and "length k = 16"
  shows "hs_good (fst (send_hello env hs c k v frame m))"
proof (cases "bindE (encode (server_hello (header_len (env_counter env)))) (\<lambda>plain.
                 bindE (aesEncrypt (env_E env) k v plain) (\<lambda>ct. bindE (encodeFrame ct) (\<lambda>w. Inr (ct, w))))")
  case (Inr x)
  then obtain plain ct w where x: "x = (ct, w)" and "aesEncrypt (env_E env) k v plain = Inr ct"
    by (auto simp: bindE_Inr_iff)
  from aes_roundtrip_ct(2) [OF assms(1) this(2)] have "length (subarray ct 0 16) = 16" by (simp add: subarray_def)
  with Inr x assms(2,3) show ?thesis by (simp add: send_hello_def hs_good_def Let_def)
qed (simp add: send_hello_def hs_good_def hs_fail_def Let_def)

lemma hs_resume_good:
  assumes "block_cipher (env_E env) D" and "hs_good hs"
  shows "hs_good (fst (hs_resume env hs reply))"
proof -
  have f: "hs_good (fst (hs_fail hs e))" for e by (simp add: hs_fail_def hs_good_def)
  have k: "hs_good (fst (after_core_key hs c x))" if "length c = 24" for c x
    using that by (simp add: after_core_key_def hs_good_def hs_fail_def set_stage_def split: option.split)
  have d: "hs_good (fst (after_decrypt env hs b))" for b
    by (auto simp: after_decrypt_def hs_good_def hs_fail_def Let_def subarray_def NONCE_BYTES_def ID_BYTES_def)
  have g: "hs_good (fst (after_sign env hs c ct b))" if "length c = 24" for c ct b
    using that deriveAesParams_Inr [of "env_sessionKey env"]
    by (auto simp: after_sign_def hs_good_def set_stage_def Let_def split: sum.split)
  have l: "hs_good (fst (after_hello env hs c k v b))" if "length c = 24" "length k = 16" for c k v b
    using send_hello_good [OF assms(1) that] f by (simp add: after_hello_def split: sum.split)
  show ?thesis
  proof (cases "pc hs")
    case (AtHello c kk v)
    with assms(2) l f show ?thesis by (cases reply) (simp_all add: hs_resume.simps hs_good_def)
  next
    case (AtCoreKey c der)
    with assms(2) k f show ?thesis by (cases reply) (simp_all add: hs_resume.simps hs_good_def)
  next
    case (AtSign c ct)
    with assms(2) g f show ?thesis by (cases reply) (simp_all add: hs_resume.simps hs_good_def)
  next
    case (AtDecrypt ct)
    with assms(2) d f show ?thesis by (cases reply) (simp_all add: hs_resume.simps hs_good_def)
  next
    case (AtEncrypt c pem)
    with assms(2) f show ?thesis by (cases reply) (simp_all add: hs_resume.simps hs_good_def)
  next
    case AtReadCoreId
    with assms(2) f show ?thesis by (cases reply) (simp_all add: hs_resume.simps hs_good_def)
  qed (use assms(2) in \<open>simp_all add: hs_resume.simps\<close>)
qed

text \<open>A segment of the handshake, from a session that is in it.\<close>

lemma segment_healthy:
  assumes "fields_ok h s" and "hands h = 0" and "hs_good (fst seg)"
  shows "healthy_session (h @ snd (after_segment env seg s)) (fst (after_segment env seg s))"
proof -
  let ?s1 = "s\<lparr>task := InHandshake (fst seg), hs_progress := Some (prog (fst seg))\<rparr>"
  have f: "fields_ok h ?s1" using assms(1) by (simp add: fields_ok_def named_def no_reject_def)
  have w: "fields_ok (h @ map Write ws) s2 = fields_ok h s2" "task_ok (h @ map Write ws) s2 = task_ok h s2" for ws s2
    by (simp_all add: fields_ok_def task_ok_def)
  have t: "task_ok h ?s1" using assms(2,3) by (simp add: task_ok_def)
  have rq: "healthy_session (h @ map Write ws) (read_queue rd n ?s1)" for ws rd n
    using mild_fields [OF f read_queue_mild] t by (simp add: healthy_session_def w task_ok_def)
  show ?thesis
  proof (cases "pc (fst seg)")
    case (Finished r)
    with assms f show ?thesis
      by (auto simp: after_segment_def Let_def adopt_def healthy_session_def fields_ok_def task_ok_def named_def
          keyed_def no_reject_def hs_good_def)
  next
    case (Failed e)
    let ?s2 = "?s1\<lparr>task := Ended, hs_error := Some e\<rparr>"
    show ?thesis
    proof (cases "st s = Closed")
      case True
      with assms(1) f Failed show ?thesis
        by (auto simp: after_segment_def Let_def run_catch_def healthy_session_def fields_ok_def task_ok_def named_def)
    next
      case False
      from fail_final [of ?s2 e] obtain s3 fx where r: "fail_session e ?s2 = (s3, fx)" and fin: "final ?s2 (s3, fx)"
        by (cases "fail_session e ?s2") simp
      then have "fields_ok (h @ fx) s3"
        using f False by (auto simp: fields_ok_def final_def named_def)
      moreover have "run_catch e ?s1 = (s3, fx)" using r False by (simp add: run_catch_def Let_def)
      then have "after_segment env seg s = (s3, map Write (snd seg) @ fx)"
        by (simp add: after_segment_def Let_def Failed)
      ultimately show ?thesis
        using fin False by (simp add: healthy_session_def task_ok_def final_def fields_ok_def)
    qed
  qed (use rq f t in \<open>simp_all add: after_segment_def Let_def healthy_session_def fields_ok_def task_ok_def
        split: option.split\<close>)
qed

subsection \<open>Every step\<close>

text \<open>The first \<open>close\<close> of a session that has finished its handshake shows no error.\<close>

definition closes_clean :: "effect list \<Rightarrow> session \<times> effect list \<Rightarrow> bool" where
  "closes_clean h r \<longleftrightarrow> (closes h = 0 \<and> 0 < closes (snd r) \<and> 0 < hands h \<longrightarrow> hs_error (fst r) = None)"

definition steady :: "effect list \<Rightarrow> session \<times> effect list \<Rightarrow> bool" where
  "steady h r \<longleftrightarrow> healthy_session (h @ snd r) (fst r) \<and> closes_clean h r"

lemma mild_steady: "healthy_session h s \<Longrightarrow> mild s r \<Longrightarrow> task (fst r) = task s \<Longrightarrow> steady h r"
  using mild_healthy [of h s r] by (simp add: steady_def closes_clean_def mild_def)

lemma final_steady: "healthy_session h s \<Longrightarrow> final s r \<Longrightarrow> steady h r"
  using final_healthy [of h s r]
  by (auto simp: steady_def closes_clean_def final_def healthy_session_def fields_ok_def)

lemma skip_steady: "healthy_session h s \<Longrightarrow> steady h (s, [])"
  by (rule mild_steady) (simp_all add: mild_refl)

lemma resume_steady:
  assumes "block_cipher (env_E env) D" and "healthy_session h s" and "task s = InHandshake hs"
  shows "steady h (resume_handshake env hs reply s)"
proof -
  from assms(2,3) have f: "fields_ok h s" and t: "hands h = 0" "hs_good hs"
    by (simp_all add: healthy_session_def task_ok_def)
  from segment_healthy [OF f t(1) hs_resume_good [OF assms(1) t(2)]] t(1)
  show ?thesis by (simp add: steady_def closes_clean_def resume_handshake_def)
qed

lemma got_frame_steady:
  assumes "block_cipher (env_E env) D" and "healthy_session h s" and "task s = AwaitFrame"
  shows "steady h (got_frame env ct s)"
proof -
  let ?s = "s\<lparr>task := LoopCheck\<rparr>"
  have k: "keyed s" using assms(2,3) by (simp add: healthy_session_def task_ok_def)
  then have k': "keyed ?s" by (simp add: keyed_def)
  have h: "healthy_session h ?s"
    using assms(2) k' by (simp add: healthy_session_def task_ok_def fields_ok_def named_def no_reject_def)
  obtain s1 fx u where r: "handleFrame env ct ?s = (s1, fx, Inr u)"
    using handleFrame_kind [OF assms(1) k', of ct] by (cases "handleFrame env ct ?s") auto
  then have "mild ?s (s1, fx) \<and> task s1 = task ?s \<or> final ?s (s1, fx)"
    using handleFrame_kind [OF assms(1) k', of ct] by simp
  with mild_steady [OF h, of "(s1, fx)"] final_steady [OF h, of "(s1, fx)"] r
  show ?thesis by (auto simp: got_frame_def)
qed

lemma rejected_steady:
  assumes "healthy_session h s" and "q_closed (inq s)"
  shows "steady h (run_catch e s)"
proof -
  from assms have c: "0 < closes h" by (auto simp: healthy_session_def fields_ok_def)
  let ?s = "s\<lparr>task := Ended, hs_error := Some e\<rparr>"
  have h: "healthy_session h ?s"
    using assms c by (auto simp: healthy_session_def fields_ok_def task_ok_def named_def no_reject_def)
  show ?thesis
    using final_steady [OF h fail_final] skip_steady [OF h] by (simp add: run_catch_def Let_def)
qed

lemma micro_steady:
  assumes "block_cipher (env_E env) D" and "healthy_session h s"
  shows "steady h (micro env s)"
proof (cases "woken s")
  case Nil
  show ?thesis
  proof (cases "task s = LoopCheck")
    case True
    have k: "keyed s" using assms(2) True by (simp add: healthy_session_def task_ok_def)
    have h: "healthy_session h (s\<lparr>task := t\<rparr>)" if "t = AwaitFrame \<or> t = Ended" for t
      using that assms(2) k
      by (auto simp: healthy_session_def task_ok_def fields_ok_def named_def no_reject_def keyed_def)
    have "steady h (read_queue FrameHead 3 (s\<lparr>task := AwaitFrame\<rparr>), [])"
      by (rule mild_steady [OF h read_queue_mild]) simp_all
    moreover have "steady h (s\<lparr>task := Ended\<rparr>, [])" by (rule skip_steady [OF h]) simp
    ultimately show ?thesis using Nil True by (simp add: micro_def loop_check_def)
  qed (use Nil assms(2) in \<open>simp add: micro_def skip_steady\<close>)
next
  case (Cons r rs)
  let ?s = "s\<lparr>woken := rs\<rparr>"
  have h: "healthy_session h ?s"
    using assms(2) Cons by (auto simp: healthy_session_def task_ok_def fields_ok_def named_def no_reject_def keyed_def)
  have rej: "rejected r \<Longrightarrow> q_closed (inq ?s)"
    using assms(2) Cons by (auto simp: healthy_session_def fields_ok_def no_reject_def)
  have rd: "steady h (read_queue w n ?s, [])" for w n
    by (rule mild_steady [OF h read_queue_mild]) simp
  have "steady h (resume_read env r ?s)"
  proof (cases r)
    case (Resolve w b)
    then show ?thesis
      using rd resume_steady [OF assms(1) h] got_frame_steady [OF assms(1) h] skip_steady [OF h]
      by (cases w; cases "task ?s") simp_all
  next
    case (Reject w e)
    then show ?thesis
      using rej resume_steady [OF assms(1) h] rejected_steady [OF h] skip_steady [OF h]
      by (cases "task ?s") simp_all
  qed
  then show ?thesis by (simp add: micro_def Cons)
qed

lemma step_steady:
  assumes "block_cipher (env_E env) D" and "healthy_session h s"
  shows "steady h (session_step env s e)"
proof -
  note m = mild_steady [OF assms(2)] and f = final_steady [OF assms(2)]
  note c = assms(1) and k = skip_steady [OF assms(2)]
  show ?thesis
  proof (cases e)
    case CallRun
    then show ?thesis using assms(2) k by (simp add: healthy_session_def)
  next
    case (Data now b)
    then show ?thesis using m [OF on_data_mild] on_data_keeps [of s now b] by (simp add: keeps_def)
  next
    case (RequestTimeout rid)
    then show ?thesis using m [OF timeout_mild] timeout_keeps [of s rid] by (simp add: keeps_def)
  next
    case (CallSend name opts)
    then show ?thesis using m [OF call_send_mild [OF c]] call_send_keeps [of s env name opts] by (simp add: keeps_def)
  next
    case (CallRequest name opts rnd)
    then show ?thesis using m [OF request_mild [OF c]] request_keeps [of s env name opts rnd] by (simp add: keeps_def)
  next
    case (Settle reply)
    then show ?thesis using k resume_steady [OF c assms(2)] by (simp add: settle_def split: task.split hs_pc.split)
  next
    case Micro
    then show ?thesis using micro_steady [OF c assms(2)] by simp
  next
    case IdleTimeout
    then show ?thesis using f [OF idle_final] k by (cases "idle_armed s") (simp_all add: idle_timeout_def)
  qed (simp_all add: f finalize_final disconnect_final fail_final)
qed

lemma started_healthy: "healthy_session (snd (start_run env (new_session now))) (fst (start_run env (new_session now)))"
  by (simp add: start_run_eq healthy_session_def fields_ok_def task_ok_def new_session_def hs_start_def hs_good_def
      read_queue_def wake_def read_def drain_def no_reject_def new_byte_queue_def)

lemma idle_error: "hs_error (fst (session_step env s IdleTimeout)) = hs_error s"
  using idle_final [of s] by (cases "idle_armed s") (simp_all add: final_def idle_timeout_def)

end
