(* ===== verification/Gateway_Reports.thy ===== *)
theory Gateway_Reports
  imports Gateway Session_Health
begin

section \<open>What the gateway reports of its sessions\<close>

text \<open>
  The gateway's state mirrors what its sessions emitted (\<open>mirrors\<close>): the flags of a connection, its
  reports and its place in the set of sessions are functions of the session's \<open>handshake\<close> and
  \<open>close\<close> events, and the session itself runs as theory \<open>Session\<close> says, whatever the others do.
\<close>

subsection \<open>Counting\<close>

fun heard :: "nat \<Rightarrow> gateway_effect list \<Rightarrow> effect list" where
  "heard c [] = []"
| "heard c (FromSession d e # out) = (if d = c then e # heard c out else heard c out)"
| "heard c (_ # out) = heard c out"

fun registers :: "nat \<Rightarrow> gateway_effect \<Rightarrow> bool" where
  "registers c (Register d i) \<longleftrightarrow> d = c"
| "registers c _ \<longleftrightarrow> False"

fun announces :: "nat \<Rightarrow> gateway_effect \<Rightarrow> bool" where
  "announces c (EmitSession d ms) \<longleftrightarrow> d = c"
| "announces c _ \<longleftrightarrow> False"

fun reports :: "nat \<Rightarrow> gateway_effect \<Rightarrow> bool" where
  "reports c (HandshakeFailed f) \<longleftrightarrow> f_conn f = c"
| "reports c (SessionDisconnected d i r ms) \<longleftrightarrow> d = c"
| "reports c _ \<longleftrightarrow> False"

definition count_of :: "(gateway_effect \<Rightarrow> bool) \<Rightarrow> gateway_effect list \<Rightarrow> nat" where
  "count_of P out = length (filter P out)"

lemma heard_append [simp]: "heard c (xs @ ys) = heard c xs @ heard c ys"
  by (induction c xs rule: heard.induct) simp_all

lemma count_of_simps [simp]:
  "count_of P [] = 0" "count_of P (x # xs) = of_bool (P x) + count_of P xs"
  "count_of P (xs @ ys) = count_of P xs + count_of P ys"
  by (simp_all add: count_of_def)

subsection \<open>One session's effects\<close>

definition flags_ok :: "effect list \<Rightarrow> conn \<Rightarrow> bool" where
  "flags_ok h x \<longleftrightarrow> (once_close x \<longleftrightarrow> closes h = 0) \<and> (once_handshake x \<longleftrightarrow> hands h = 0) \<and>
     (handshakeSucceeded x \<longleftrightarrow> 0 < hands h)"

text \<open>What the gateway does about connection \<open>c\<close> when its session, after the effects \<open>h\<close>, has the
  effects \<open>fx\<close>.\<close>

definition relays ::
    "nat \<Rightarrow> effect list \<Rightarrow> effect list \<Rightarrow> gateway \<Rightarrow> gateway \<times> gateway_effect list \<Rightarrow> bool" where
  "relays c h fx g r \<longleftrightarrow>
     (\<exists>x'. conns (fst r) = (conns g)[c := x'] \<and> c_session x' = c_session (conns g ! c) \<and> flags_ok (h @ fx) x') \<and>
     sessions (fst r) = (if closes h = 0 \<and> 0 < closes fx then removeAll c (sessions g) else sessions g) \<and>
     (\<forall>d. heard d (snd r) = (if d = c then fx else [])) \<and>
     (\<forall>d. count_of (registers d) (snd r) = of_bool (d = c \<and> hands h = 0 \<and> 0 < hands fx)) \<and>
     (\<forall>d. count_of (announces d) (snd r) = of_bool (d = c \<and> hands h = 0 \<and> 0 < hands fx)) \<and>
     (\<forall>d. count_of (reports d) (snd r) = of_bool (d = c \<and> closes h = 0 \<and> 0 < closes fx))"

lemma set_conn_simps [simp]:
  "conns (set_conn c x g) = (conns g)[c := x]" "sessions (set_conn c x g) = sessions g"
  by (simp_all add: set_conn_def)

lemma hear_nothing:
  "c < length (conns g) \<Longrightarrow> flags_ok h (conns g ! c) \<Longrightarrow> relays c h [] g (g, [])"
  by (auto simp: relays_def intro!: exI [of _ "conns g ! c"])

lemma relaysI:
  assumes "conns (fst r) = (conns g)[c := x']" and "c_session x' = c_session (conns g ! c)" and "flags_ok (h @ fx) x'"
    and "sessions (fst r) = (if closes h = 0 \<and> 0 < closes fx then removeAll c (sessions g) else sessions g)"
    and "\<And>d. heard d (snd r) = (if d = c then fx else [])"
    and "\<And>d. count_of (registers d) (snd r) = of_bool (d = c \<and> hands h = 0 \<and> 0 < hands fx)"
    and "\<And>d. count_of (announces d) (snd r) = of_bool (d = c \<and> hands h = 0 \<and> 0 < hands fx)"
    and "\<And>d. count_of (reports d) (snd r) = of_bool (d = c \<and> closes h = 0 \<and> 0 < closes fx)"
  shows "relays c h fx g r"
  using assms unfolding relays_def by blast

lemma handshake_relays:
  assumes "c < length (conns g)" and "flags_ok h (conns g ! c)" and "on_handshake c now g = (g1, o1)"
  shows "relays c h [EmitHandshake r] g (g1, FromSession c (EmitHandshake r) # o1)"
proof -
  let ?x = "conns g ! c"
  show ?thesis
  proof (cases "once_handshake ?x")
    case True
    with assms(3) have g1: "g1 = set_conn c (?x\<lparr>once_handshake := False, handshakeSucceeded := True\<rparr>) g"
      and o1: "o1 = [Register c (coreId (c_session ?x)), EmitSession c (round_ms (now - c_startedAt ?x))]"
      by (simp_all add: on_handshake_def Let_def)
    show ?thesis
      by (rule relaysI [of _ _ _ "?x\<lparr>once_handshake := False, handshakeSucceeded := True\<rparr>"])
        (use assms(1,2) True in \<open>auto simp: g1 o1 flags_ok_def\<close>)
  next
    case False
    with assms(3) have "g1 = g" "o1 = []" by (simp_all add: on_handshake_def Let_def)
    then show ?thesis
      by (intro relaysI [of _ _ _ ?x]) (use assms(1,2) False in \<open>auto simp: flags_ok_def\<close>)
  qed
qed

lemma close_relays:
  assumes "c < length (conns g)" and "flags_ok h (conns g ! c)" and "on_close c now g = (g1, o1)"
    and "0 < hands h \<longrightarrow> truthy (coreId (c_session (conns g ! c)))"
  shows "relays c h [EmitClose] g (g1, FromSession c EmitClose # o1)"
proof -
  let ?x = "conns g ! c"
  show ?thesis
  proof (cases "once_close ?x")
    case True
    with assms(3) have g1: "g1 = set_conn c (?x\<lparr>once_close := False\<rparr>) (g\<lparr>sessions := removeAll c (sessions g)\<rparr>)"
      by (auto simp: on_close_def Let_def split: if_splits)
    have "handshakeSucceeded ?x \<longrightarrow> truthy (coreId (c_session ?x))" using assms(2,4) by (simp add: flags_ok_def)
    with True assms(3) have "heard d o1 = [] \<and> count_of (registers d) o1 = 0 \<and> count_of (announces d) o1 = 0 \<and>
        count_of (reports d) o1 = of_bool (d = c)" for d
      by (auto simp: on_close_def Let_def split: if_splits)
    then show ?thesis
      by (intro relaysI [of _ _ _ "?x\<lparr>once_close := False\<rparr>"])
        (use assms(1,2) True in \<open>auto simp: g1 flags_ok_def\<close>)
  next
    case False
    with assms(3) have "g1 = g" "o1 = []" by (simp_all add: on_close_def Let_def)
    then show ?thesis
      by (intro relaysI [of _ _ _ ?x]) (use assms(1,2) False in \<open>auto simp: flags_ok_def\<close>)
  qed
qed

lemma other_relays:
  assumes "c < length (conns g)" and "flags_ok h (conns g ! c)" and "\<not> is_close e" and "\<not> is_handshake e"
  shows "relays c h [e] g (g, [FromSession c e])"
  by (intro relaysI [of _ _ _ "conns g ! c"]) (use assms in \<open>auto simp: flags_ok_def\<close>)

lemma relays_append:
  assumes "relays c h xs g (g1, o1)" and "relays c (h @ xs) ys g1 (g2, o2)" and "c < length (conns g)"
  shows "relays c h (xs @ ys) g (g2, o1 @ o2)"
proof -
  from assms(1) obtain x1 where 1: "conns g1 = (conns g)[c := x1]" "c_session x1 = c_session (conns g ! c)"
    by (auto simp: relays_def)
  from assms(2) obtain x2 where 2: "conns g2 = (conns g1)[c := x2]" "c_session x2 = c_session (conns g1 ! c)"
    "flags_ok (h @ xs @ ys) x2"
    by (auto simp: relays_def)
  show ?thesis
    by (rule relaysI [of _ _ _ x2]) (use assms 1 2 in \<open>simp_all add: relays_def\<close>)
qed

lemma hear_relays:
  assumes "c < length (conns g)" and "flags_ok h (conns g ! c)"
    and "0 < hands (h @ fx) \<longrightarrow> truthy (coreId (c_session (conns g ! c)))"
  shows "relays c h fx g (hear c now g fx)"
  using assms
proof (induction fx arbitrary: h g)
  case Nil
  then show ?case by (simp add: hear_nothing)
next
  case (Cons e fx)
  let ?x = "conns g ! c"
  obtain g1 o1 where s: "(case e of EmitHandshake r \<Rightarrow> on_handshake c now g
      | EmitClose \<Rightarrow> on_close c now g | _ \<Rightarrow> (g, [])) = (g1, o1)" by fastforce
  have one: "relays c h [e] g (g1, FromSession c e # o1)"
    using s Cons.prems
    by (cases e) (simp_all add: handshake_relays close_relays other_relays)
  then obtain x' where x': "conns g1 = (conns g)[c := x']" "c_session x' = c_session ?x" "flags_ok (h @ [e]) x'"
    by (auto simp: relays_def)
  obtain g2 o2 where r: "hear c now g1 fx = (g2, o2)" by (cases "hear c now g1 fx")
  have "relays c (h @ [e]) fx g1 (g2, o2)"
    unfolding r [symmetric] by (rule Cons.IH) (use Cons.prems x' in simp_all)
  from relays_append [OF one this Cons.prems(1)] show ?case by (simp add: s r)
qed

subsection \<open>The invariant\<close>

definition mirror :: "(nat \<Rightarrow> hs_env) \<Rightarrow> gateway \<Rightarrow> gateway_effect list \<Rightarrow> nat \<Rightarrow> bool" where
  "mirror env g out c \<longleftrightarrow>
     (let x = conns g ! c; h = heard c out in
      healthy_session h (c_session x) \<and> flags_ok h x \<and>
      (\<exists>date es. run (session_step (env c)) (new_session date) (CallRun # es) = (c_session x, h)) \<and>
      count_of (registers c) out = of_bool (0 < hands h) \<and>
      count_of (announces c) out = of_bool (0 < hands h) \<and>
      count_of (reports c) out = of_bool (0 < closes h))"

definition unknown :: "gateway_effect list \<Rightarrow> nat \<Rightarrow> bool" where
  "unknown out c \<longleftrightarrow>
     heard c out = [] \<and> count_of (registers c) out = 0 \<and> count_of (announces c) out = 0 \<and>
     count_of (reports c) out = 0"

definition gateway_ok :: "(nat \<Rightarrow> hs_env) \<Rightarrow> gateway \<Rightarrow> gateway_effect list \<Rightarrow> bool" where
  "gateway_ok env g out \<longleftrightarrow>
     (\<forall>c<length (conns g). mirror env g out c) \<and> (\<forall>c\<ge>length (conns g). unknown out c) \<and>
     distinct (sessions g) \<and> set (sessions g) = {c. c < length (conns g) \<and> closes (heard c out) = 0}"

text \<open>An effect that is about no connection.\<close>

fun about_none :: "gateway_effect \<Rightarrow> bool" where
  "about_none (FromSession c e) \<longleftrightarrow> False"
| "about_none (Register c i) \<longleftrightarrow> False"
| "about_none (EmitSession c ms) \<longleftrightarrow> False"
| "about_none (HandshakeFailed f) \<longleftrightarrow> False"
| "about_none (SessionDisconnected c i r ms) \<longleftrightarrow> False"
| "about_none _ \<longleftrightarrow> True"

lemma about_none_counts:
  "list_all about_none xs \<Longrightarrow>
   heard c xs = [] \<and> count_of (registers c) xs = 0 \<and> count_of (announces c) xs = 0 \<and> count_of (reports c) xs = 0"
proof (induction xs)
  case (Cons x xs)
  then show ?case by (cases x) simp_all
qed simp

lemma gateway_ok_quiet:
  assumes "gateway_ok env g out" and "list_all about_none xs"
    and "conns g' = conns g" and "sessions g' = sessions g"
  shows "gateway_ok env g' (out @ xs)"
  using assms about_none_counts [OF assms(2)] by (simp add: gateway_ok_def mirror_def unknown_def)

lemma relay_ok:
  assumes "gateway_ok env g out" and "c < length (conns g)"
    and "relays c (heard c out) fx (set_conn c x1 g) (g2, o2)"
    and "healthy_session (heard c out @ fx) (c_session x1)"
    and "run (session_step (env c)) (new_session date) (CallRun # es) = (c_session x1, heard c out @ fx)"
  shows "gateway_ok env g2 (out @ o2)"
proof -
  let ?h = "heard c out"
  from assms(3) obtain x' where x': "conns g2 = (conns g)[c := x']" "c_session x' = c_session x1" "flags_ok (?h @ fx) x'"
    and ses: "sessions g2 = (if closes ?h = 0 \<and> 0 < closes fx then removeAll c (sessions g) else sessions g)"
    and hd: "\<And>d. heard d o2 = (if d = c then fx else [])"
    and cnt: "\<And>d. count_of (registers d) o2 = of_bool (d = c \<and> hands ?h = 0 \<and> 0 < hands fx)"
      "\<And>d. count_of (announces d) o2 = of_bool (d = c \<and> hands ?h = 0 \<and> 0 < hands fx)"
      "\<And>d. count_of (reports d) o2 = of_bool (d = c \<and> closes ?h = 0 \<and> 0 < closes fx)"
    using assms(2) by (auto simp: relays_def)
  have old: "mirror env g out d" if "d < length (conns g)" for d using assms(1) that by (simp add: gateway_ok_def)
  have "mirror env g2 (out @ o2) c"
    using old [OF assms(2)] assms(2,4,5) x' hd cnt
    by (auto simp: mirror_def Let_def)
  moreover have "mirror env g2 (out @ o2) d" if "d < length (conns g)" "d \<noteq> c" for d
    using old [OF that(1)] that(2) x'(1) hd cnt by (simp add: mirror_def Let_def)
  moreover have "unknown (out @ o2) d" if "length (conns g) \<le> d" for d
    using assms(1,2) that hd cnt by (simp add: gateway_ok_def unknown_def)
  moreover have "distinct (sessions g2) \<and>
      set (sessions g2) = {d. d < length (conns g2) \<and> closes (heard d (out @ o2)) = 0}"
    using assms(1,2) ses x'(1) hd by (auto simp: gateway_ok_def distinct_removeAll)
  ultimately show ?thesis using x'(1) by (auto simp: gateway_ok_def)
qed

lemma session_event_ok:
  assumes "\<forall>c. block_cipher (env_E (env c)) (D c)" and "gateway_ok env g out" and "session_event env c now e g = (g2, o2)"
  shows "gateway_ok env g2 (out @ o2)"
proof (cases "c < length (conns g)")
  case True
  let ?x = "conns g ! c" and ?h = "heard c out"
  obtain s fx where st: "session_step (env c) (c_session ?x) e = (s, fx)" by fastforce
  let ?g1 = "set_conn c (?x\<lparr>c_session := s\<rparr>) g"
  have m: "mirror env g out c" using assms(2) True by (simp add: gateway_ok_def)
  then have h: "healthy_session ?h (c_session ?x)" and fl: "flags_ok ?h ?x" by (simp_all add: mirror_def Let_def)
  from m obtain date es where r: "run (session_step (env c)) (new_session date) (CallRun # es) = (c_session ?x, ?h)"
    by (auto simp: mirror_def Let_def)
  have h': "healthy_session (?h @ fx) s" using step_steady [OF spec [OF assms(1), of c] h, of e] st by (simp add: steady_def)
  then have "0 < hands (?h @ fx) \<longrightarrow> truthy (coreId s)"
    by (auto simp: healthy_session_def fields_ok_def named_def truthy_def)
  then have "relays c ?h fx ?g1 (hear c now ?g1 fx)"
    using True fl by (intro hear_relays) (simp_all add: flags_ok_def)
  moreover have "hear c now ?g1 fx = (g2, o2)" using assms(3) True st by (simp add: session_event_def)
  moreover have "run (session_step (env c)) (new_session date) (CallRun # (es @ [e])) = (s, ?h @ fx)"
    using r st run_append [of "session_step (env c)" "new_session date" "CallRun # es" "[e]"] by (simp add: run_Cons)
  ultimately show ?thesis using relay_ok [OF assms(2) True] h' by fastforce
next
  case False
  with assms(2,3) show ?thesis by (simp add: session_event_def)
qed

lemma connection_ok:
  assumes "gateway_ok env g out" and "on_connection env remote date now g = (g2, o2)"
  shows "gateway_ok env g2 (out @ o2)"
proof -
  let ?c = "length (conns g)" and ?s = "fst (start_run (env (length (conns g))) (new_session date))"
  let ?x = "\<lparr>c_session = ?s, c_remote = remote, c_startedAt = now, handshakeSucceeded = False,
               once_handshake = True, once_close = True\<rparr>"
  have fx: "snd (start_run (env ?c) (new_session date)) = [Write (env_nonce (env ?c))]" by (simp add: start_run_eq)
  have t: "task (new_session date) = NotRun" by (simp add: new_session_def)
  have r: "g2 = g\<lparr>conns := conns g @ [?x], sessions := sessions g @ [?c]\<rparr>"
    "o2 = [SetNoDelay ?c, EmitConnection remote ?c, FromSession ?c (Write (env_nonce (env ?c)))]"
    using assms(2) fx t by (auto simp: on_connection_def session_event_def split_beta Let_def set_conn_def)
  have u: "unknown out d" if "?c \<le> d" for d using assms(1) that by (simp add: gateway_ok_def)
  have "healthy_session [Write (env_nonce (env ?c))] ?s" using started_healthy [of "env ?c" date] fx by simp
  moreover have "run (session_step (env ?c)) (new_session date) (CallRun # []) = (?s, [Write (env_nonce (env ?c))])"
    using fx t by (simp add: run_Cons prod_eq_iff)
  ultimately have "mirror env g2 (out @ o2) ?c"
    using u [of ?c] by (auto simp: mirror_def Let_def r unknown_def flags_ok_def simp del: run.simps)
  moreover have "mirror env g2 (out @ o2) d" if "d < ?c" for d
    using assms(1) that by (simp add: gateway_ok_def mirror_def Let_def r nth_append)
  moreover have "unknown (out @ o2) d" if "?c < d" for d
    using u [of d] that by (simp add: unknown_def r)
  moreover have "distinct (sessions g2) \<and> set (sessions g2) = {d. d < length (conns g2) \<and> closes (heard d (out @ o2)) = 0}"
    using assms(1) u [of ?c] by (auto simp: gateway_ok_def r unknown_def)
  ultimately show ?thesis by (auto simp: gateway_ok_def r less_Suc_eq)
qed

lemma disconnected:
  assumes "\<forall>c. block_cipher (env_E (env c)) (D c)" and "gateway_ok env g out"
    and "session_event env c now CallDisconnect g = (g2, o2)"
  shows "set (sessions g2) \<subseteq> set (sessions g) - {c}" and "length (conns g2) = length (conns g)"
proof -
  note ok = session_event_ok [OF assms]
  have sub: "set (sessions g2) \<subseteq> set (sessions g) \<and> length (conns g2) = length (conns g) \<and>
      (c < length (conns g) \<longrightarrow> st (c_session (conns g2 ! c)) = Closed)"
  proof (cases "c < length (conns g)")
    case True
    let ?x = "conns g ! c" and ?h = "heard c out"
    obtain s fx where st: "session_step (env c) (c_session ?x) CallDisconnect = (s, fx)" by fastforce
    let ?g1 = "set_conn c (?x\<lparr>c_session := s\<rparr>) g"
    have m: "mirror env g out c" using assms(2) True by (simp add: gateway_ok_def)
    then have h: "healthy_session ?h (c_session ?x)" and fl: "flags_ok ?h ?x" by (simp_all add: mirror_def Let_def)
    have h': "healthy_session (?h @ fx) s" using step_steady [OF spec [OF assms(1), of c] h, of CallDisconnect] st by (simp add: steady_def)
    then have "0 < hands (?h @ fx) \<longrightarrow> truthy (coreId s)"
      by (auto simp: healthy_session_def fields_ok_def named_def truthy_def)
    then have "relays c ?h fx ?g1 (hear c now ?g1 fx)"
      using True fl by (intro hear_relays) (simp_all add: flags_ok_def)
    moreover have "hear c now ?g1 fx = (g2, o2)" using assms(3) True st by (simp add: session_event_def)
    moreover have "st s = Closed" using disconnect_final [of "c_session ?x"] st by (simp add: final_def)
    ultimately show ?thesis using True by (auto simp: relays_def split: if_splits)
  qed (use assms(3) in \<open>simp add: session_event_def\<close>)
  have "c \<notin> set (sessions g2)"
  proof
    assume "c \<in> set (sessions g2)"
    with ok have c: "c < length (conns g2)" "closes (heard c (out @ o2)) = 0" by (simp_all add: gateway_ok_def)
    with ok have "healthy_session (heard c (out @ o2)) (c_session (conns g2 ! c))"
      by (simp add: gateway_ok_def mirror_def Let_def)
    with c sub show False by (auto simp: healthy_session_def fields_ok_def)
  qed
  with sub show "set (sessions g2) \<subseteq> set (sessions g) - {c}" and "length (conns g2) = length (conns g)" by auto
qed

lemma disconnect_all_ok:
  assumes "\<forall>c. block_cipher (env_E (env c)) (D c)" and "gateway_ok env g out" and "disconnect_all env now cs g = (g2, o2)"
  shows "gateway_ok env g2 (out @ o2) \<and> set (sessions g2) \<subseteq> set (sessions g) - set cs"
  using assms(2,3)
proof (induction cs arbitrary: g out g2 o2)
  case (Cons c cs)
  obtain g1 o1 where 1: "session_event env c now CallDisconnect g = (g1, o1)" by fastforce
  obtain g3 o3 where 2: "disconnect_all env now cs g1 = (g3, o3)" by fastforce
  note ok = session_event_ok [OF assms(1) Cons.prems(1) 1]
  from Cons.IH [OF ok 2] disconnected(1) [OF assms(1) Cons.prems(1) 1] Cons.prems(2) 1 2 show ?case by auto
qed simp

lemma stop_ok:
  assumes "\<forall>c. block_cipher (env_E (env c)) (D c)" and "gateway_ok env g out" and "gateway_stop env now g = (g2, o2)"
  shows "gateway_ok env g2 (out @ o2)"
proof (cases "server g")
  case None
  with assms(3) have "g2 = g" "o2 = [StopResolved]" by (simp_all add: gateway_stop_def)
  then show ?thesis using gateway_ok_quiet [OF assms(2), of "[StopResolved]" g] by simp
next
  case (Some i)
  obtain g1 o1 where d: "disconnect_all env now (sessions g) g = (g1, o1)" by fastforce
  from disconnect_all_ok [OF assms(1,2) d] have ok: "gateway_ok env g1 (out @ o1)" and e: "sessions g1 = []" by auto
  from assms(3) Some d have "conns g2 = conns g1" "sessions g2 = sessions g1" "o2 = o1 @ [CloseListener i]"
    using e by (auto simp: gateway_stop_def Let_def)
  with gateway_ok_quiet [OF ok, of "[CloseListener i]" g2] show ?thesis by simp
qed

lemma gateway_step_ok:
  assumes "\<forall>c. block_cipher (env_E (g_env opts c)) (D c)" and "gateway_ok (g_env opts) g out"
    and "gateway_step opts g e = (g2, o2)"
  shows "gateway_ok (g_env opts) g2 (out @ o2)"
proof -
  have q: "gateway_ok (g_env opts) g' (out @ xs)"
    if "list_all about_none xs" "conns g' = conns g" "sessions g' = sessions g" for xs g'
    using gateway_ok_quiet [OF assms(2) that] .
  have rep: "list_all about_none (replicate n (EmitGatewayError x))" for n x by (induction n) simp_all
  show ?thesis
  proof (cases e)
    case (Accept remote date now)
    with assms(3) show ?thesis by (simp add: connection_ok [OF assms(2)])
  next
    case (OnSession c now ev)
    with assms(3) show ?thesis by (simp add: session_event_ok [OF assms(1,2)])
  next
    case (Stop now)
    with assms(3) show ?thesis by (simp add: stop_ok [OF assms(1,2)])
  next
    case Start
    with assms(3) show ?thesis by (auto simp: gateway_start_def Let_def intro!: q)
  next
    case (Bound i a)
    with assms(3) q [of "[]" g] show ?thesis
      by (auto simp: on_listening_def Let_def intro!: q split: if_splits option.splits)
  next
    case (ServerError i x)
    with assms(3) q [of "[]" g] rep show ?thesis
      by (auto simp: on_server_error_def Let_def intro!: q split: if_splits)
  next
    case (ListenerClosed i)
    with assms(3) q [of "[]" g] show ?thesis by (auto intro!: q split: if_splits)
  qed
qed

lemma run_ok:
  assumes "\<forall>c. block_cipher (env_E (g_env opts c)) (D c)" and "gateway_ok (g_env opts) g out"
  shows "gateway_ok (g_env opts) (fst (run (gateway_step opts) g es)) (out @ snd (run (gateway_step opts) g es))"
  using assms(2)
proof (induction es arbitrary: g out)
  case (Cons e es)
  obtain g1 o1 where s: "gateway_step opts g e = (g1, o1)" by fastforce
  from Cons.IH [OF gateway_step_ok [OF assms(1) Cons.prems s]] show ?case by (simp add: run_Cons s)
qed simp

lemma new_gateway_ok: "gateway_ok env new_gateway []"
  by (simp add: gateway_ok_def new_gateway_def unknown_def)

lemma gateway_run_ok:
  assumes "\<forall>c. block_cipher (env_E (g_env opts c)) (D c)"
  shows "gateway_ok (g_env opts) (fst (run (gateway_step opts) new_gateway es)) (snd (run (gateway_step opts) new_gateway es))"
  using run_ok [OF assms new_gateway_ok, of es] by simp

subsection \<open>Reports\<close>

text \<open>C11. Every connection is an undisturbed session, and is reported once: whatever the gateway is
  asked to do and whatever happens on its sockets, what connection \<open>c\<close> did is a run of the session
  of theory \<open>Session\<close>; the session is registered and announced exactly once if its handshake
  completed, and otherwise never; and it is reported (as a failed handshake or as disconnected)
  exactly once if it has closed, even if it closes twice, and not before.
\<close>

theorem gateway_reports_once:
  assumes "\<forall>c. block_cipher (env_E (g_env opts c)) (env_D (g_env opts c))"
    and "run (gateway_step opts) new_gateway es = (g, out)" and "c < length (conns g)"
  shows "(\<exists>date es'. run (session_step (g_env opts c)) (new_session date) (CallRun # es') =
            (c_session (conns g ! c), heard c out)) \<and>
         count_of (registers c) out = of_bool (0 < hands (heard c out)) \<and>
         count_of (announces c) out = of_bool (0 < hands (heard c out)) \<and>
         count_of (reports c) out = of_bool (0 < closes (heard c out))"
  using gateway_run_ok [OF assms(1), of es] assms(2,3) by (simp add: gateway_ok_def mirror_def Let_def)

text \<open>C21. \<open>sessionCount\<close> is the number of connections accepted whose session has not closed yet, at
  every moment, also after \<open>stop()\<close>: no session is counted twice, none is left behind.
\<close>

theorem sessionCount_open:
  assumes "\<forall>c. block_cipher (env_E (g_env opts c)) (env_D (g_env opts c))"
    and "run (gateway_step opts) new_gateway es = (g, out)"
  shows "sessionCount g = card {c. c < length (conns g) \<and> closes (heard c out) = 0}"
  using gateway_run_ok [OF assms(1), of es] assms(2) distinct_card [of "sessions g"]
  by (simp add: gateway_ok_def sessionCount_def)

subsection \<open>Reasons\<close>

fun plausible :: "gateway_effect \<Rightarrow> bool" where
  "plausible (SessionDisconnected c i r ms) \<longleftrightarrow> r = ''peer_close''"
| "plausible (HandshakeFailed f) \<longleftrightarrow>
     f_result f \<noteq> ''socket_closed'' \<and> (f_error f = None \<longrightarrow> f_result f = ''aborted'')"
| "plausible _ \<longleftrightarrow> True"

fun no_error_report :: "gateway_effect \<Rightarrow> bool" where
  "no_error_report (HandshakeFailed f) \<longleftrightarrow> f_error f = None"
| "no_error_report _ \<longleftrightarrow> True"

lemma failure_reason:
  "handshakeFailureReason err (stage_name t) \<noteq> ''socket_closed''"
  "handshakeFailureReason None (stage_name t) = ''aborted''"
  by (cases t; simp add: handshakeFailureReason_def Let_def split: option.split)+

lemma hear_plausible:
  assumes "c < length (conns g)" and "flags_ok h (conns g ! c)"
    and "closes h = 0 \<and> 0 < closes fx \<and> 0 < hands (h @ fx) \<longrightarrow> hs_error (c_session (conns g ! c)) = None"
    and "hs_progress (c_session (conns g ! c)) \<noteq> None"
  shows "list_all plausible (snd (hear c now g fx)) \<and>
         (hs_error (c_session (conns g ! c)) = None \<or> 0 < closes h \<longrightarrow> list_all no_error_report (snd (hear c now g fx)))"
  using assms
proof (induction fx arbitrary: h g)
  case (Cons e fx)
  let ?x = "conns g ! c"
  obtain g1 o1 where s: "(case e of EmitHandshake r \<Rightarrow> on_handshake c now g
      | EmitClose \<Rightarrow> on_close c now g | _ \<Rightarrow> (g, [])) = (g1, o1)" by fastforce
  have g1: "length (conns g1) = length (conns g)" "c_session (conns g1 ! c) = c_session ?x"
    "flags_ok (h @ [e]) (conns g1 ! c)"
    using s Cons.prems(1,2)
    by (cases e; auto simp: on_handshake_def on_close_def flags_ok_def Let_def split: if_splits)+
  have o1: "list_all plausible o1 \<and> (hs_error (c_session ?x) = None \<or> 0 < closes h \<longrightarrow> list_all no_error_report o1)"
    using s Cons.prems failure_reason
    by (cases e) (auto simp: on_handshake_def on_close_def flags_ok_def Let_def disconnectReason_def split: if_splits)
  have "list_all plausible (snd (hear c now g1 fx)) \<and>
      (hs_error (c_session ?x) = None \<or> 0 < closes (h @ [e]) \<longrightarrow> list_all no_error_report (snd (hear c now g1 fx)))"
    unfolding g1(2) [symmetric]
    by (rule Cons.IH) (use Cons.prems g1 in auto)
  with o1 show ?case by (simp add: s split_beta)
qed simp

lemma event_plausible:
  assumes "\<forall>c. block_cipher (env_E (env c)) (D c)" and "gateway_ok env g out"
  shows "list_all plausible (snd (session_event env c now e g)) \<and>
         (e = IdleTimeout \<longrightarrow> list_all no_error_report (snd (session_event env c now e g)))"
proof (cases "c < length (conns g)")
  case True
  let ?x = "conns g ! c" and ?h = "heard c out"
  obtain s fx where st: "session_step (env c) (c_session ?x) e = (s, fx)" by fastforce
  let ?g1 = "set_conn c (?x\<lparr>c_session := s\<rparr>) g"
  have "mirror env g out c" using assms(2) True by (simp add: gateway_ok_def)
  then have h: "healthy_session ?h (c_session ?x)" and fl: "flags_ok ?h ?x" by (simp_all add: mirror_def Let_def)
  have ste: "steady ?h (s, fx)" using step_steady [OF spec [OF assms(1), of c] h, of e] st by simp
  have "life_step (c_session ?x) (s, fx)"
    using step_life [of "c_session ?x" "env c" e] h st by (simp add: healthy_session_def)
  then have "hands fx = 0 \<or> closes fx = 0" by (auto simp: life_step_def)
  with ste have cl: "closes ?h = 0 \<and> 0 < closes fx \<and> 0 < hands (?h @ fx) \<longrightarrow> hs_error s = None"
    by (auto simp: steady_def closes_clean_def)
  have pr: "hs_progress s \<noteq> None" using ste by (simp add: steady_def healthy_session_def fields_ok_def)
  have "e = IdleTimeout \<Longrightarrow> hs_error s = hs_error (c_session ?x)"
    using idle_error [of "env c" "c_session ?x"] st by simp
  then have idle: "e = IdleTimeout \<Longrightarrow> hs_error s = None \<or> 0 < closes ?h"
    using h by (auto simp: healthy_session_def fields_ok_def)
  have "list_all plausible (snd (hear c now ?g1 fx)) \<and>
      (hs_error s = None \<or> 0 < closes ?h \<longrightarrow> list_all no_error_report (snd (hear c now ?g1 fx)))"
    using hear_plausible [of c ?g1 ?h fx now] True fl cl pr by (simp add: flags_ok_def)
  moreover have "session_event env c now e g = hear c now ?g1 fx"
    using True st by (simp add: session_event_def Let_def)
  ultimately show ?thesis using idle by metis
qed (simp add: session_event_def)

lemma disconnect_all_plausible:
  assumes "\<forall>c. block_cipher (env_E (env c)) (D c)" and "gateway_ok env g out"
  shows "list_all plausible (snd (disconnect_all env now cs g))"
  using assms(2)
proof (induction cs arbitrary: g out)
  case (Cons c cs)
  obtain g1 o1 where 1: "session_event env c now CallDisconnect g = (g1, o1)" by fastforce
  from Cons.IH [OF session_event_ok [OF assms(1) Cons.prems 1]] event_plausible [OF assms(1) Cons.prems, of c now CallDisconnect]
  show ?case by (simp add: 1 split_beta)
qed simp

lemma step_plausible:
  assumes "\<forall>c. block_cipher (env_E (g_env opts c)) (D c)" and "gateway_ok (g_env opts) g out"
  shows "list_all plausible (snd (gateway_step opts g e))"
proof (cases e)
  case (Stop now)
  show ?thesis
    using disconnect_all_plausible [OF assms, of now "sessions g"]
    by (simp add: Stop gateway_stop_def Let_def split_beta split: option.split)
next
  case (Accept remote date now)
  then show ?thesis
    by (simp add: on_connection_def session_event_def split_beta Let_def start_run_eq new_session_def)
next
  case (ServerError i x)
  have "list_all plausible (replicate n (EmitGatewayError x))" for n by (induction n) simp_all
  then show ?thesis by (simp add: ServerError on_server_error_def Let_def)
qed (use event_plausible [OF assms] in
      \<open>auto simp: gateway_start_def on_listening_def Let_def split: option.split\<close>)

text \<open>C38. The reasons that cannot be reported. A registered session that disconnects is always reported as
  \<open>peer_close\<close>: \<open>idle\<close>, \<open>aes_fail\<close> and \<open>error\<close> never occur, since for a connected session
  \<open>_handshakeError\<close> is recorded only after the close has been reported (the host's listeners, which
  run inside the same \<open>try\<close>, are taken not to throw). A failed handshake is never reported as
  \<open>socket_closed\<close> (a stage is always known), and one without a recorded error as \<open>aborted\<close>; in
  particular the idle timeout, in any reachable state, reports no error, so never \<open>timeout\<close>.
\<close>

theorem gateway_reasons:
  assumes "\<forall>c. block_cipher (env_E (g_env opts c)) (env_D (g_env opts c))"
    and "run (gateway_step opts) new_gateway es = (g, out)"
  shows "list_all plausible out \<and>
         list_all no_error_report (snd (gateway_step opts g (OnSession c now IdleTimeout)))"
proof -
  have "gateway_ok (g_env opts) g' out' \<Longrightarrow> list_all plausible (snd (run (gateway_step opts) g' es))" for g' out'
  proof (induction es arbitrary: g' out')
    case (Cons e es)
    obtain g1 o1 where s: "gateway_step opts g' e = (g1, o1)" by fastforce
    from Cons.IH [OF gateway_step_ok [OF assms(1) Cons.prems s]] step_plausible [OF assms(1) Cons.prems, of e]
    show ?case by (simp add: run_Cons s)
  qed simp
  from this [OF new_gateway_ok] have "list_all plausible out" by (simp add: assms(2))
  moreover have "gateway_ok (g_env opts) g out"
    using gateway_run_ok [OF assms(1), of es] assms(2) by simp
  ultimately show ?thesis using event_plausible [OF assms(1)] by simp
qed

subsection \<open>A device that reconnects\<close>

text \<open>A registry as a map from core ids to connections, as \<open>register\<close> and \<open>unregister\<close> by id have it.\<close>

fun registry_step :: "(string \<Rightarrow> nat option) \<Rightarrow> gateway_effect \<Rightarrow> (string \<Rightarrow> nat option)" where
  "registry_step m (Register c i) = (case i of None \<Rightarrow> m | Some k \<Rightarrow> m(k \<mapsto> c))"
| "registry_step m (Unregister k) = m(k := None)"
| "registry_step m _ = m"

definition registry :: "(string \<Rightarrow> nat option) \<Rightarrow> gateway_effect list \<Rightarrow> (string \<Rightarrow> nat option)" where
  "registry m out = foldl registry_step m out"

lemma hear_only_close:
  assumes "c < length (conns g)" and "once_close (conns g ! c)"
    and "coreId (c_session (conns g ! c)) = Some k" and "k \<noteq> []"
    and "0 < closes fx" and "hands fx = 0"
  shows "registry m (snd (hear c now g fx)) = m(k := None)"
proof -
  have quiet: "registry m (snd (hear c now g gx)) = m"
    if "hands gx = 0" "\<not> once_close (conns g ! c)" for m g gx
    using that
  proof (induction gx)
    case (Cons e gx)
    then show ?case by (cases e) (simp_all add: registry_def on_close_def Let_def split_beta)
  qed (simp add: registry_def)
  show ?thesis
    using assms
  proof (induction fx)
    case (Cons e fx)
    show ?case
    proof (cases e)
      case EmitClose
      obtain g1 o1 where s: "on_close c now g = (g1, o1)" by fastforce
      then have "\<not> once_close (conns g1 ! c)" and "registry m o1 = m(k := None)" for m
        using Cons.prems(1-4) by (auto simp: on_close_def Let_def truthy_def registry_def split: if_splits)
      with Cons.prems quiet [of fx g1] show ?thesis
        by (simp add: EmitClose s split_beta registry_def)
    next
      case (EmitHandshake r)
      with Cons.prems show ?thesis by simp
    qed (use Cons in \<open>simp_all add: split_beta registry_def\<close>)
  qed simp
qed

text \<open>C39. A device that reconnects before its old connection has ended is lost: when the old connection's
  socket closes, the registry entry is removed by core id, whichever session it stands for. So the
  new session \<open>d\<close>, which is connected and counted, is no longer registered, and nothing that the
  gateway does about it will register it again.
\<close>

theorem reconnect_unregisters:
  assumes "c < length (conns g)" and "d < length (conns g)" and "c \<noteq> d"
    and "once_close (conns g ! c)" and "coreId (c_session (conns g ! c)) = Some k" and "k \<noteq> []"
    and "st (c_session (conns g ! c)) \<noteq> Closed"
    and "registry m0 out = m" and "m k = Some d"
    and "st (c_session (conns g ! d)) = Connected" and "d \<in> set (sessions g)"
  shows "registry m (snd (gateway_step opts g (OnSession c now SocketClosed))) k = None \<and>
         st (c_session (conns (fst (gateway_step opts g (OnSession c now SocketClosed))) ! d)) = Connected \<and>
         d \<in> set (sessions (fst (gateway_step opts g (OnSession c now SocketClosed))))"
proof -
  let ?x = "conns g ! c" and ?fx = "snd (finalize (c_session (conns g ! c)))"
  let ?g1 = "set_conn c (?x\<lparr>c_session := fst (finalize (c_session ?x))\<rparr>) g"
  have fin: "final (c_session ?x) (finalize (c_session ?x))" by (rule finalize_final)
  have s: "gateway_step opts g (OnSession c now SocketClosed) = hear c now ?g1 ?fx"
    using assms(1) by (simp only: gateway_step.simps session_step.simps session_event_def split_beta Let_def if_True)
  have "registry m (snd (hear c now ?g1 ?fx)) = m(k := None)"
    by (rule hear_only_close) (use fin assms in \<open>simp_all add: final_def\<close>)
  moreover have "conns (fst (hear c now g' gx)) ! d = conns g' ! d \<and>
      (d \<in> set (sessions (fst (hear c now g' gx))) \<longleftrightarrow> d \<in> set (sessions g'))" for g' gx
    using assms(3)
    by (induction c now g' gx rule: hear.induct)
      (auto simp: split_beta on_close_def on_handshake_def Let_def split: effect.split)
  ultimately show ?thesis using assms(3,10,11) unfolding s by simp
qed

subsection \<open>Concrete runs\<close>

definition toy_opts :: gateway_opts where
  "toy_opts = \<lparr>g_port = 5683, g_host = None, g_env = (\<lambda>c. toy_env)\<rparr>"

text \<open>Two devices connect, the first one's socket closes.\<close>

definition toy_gateway_run :: "gateway_event list" where
  "toy_gateway_run = [Accept ''a:1'' 0 0, Accept ''b:2'' 0 5, OnSession 0 7 SocketClosed, OnSession 0 9 SocketClosed]"

definition toy_gateway :: gateway where
  "toy_gateway = fst (run (gateway_step toy_opts) new_gateway toy_gateway_run)"

definition toy_out :: "gateway_effect list" where
  "toy_out = snd (run (gateway_step toy_opts) new_gateway toy_gateway_run)"

lemma toy_gateway: "run (gateway_step toy_opts) new_gateway toy_gateway_run = (toy_gateway, toy_out)"
  by (simp add: toy_gateway_def toy_out_def)

lemma toy_ciphers: "\<forall>c. block_cipher (env_E (g_env toy_opts c)) (env_D (g_env toy_opts c))"
  by (simp add: toy_opts_def toy_env_def xor_cipher_ok)

lemmas toy_gateway_eval = toy_opts_def toy_gateway_run_def new_gateway_def on_connection_def session_event_def
  start_run_eq new_session_def Let_def set_conn_def on_close_def finalize_def split_beta run_Cons

lemma toy_gateway_conns:
  "length (conns toy_gateway) = 2" "closes (heard 0 toy_out) = 1" "closes (heard 1 toy_out) = 0"
  by (simp_all add: toy_gateway_def toy_out_def toy_gateway_eval)

theorem gateway_reports_once_witness:
  "count_of (reports 0) toy_out = 1 \<and> count_of (reports 1) toy_out = 0"
  using gateway_reports_once [OF toy_ciphers toy_gateway, of 0] gateway_reports_once [OF toy_ciphers toy_gateway, of 1]
    toy_gateway_conns by simp

theorem sessionCount_open_witness: "sessionCount toy_gateway = 1"
proof -
  have "{c. c < length (conns toy_gateway) \<and> closes (heard c toy_out) = 0} = {1}"
    using toy_gateway_conns by (auto simp: less_2_cases_iff)
  with sessionCount_open [OF toy_ciphers toy_gateway] show ?thesis by simp
qed

theorem gateway_reasons_witness:
  "list_all plausible toy_out \<and>
   list_all no_error_report (snd (gateway_step toy_opts toy_gateway (OnSession 1 9 IdleTimeout)))"
  using gateway_reasons [OF toy_ciphers toy_gateway] by simp

text \<open>Two sessions of the same device, both connected.\<close>

definition toy_conn :: conn where
  "toy_conn = \<lparr>c_session = (new_session 0)\<lparr>st := Connected, coreId := Some ''ab''\<rparr>, c_remote = ''a:1'',
     c_startedAt = 0, handshakeSucceeded = True, once_handshake = False, once_close = True\<rparr>"

theorem reconnect_unregisters_witness:
  "registry [''ab'' \<mapsto> 1] (snd (gateway_step toy_opts
     (new_gateway\<lparr>conns := [toy_conn, toy_conn], sessions := [0, 1]\<rparr>) (OnSession 0 9 SocketClosed))) ''ab'' = None"
  using reconnect_unregisters [of 0 "new_gateway\<lparr>conns := [toy_conn, toy_conn], sessions := [0, 1]\<rparr>" 1 "''ab''"
      Map.empty "[Register 0 (Some ''ab''), Register 1 (Some ''ab'')]" "[''ab'' \<mapsto> 1]" toy_opts 9]
  by (simp add: toy_conn_def registry_def)

end
