(* ===== verification/Gateway_Failures.thy ===== *)
theory Gateway_Failures
  imports Gateway_Reports Session_Exchange
begin

section \<open>How a failed handshake is reported\<close>

text \<open>
  The gateway classifies a failed handshake by the text of its error. Here the texts are those of
  \<open>lib/handshake.js\<close>, so the classes are stated by what went wrong: which await of the handshake
  was answered, and how.
\<close>

subsection \<open>What can fail\<close>

text \<open>The class of a failure by its cause. Whatever the pool, the loader or the socket rejects with is
  passed on as it is, except by the decryption of the first message.\<close>

definition failure_class :: "hs_env \<Rightarrow> hs_pc \<Rightarrow> hs_reply \<Rightarrow> string \<Rightarrow> string" where
  "failure_class env at reply stage =
     (case (at, reply) of
        (AtDecrypt ct, Rejected e) \<Rightarrow> ''rsa_fail''
      | (AtDecrypt ct, GotBytes plaintext) \<Rightarrow>
          if length plaintext < 52 then ''error'' else ''nonce_mismatch''
      | (AtCoreKey i der, GotKey k) \<Rightarrow> ''missing_core_key''
      | (AtHello i k v, GotBytes frame) \<Rightarrow>
          if length frame mod 16 \<noteq> 0 then ''aes_hello_fail'' else ''hello_parse_fail''
      | (_, Rejected e) \<Rightarrow> handshakeFailureReason (Some e) stage
      | _ \<Rightarrow> ''error'')"

lemma named_reasons:
  "handshakeFailureReason (Some (HandshakeError ''RSA decrypt failed'' x)) t = ''rsa_fail''"
  "handshakeFailureReason (Some (HandshakeError ''plaintext too small'' x)) t = ''error''"
  "handshakeFailureReason (Some (HandshakeError ''nonce mismatch'' x)) t = ''nonce_mismatch''"
  "handshakeFailureReason (Some (HandshakeError ''core key not found'' x)) t = ''missing_core_key''"
  "handshakeFailureReason (Some (HandshakeError ''hello AES decrypt failed'' x)) t = ''aes_hello_fail''"
  "handshakeFailureReason (Some (HandshakeError ''hello CoAP parse failed'' x)) t = ''hello_parse_fail''"
  by (simp_all add: handshakeFailureReason_def)

lemma decrypt_fails_iff:
  assumes "length k = 16" and "length v = 16"
  shows "(\<exists>e. aesDecrypt D k v ct = Inl e) \<longleftrightarrow> length ct mod 16 \<noteq> 0"
  using assms by (auto simp: aesDecrypt_def check_key_iv_def)

lemma hello_always_sent:
  assumes "block_cipher (env_E env) D" and "length k = 16" and "length v = 16"
  shows "\<exists>r. pc (fst (send_hello env hs c k v frame m)) = Finished r"
proof -
  obtain plain where plain: "encode (server_hello (header_len (env_counter env))) = Inr plain" "length plain = 6"
    using server_hello_plain [OF header_len_bound] by blast
  note ct = aesEncrypt_Inr [OF assms(2,3), of "env_E env" plain]
  from aes_roundtrip_ct(2) [OF assms(1) ct] plain(2)
  obtain w where "encodeFrame (cbc_encrypt (env_E env) k v (pkcs7_pad plain)) = Inr w"
    by (simp add: encodeFrame_def)
  with plain ct show ?thesis by (simp add: send_hello_def Let_def)
qed

lemma failure_cause:
  assumes "block_cipher (env_E env) D" and "length (env_sessionKey env) = 40" and "hs_good hs"
    and "pc (fst (hs_resume env hs reply)) = Failed err" and "\<forall>e. pc hs \<noteq> Failed e"
  shows "prog (fst (hs_resume env hs reply)) = prog hs \<and> snd (hs_resume env hs reply) = [] \<and>
         handshakeFailureReason (Some err) stage = failure_class env (pc hs) reply stage"
proof -
  have d: "?thesis" if "pc hs = AtDecrypt ct" "reply = GotBytes b" for ct b
    using that assms(4) by (auto simp: after_decrypt_def hs_fail_def failure_class_def named_reasons Let_def NONCE_BYTES_def
        ID_BYTES_def hs_resume.simps split: if_splits)
  have k: "?thesis" if "pc hs = AtCoreKey i der" "reply = GotKey x" for i der x
    using that assms(4) by (auto simp: after_core_key_def hs_fail_def failure_class_def named_reasons set_stage_def
        hs_resume.simps split: if_splits option.splits)
  have s: "?thesis" if "pc hs = AtSign i ct" "reply = GotBytes b" for i ct b
  proof -
    obtain p where "deriveAesParams (env_sessionKey env) = Inr p"
      using assms(2) by (auto simp: deriveAesParams_def)
    with that assms(4) show ?thesis by (simp add: after_sign_def set_stage_def Let_def hs_resume.simps)
  qed
  have h: "?thesis" if at: "pc hs = AtHello i kk v" "reply = GotBytes b" for i kk v b
  proof -
    from assms(3) at have l: "length kk = 16" "length v = 16" by (simp_all add: hs_good_def)
    have sent: "pc (fst (send_hello env hs i kk v b m)) \<noteq> Failed err" for m
      using hello_always_sent [OF assms(1) l, of hs i b m] by auto
    show ?thesis
    proof (cases "aesDecrypt (env_D env) kk v b")
      case (Inl e)
      then have "length b mod 16 \<noteq> 0" using decrypt_fails_iff [OF l] by blast
      with Inl at assms(4) show ?thesis
        by (auto simp: hs_resume.simps after_hello_def hs_fail_def failure_class_def named_reasons)
    next
      case (Inr p)
      then have "length b mod 16 = 0" using decrypt_fails_iff [OF l, of "env_D env" b] by auto
      with Inr at assms(4) sent show ?thesis
        by (auto simp: hs_resume.simps after_hello_def hs_fail_def failure_class_def named_reasons split: sum.splits)
    qed
  qed
  have r: "?thesis" if "reply = Rejected e" for e
    using that assms(4,5) by (cases "pc hs") (auto simp: hs_resume.simps hs_fail_def failure_class_def named_reasons)
  have o: "?thesis" if "fst (hs_resume env hs reply) = hs"
    using that assms(4,5) by simp
  have e: "pc (fst (hs_resume env hs reply)) = Failed err \<Longrightarrow> fst (hs_resume env hs reply) = hs \<or>
      (\<exists>ct b. pc hs = AtDecrypt ct \<and> reply = GotBytes b) \<or> (\<exists>i der x. pc hs = AtCoreKey i der \<and> reply = GotKey x) \<or>
      (\<exists>i ct b. pc hs = AtSign i ct \<and> reply = GotBytes b) \<or>
      (\<exists>i kk v b. pc hs = AtHello i kk v \<and> reply = GotBytes b) \<or> (\<exists>e. reply = Rejected e)"
    by (cases "pc hs"; cases reply) (simp_all add: hs_resume.simps)
  from e [OF assms(4)] show ?thesis
    by (elim disjE exE conjE) (fact o | erule (1) d k s h | erule r)+
qed

subsection \<open>From the error to the report\<close>

lemma failed_step:
  assumes "task s = InHandshake hs" and "st s \<noteq> Closed" and "pc (fst (hs_resume env hs reply)) = Failed err"
    and "snd (hs_resume env hs reply) = []"
  shows "\<exists>fx. snd (resume_handshake env hs reply (s\<lparr>woken := w\<rparr>)) = EmitError err # fx \<and>
         0 < closes fx \<and> hands fx = 0 \<and>
         hs_error (fst (resume_handshake env hs reply (s\<lparr>woken := w\<rparr>))) = Some err \<and>
         hs_progress (fst (resume_handshake env hs reply (s\<lparr>woken := w\<rparr>))) = Some (prog (fst (hs_resume env hs reply)))"
proof -
  let ?s = "s\<lparr>woken := w, hs_progress := Some (prog (fst (hs_resume env hs reply))), task := Ended,
    hs_error := Some err\<rparr>"
  have "resume_handshake env hs reply (s\<lparr>woken := w\<rparr>) = fail_session err ?s"
    using assms(2-4) by (simp add: resume_handshake_def after_segment_def run_catch_def Let_def)
  with disconnect_final [of ?s] assms(2) show ?thesis
    by (simp add: fail_session_def split_beta final_def)
qed

text \<open>A session in its handshake that is not closed has never been.\<close>

lemma never_closed:
  assumes "run (session_step env) (new_session date) (CallRun # es) = (s, h)" and "hands h = 0" and "st s \<noteq> Closed"
  shows "closes h = 0"
proof -
  let ?s = "fst (start_run env (new_session date))"
  have t: "task (new_session date) = NotRun" by (simp add: new_session_def)
  have r: "s = fst (run (session_step env) ?s es)" "h = Write (env_nonce env) # snd (run (session_step env) ?s es)"
    using assms(1) t by (auto simp: run_Cons start_run_eq)
  have "st ?s \<noteq> Closed" "task ?s \<noteq> NotRun" by (simp_all add: start_run_eq)
  from run_life [OF this(2), of False env es] this(1) assms(2,3) r late_none [of "snd (run (session_step env) ?s es)" False]
  show ?thesis by simp
qed

lemma hear_first_close:
  assumes "c < length (conns g)" and "once_close (conns g ! c)" and "0 < closes fx" and "hands fx = 0"
  shows "filter (reports c) (snd (hear c now g fx)) = filter (reports c) (snd (on_close c now g)) \<and>
         sessions (fst (hear c now g fx)) = removeAll c (sessions g)"
proof -
  have quiet: "filter (reports c) (snd (hear c now g gx)) = [] \<and> sessions (fst (hear c now g gx)) = sessions g"
    if "hands gx = 0" "\<not> once_close (conns g ! c)" for g gx
    using that
  proof (induction gx)
    case (Cons e gx)
    then show ?case by (cases e) (simp_all add: on_close_def split_beta)
  qed simp
  show ?thesis
    using assms
  proof (induction fx)
    case (Cons e fx)
    show ?case
    proof (cases e)
      case EmitClose
      obtain g1 o1 where s: "on_close c now g = (g1, o1)" by fastforce
      then have "\<not> once_close (conns g1 ! c) \<and> sessions g1 = removeAll c (sessions g)"
        using Cons.prems(1,2) by (auto simp: on_close_def Let_def split: if_splits)
      with Cons.prems quiet [of fx g1] show ?thesis by (simp add: EmitClose s split_beta)
    next
      case (EmitHandshake r)
      with Cons.prems show ?thesis by simp
    qed (use Cons in \<open>simp_all add: split_beta\<close>)
  qed simp
qed

text \<open>C16. A handshake that fails is reported at once and under the right class. Whatever led up to it, if
  the session of connection \<open>c\<close> has not been closed, and the answer to the await at which it stands makes
  \<open>runHandshake\<close> throw, this very step
  emits one \<open>handshake_failed\<close> for \<open>c\<close>, with the error itself, the stage and the core id of the
  progress object, and the result that belongs to the cause: \<open>rsa_fail\<close>, \<open>nonce_mismatch\<close>,
  \<open>missing_core_key\<close>, \<open>aes_hello_fail\<close> or \<open>hello_parse_fail\<close>, while a plaintext that is too short is only an
  \<open>error\<close>, and the session leaves the gateway's set. (A session that was closed during the await has been
  reported when it closed; its handshake then throws without a report.)
\<close>

theorem handshake_failure_reported:
  assumes "\<forall>c. block_cipher (env_E (g_env opts c)) (env_D (g_env opts c))"
    and "\<forall>c. length (env_sessionKey (g_env opts c)) = 40"
    and "run (gateway_step opts) new_gateway es = (g, out)" and "c < length (conns g)"
    and "hs_input (c_session (conns g ! c)) e = Some (hs, reply)" and "st (c_session (conns g ! c)) \<noteq> Closed"
    and "pc (fst (hs_resume (g_env opts c) hs reply)) = Failed err"
  shows "\<exists>f. filter (reports c) (snd (gateway_step opts g (OnSession c now e))) = [HandshakeFailed f] \<and>
           f_error f = Some err \<and> f_stage f = stage_name (p_stage (prog hs)) \<and> f_coreId f = p_coreId (prog hs) \<and>
           f_result f = failure_class (g_env opts c) (pc hs) reply (f_stage f) \<and>
           c \<notin> set (sessions (fst (gateway_step opts g (OnSession c now e))))"
proof -
  let ?env = "g_env opts c" and ?x = "conns g ! c" and ?h = "heard c out"
  have "gateway_ok (g_env opts) g out" using gateway_run_ok [OF assms(1), of es] assms(3) by simp
  with assms(4) have "mirror (g_env opts) g out c" by (simp add: gateway_ok_def)
  then have h: "healthy_session ?h (c_session ?x)" and fl: "flags_ok ?h ?x"
    and r: "\<exists>date es. run (session_step ?env) (new_session date) (CallRun # es) = (c_session ?x, ?h)"
    by (simp_all add: mirror_def Let_def)
  from hs_input_step [OF assms(5), of ?env] obtain w where t: "task (c_session ?x) = InHandshake hs"
    and st: "session_step ?env (c_session ?x) e = resume_handshake ?env hs reply ((c_session ?x)\<lparr>woken := w\<rparr>)"
    and nf: "\<forall>x. pc hs \<noteq> Failed x" by blast
  have hs: "hs_good hs" "hands ?h = 0" using h t by (simp_all add: healthy_session_def task_ok_def)
  have cl: "closes ?h = 0" using r never_closed hs(2) assms(6) by blast
  note cause = failure_cause [OF spec [OF assms(1)] spec [OF assms(2)] hs(1) assms(7) nf]
  obtain s fx where s: "session_step ?env (c_session ?x) e = (s, EmitError err # fx)" "0 < closes fx" "hands fx = 0"
    "hs_error s = Some err" "hs_progress s = Some (prog hs)"
    using failed_step [OF t assms(6,7), of w] cause st
    by (cases "resume_handshake ?env hs reply ((c_session ?x)\<lparr>woken := w\<rparr>)") auto
  let ?g = "set_conn c (?x\<lparr>c_session := s\<rparr>) g"
  have "gateway_step opts g (OnSession c now e) = hear c now ?g (EmitError err # fx)"
    using assms(4) s(1) by (simp add: session_event_def Let_def)
  moreover have "\<exists>f. filter (reports c) (snd (on_close c now ?g)) = [HandshakeFailed f] \<and> f_error f = Some err \<and>
      f_stage f = stage_name (p_stage (prog hs)) \<and> f_coreId f = p_coreId (prog hs) \<and>
      f_result f = failure_class ?env (pc hs) reply (f_stage f)"
    using fl cl hs(2) s(4,5) assms(4) cause by (simp add: on_close_def Let_def flags_ok_def)
  ultimately show ?thesis
    using hear_first_close [of c ?g "EmitError err # fx" now] fl cl s(2,3) assms(4) by (simp add: flags_ok_def)
qed

text \<open>A device that sends a first message which does not decrypt.\<close>

definition toy_failing :: "gateway_event list" where
  "toy_failing = [Accept ''a:1'' 0 0, OnSession 0 1 (Data 1 (replicate 256 7)), OnSession 0 2 Micro]"

lemma toy_failing_state:
  "length (conns (fst (run (gateway_step toy_opts) new_gateway toy_failing))) = 1"
  "hs_input (c_session (conns (fst (run (gateway_step toy_opts) new_gateway toy_failing)) ! 0))
     (Settle (Rejected (Error ''bad''))) =
   Some (\<lparr>pc = AtDecrypt (replicate 256 7), prog = \<lparr>p_stage = READ_COREID, p_coreId = None\<rparr>\<rparr>, Rejected (Error ''bad''))"
  "st (c_session (conns (fst (run (gateway_step toy_opts) new_gateway toy_failing)) ! 0)) = Handshaking"
  by (simp_all add: toy_failing_def toy_gateway_eval on_data_def wake_def push_def drain_def read_queue_def read_def
      new_byte_queue_def micro_def resume_handshake_def hs_resume.simps hs_start_def after_segment_def)

theorem handshake_failure_reported_witness:
  "\<exists>f. HandshakeFailed f \<in> set (snd (gateway_step toy_opts (fst (run (gateway_step toy_opts) new_gateway toy_failing))
          (OnSession 0 9 (Settle (Rejected (Error ''bad'')))))) \<and> f_result f = ''rsa_fail'' \<and> f_stage f = ''READ_COREID''"
proof -
  let ?g = "fst (run (gateway_step toy_opts) new_gateway toy_failing)"
  have k: "\<forall>c. length (env_sessionKey (g_env toy_opts c)) = 40" by (simp add: toy_opts_def toy_env_def)
  obtain f where "filter (reports 0) (snd (gateway_step toy_opts ?g (OnSession 0 9 (Settle (Rejected (Error ''bad'')))))) =
      [HandshakeFailed f]" and f: "f_result f = ''rsa_fail''" "f_stage f = ''READ_COREID''"
    using handshake_failure_reported [OF toy_ciphers k prod.collapse [symmetric] _ toy_failing_state(2), of _ 9]
      toy_failing_state by (auto simp: hs_resume.simps hs_fail_def failure_class_def)
  then have "HandshakeFailed f \<in> set (filter (reports 0)
      (snd (gateway_step toy_opts ?g (OnSession 0 9 (Settle (Rejected (Error ''bad'')))))))" by simp
  with f show ?thesis by auto
qed

end
