(* ===== verification/Session_Asks.thy ===== *)
theory Session_Asks
  imports Session_Exchange
begin

section \<open>What a session asks the pool and the key loader\<close>

text \<open>
  The handler of one event makes at most one call of the pool or of the loader, and it makes one
  exactly when it leaves the handshake suspended at a new await of such a call. So a session that
  awaits the pool or the loader awaits the last call that it has made.
\<close>

subsection \<open>The calls among the effects\<close>

fun asks_in :: "effect list \<Rightarrow> hs_request list" where
  "asks_in [] = []"
| "asks_in (Ask q # fx) = q # asks_in fx"
| "asks_in (_ # fx) = asks_in fx"

lemma asks_in_append [simp]: "asks_in (fx @ gx) = asks_in fx @ asks_in gx"
  by (induction fx rule: asks_in.induct) simp_all

lemma asks_in_Write [simp]: "asks_in (map Write ws) = []"
  by (induction ws) simp_all

lemma asks_in_rejects [simp]: "asks_in (map (\<lambda>(key, rid). RejectReq rid e) ps) = []"
  by (induction ps) auto

lemma finalize_unasked: "asks_in (snd (finalize s)) = []"
  by (simp add: finalize_def Let_def)

lemma fail_unasked: "asks_in (snd (fail_session e s)) = []" "asks_in (snd (disconnect s)) = []"
  by (simp_all add: fail_session_def disconnect_def split_beta finalize_unasked)

lemma run_catch_unasked: "asks_in (snd (run_catch e s)) = []"
  by (simp add: run_catch_def Let_def fail_unasked)

lemma send_unasked:
  "asks_in (fst (snd (sendPlain env plain s))) = []" "asks_in (fst (snd (send env name opts s))) = []"
proof -
  have *: "asks_in (fst (snd (sendPlain env plain s))) = []" for plain s
    by (simp add: sendPlain_def Let_def split: sum.split)
  then show "asks_in (fst (snd (sendPlain env plain s))) = []" "asks_in (fst (snd (send env name opts s))) = []"
    by (simp_all add: send_def split_beta split: option.split sum.split)
qed

lemma call_unasked:
  "asks_in (snd (call_send env name opts s)) = []" "asks_in (snd (request env name ropts rnd s)) = []"
  "asks_in (snd (request_timeout rid s)) = []"
  by (simp_all add: call_send_def request_def request_timeout_def Let_def split_beta send_unasked
      split: sum.split option.split prod.split)

lemma got_frame_unasked: "asks_in (snd (got_frame env ct s)) = []"
proof -
  have "asks_in (fst (snd (dispatch env m t))) = []" for m t
    by (simp add: dispatch_def send_unasked split: sum.split option.split)
  then have "asks_in (fst (snd (handleFrame env ct t))) = []" for t
    by (simp add: handleFrame_def Let_def split_beta fail_unasked split: sum.split)
  then show ?thesis by (simp add: got_frame_def split_beta run_catch_unasked split: sum.split)
qed

lemmas unasked = finalize_unasked fail_unasked run_catch_unasked call_unasked got_frame_unasked

subsection \<open>Where a session awaits an answer\<close>

definition awaits_answer :: "hs_env \<Rightarrow> session \<Rightarrow> hs_request \<Rightarrow> bool" where
  "awaits_answer env s q \<longleftrightarrow> (\<exists>hs. task s = InHandshake hs \<and> asks (pc hs) \<and> awaited env (pc hs) = Some q)"

text \<open>After a handler: either one call was made and is awaited, or none was made and no await is new.\<close>

definition asks_once :: "hs_env \<Rightarrow> session \<Rightarrow> session \<times> effect list \<Rightarrow> bool" where
  "asks_once env s r \<longleftrightarrow>
     (\<exists>q. asks_in (snd r) = [q] \<and> awaits_answer env (fst r) q) \<or>
     asks_in (snd r) = [] \<and> (\<forall>q. awaits_answer env (fst r) q \<longrightarrow> task (fst r) = task s)"

lemma asks_awaited: "asks p \<Longrightarrow> \<exists>q. awaited env p = Some q"
  by (cases p) simp_all

lemma segment_asks:
  "(\<exists>q. asks_in (snd (after_segment env seg s)) = [q] \<and> awaits_answer env (fst (after_segment env seg s)) q) \<or>
   asks_in (snd (after_segment env seg s)) = [] \<and> (\<forall>q. \<not> awaits_answer env (fst (after_segment env seg s)) q)"
proof (cases "pc (fst seg)")
  case (Failed e)
  let ?s = "s\<lparr>task := InHandshake (fst seg), hs_progress := Some (prog (fst seg))\<rparr>"
  have "task (fst (run_catch e ?s)) = Ended"
    using fail_shuts [of "?s\<lparr>task := Ended, hs_error := Some e\<rparr>" e] by (simp add: run_catch_def Let_def shuts_def)
  with Failed show ?thesis by (simp add: after_segment_def Let_def split_beta run_catch_unasked awaits_answer_def)
qed (simp_all add: after_segment_def Let_def awaits_answer_def adopt_def)

lemma asks_onceI:
  "asks_in (snd r) = [] \<Longrightarrow> task (fst r) = task s \<or> \<not> in_handshake (fst r) \<Longrightarrow> asks_once env s r"
  by (auto simp: asks_once_def awaits_answer_def in_handshake_def)

lemma resume_asks: "asks_once env s (resume_handshake env hs reply s')"
  using segment_asks [of env "hs_resume env hs reply" s'] by (auto simp: resume_handshake_def asks_once_def)

lemma catch_asks: "task s' \<noteq> NotRun \<Longrightarrow> \<not> in_handshake s' \<Longrightarrow> asks_once env s (run_catch e s')"
  using run_catch_shuts [of s' e] by (intro asks_onceI) (auto simp: unasked life_step_def)

lemma got_frame_asks: "task s' = AwaitFrame \<Longrightarrow> asks_once env s (got_frame env ct s')"
  using got_frame_life [of s' env ct] by (intro asks_onceI) (auto simp: unasked life_step_def in_handshake_def)

lemma micro_asks: "asks_once env s (micro env s)"
proof (cases "woken s")
  case Nil
  then show ?thesis by (intro asks_onceI) (auto simp: micro_def loop_check_def in_handshake_def)
next
  case (Cons r rs)
  let ?s = "s\<lparr>woken := rs\<rparr>"
  have skip: "asks_once env s (?s, [])" by (rule asks_onceI) simp_all
  have "asks_once env s (resume_read env r ?s)"
  proof (cases r rule: read_reply.cases)
    case (1 b)
    then show ?thesis by (intro asks_onceI) simp_all
  qed (use skip in \<open>auto split: task.split intro!: resume_asks got_frame_asks catch_asks simp: in_handshake_def\<close>)
  with Cons show ?thesis by (simp add: micro_def)
qed

lemma step_asks: "task s \<noteq> NotRun \<Longrightarrow> asks_once env s (session_step env s e)"
proof (cases e)
  case Micro
  then show ?thesis by (simp add: micro_asks)
next
  case (Settle r)
  have "asks_once env s (s, [])" by (rule asks_onceI) simp_all
  with Settle show ?thesis by (auto simp: settle_def resume_asks split: task.split hs_pc.split)
next
  case IdleTimeout
  then show ?thesis
    using fail_shuts [of "s\<lparr>idle_armed := False\<rparr>"]
    by (intro asks_onceI) (auto simp: idle_timeout_def unasked shuts_def)
qed (use keeps_def shuts_def call_send_keeps request_keeps timeout_keeps finalize_shuts disconnect_shuts fail_shuts
      on_data_keeps in \<open>auto simp: unasked intro!: asks_onceI\<close>)

text \<open>An answer is awaited no longer once it is there, unless it is asked for again.\<close>

lemma settle_asks:
  assumes "awaits_answer env s q"
  shows "(\<exists>q. asks_in (snd (settle env r s)) = [q] \<and> awaits_answer env (fst (settle env r s)) q) \<or>
         asks_in (snd (settle env r s)) = [] \<and> (\<forall>q. \<not> awaits_answer env (fst (settle env r s)) q)"
proof -
  from assms obtain hs where hs: "task s = InHandshake hs" "asks (pc hs)" by (auto simp: awaits_answer_def)
  then have "settle env r s = after_segment env (hs_resume env hs r) s"
    by (cases "pc hs") (simp_all add: settle_def resume_handshake_def)
  with segment_asks [of env "hs_resume env hs r" s] show ?thesis by simp
qed

text \<open>Nothing but the answer moves a session that awaits one.\<close>

lemma awaiting_stays:
  assumes "opening_at env g w s" and "awaits_answer env s q" and "\<And>r. e \<noteq> Settle r"
  shows "task (fst (session_step env s e)) = task s" and "hs_input s e = None"
proof -
  from assms(2) obtain hs where hs: "task s = InHandshake hs" "asks (pc hs)" by (auto simp: awaits_answer_def)
  then have "\<not> reads_queue (pc hs)" by (cases "pc hs") simp_all
  with hs assms(3) show n: "hs_input s e = None" by (cases e) (auto split: list.split)
  show "task (fst (session_step env s e)) = task s" using input_none(1) [OF assms(1) hs(1) n] hs(1) by simp
qed

lemma still_awaits: "task s' = task s \<Longrightarrow> awaits_answer env s' q = awaits_answer env s q"
  by (simp add: awaits_answer_def)

text \<open>Along a connection, a session in its handshake has the shape of theory \<open>Session_Opening\<close>.\<close>

lemma run_opening:
  assumes "run (session_step env) (new_session date) (CallRun # es) = (s, fx)" and "task s = InHandshake hs"
  shows "\<exists>g w. opening_at env g w s"
proof -
  have *: "(\<exists>g w. opening_at env g w s) \<or> (\<exists>p. at_position s p) \<Longrightarrow>
      (\<exists>g w. opening_at env g w (fst (run (session_step env) s es))) \<or>
      (\<exists>p. at_position (fst (run (session_step env) s es)) p)" for s es
  proof (induction es arbitrary: s)
    case (Cons e es)
    have "(\<exists>g w. opening_at env g w (fst (session_step env s e))) \<or> (\<exists>p. at_position (fst (session_step env s e)) p)"
      using Cons.prems opening_step [of env _ _ s e] at_position_step [of s _ env e]
      unfolding opening_to_def opened_at_def by blast
    from Cons.IH [OF this] show ?case by (simp add: run_Cons)
  qed simp
  have "task (new_session date) = NotRun" by (simp add: new_session_def)
  with assms(1) have s: "s = fst (run (session_step env) (fst (start_run env (new_session date))) es)"
    by (simp add: run_Cons)
  have "\<not> at_position s p" for p using assms(2) by (cases p) simp_all
  with * [of "fst (start_run env (new_session date))" es] opening_started [of env date] s show ?thesis by blast
qed

end
