(* ===== verification/Gateway_Registry.thy ===== *)
theory Gateway_Registry
  imports Gateway_Reports Session_Connects "HOL-Library.AList"
begin

section \<open>The device registry\<close>

text \<open>
  The registry is the host's: any object with \<open>register(session)\<close> and \<open>unregister(coreId)\<close>
  (\<open>Usage.md\<close>, step 3). The locale \<open>device_registry\<close> is that contract, and the theorem says what
  such an object holds after any run of the gateway: which entries it has, and which devices it
  is sure to have.
\<close>

subsection \<open>The contract\<close>

text \<open>What the gateway's effects ask of a registry.\<close>

fun registry_calls :: "(string \<Rightarrow> nat \<Rightarrow> 'r \<Rightarrow> 'r) \<Rightarrow> (string \<Rightarrow> 'r \<Rightarrow> 'r) \<Rightarrow> 'r \<Rightarrow> gateway_effect \<Rightarrow> 'r" where
  "registry_calls register unregister r (Register c i) = (case i of None \<Rightarrow> r | Some k \<Rightarrow> register k c r)"
| "registry_calls register unregister r (Unregister k) = unregister k r"
| "registry_calls register unregister r _ = r"

locale device_registry =
  fixes register :: "string \<Rightarrow> nat \<Rightarrow> 'r \<Rightarrow> 'r" and unregister :: "string \<Rightarrow> 'r \<Rightarrow> 'r"
    and lookup :: "'r \<Rightarrow> string \<Rightarrow> nat option"
  assumes find_register: "lookup (register k c r) = (lookup r)(k \<mapsto> c)"
    and find_unregister: "lookup (unregister k r) = (lookup r)(k := None)"
begin

lemma find_call: "lookup (registry_calls register unregister r e) = registry_step (lookup r) e"
  by (cases e) (auto simp: find_register find_unregister split: option.split)

lemma find_calls: "lookup (foldl (registry_calls register unregister) r out) = registry (lookup r) out"
  unfolding registry_def by (induction out arbitrary: r) (simp_all add: find_call)

end

text \<open>A JavaScript \<open>Map\<close> as an association list, and a plain map, keep the contract.\<close>

interpretation alist_registry: device_registry AList.update AList.delete map_of
  by unfold_locales (simp_all add: update_conv' delete_conv' fun_upd_def)

interpretation map_registry: device_registry "\<lambda>k c m. m(k \<mapsto> c)" "\<lambda>k m. m(k := None)" "\<lambda>m. m"
  by unfold_locales simp_all

subsection \<open>When a session knows its device\<close>

lemma segment_coreId:
  "coreId (fst (after_segment env seg s)) = coreId s \<or> 0 < hands (snd (after_segment env seg s))"
  by (cases "pc (fst seg)")
    (auto simp: after_segment_def Let_def split_beta shut_coreId read_queue_def wake_def split: option.split)

lemma resume_coreId:
  "coreId (fst (resume_handshake env hs reply s)) = coreId s \<or> 0 < hands (snd (resume_handshake env hs reply s))"
  by (simp add: resume_handshake_def segment_coreId)

lemma micro_coreId:
  "coreId (fst (micro env s)) = coreId s \<or> 0 < hands (snd (micro env s))"
proof (cases "woken s")
  case Nil
  then show ?thesis by (simp add: micro_def loop_check_def read_queue_def wake_def)
next
  case (Cons r rs)
  let ?s = "s\<lparr>woken := rs\<rparr>"
  have "coreId (fst (resume_read env r ?s)) = coreId ?s \<or> 0 < hands (snd (resume_read env r ?s))"
  proof (cases r)
    case (Resolve w b)
    then show ?thesis
      using resume_coreId [of env _ _ ?s] got_frame_coreId [of env b ?s]
      by (cases w; cases "task s") (simp_all add: read_queue_def wake_def)
  next
    case (Reject w e)
    then show ?thesis
      using resume_coreId [of env _ _ ?s] by (cases "task s") (simp_all add: shut_coreId)
  qed
  then show ?thesis by (simp add: micro_def Cons)
qed

lemma step_coreId:
  assumes "block_cipher (env_E env) D" and "healthy_session h s"
  shows "coreId (fst (session_step env s e)) = coreId s \<or> 0 < hands (snd (session_step env s e))"
proof (cases e)
  case CallRun
  then show ?thesis using assms(2) by (simp add: healthy_session_def)
next
  case (Settle reply)
  then show ?thesis using resume_coreId by (simp add: settle_def split: task.split hs_pc.split)
next
  case Micro
  then show ?thesis using micro_coreId by simp
next
  case (CallSend name opts)
  then show ?thesis using call_send_mild [OF assms(1), of s name opts] by (simp add: mild_def)
next
  case (CallRequest name opts rnd)
  then show ?thesis using request_mild [OF assms(1), of s name opts rnd] by (simp add: mild_def)
next
  case (Data now b)
  then show ?thesis using on_data_mild [of s now b] by (simp add: mild_def)
next
  case (RequestTimeout rid)
  then show ?thesis using timeout_mild [of s rid] by (simp add: mild_def)
qed (simp_all add: shut_coreId idle_timeout_def)

text \<open>So a session has an id from its \<open>handshake\<close> event on, and never changes it.\<close>

lemma coreId_fixed:
  assumes "block_cipher (env_E env) D" and "healthy_session h s" and "0 < hands h"
  shows "coreId (fst (session_step env s e)) = coreId s"
proof -
  have "task s \<noteq> NotRun" "\<not> in_handshake s"
    using assms(2,3) by (auto simp: healthy_session_def task_ok_def in_handshake_def split: task.split)
  with step_life [of s env e] have "hands (snd (session_step env s e)) = 0" by (simp add: life_step_def)
  with step_coreId [OF assms(1,2), of e] show ?thesis by simp
qed

subsection \<open>The entries\<close>

abbreviation core_of :: "gateway \<Rightarrow> nat \<Rightarrow> string option" where
  "core_of g c \<equiv> coreId (c_session (conns g ! c))"

text \<open>Every entry stands for a session that has completed its handshake under that id, and that has not
  closed, or has outlived its close; and a device that is connected once is in the registry. Here
  \<open>ev c\<close> is what the session of connection \<open>c\<close> has emitted.\<close>

definition held :: "effect list \<Rightarrow> bool" where
  "held es \<longleftrightarrow> 0 < hands es \<and> (closes es = 0 \<or> 0 < late False es)"

definition live :: "effect list \<Rightarrow> bool" where
  "live es \<longleftrightarrow> 0 < hands es \<and> closes es = 0"

definition only_holder :: "gateway \<Rightarrow> string \<Rightarrow> nat \<Rightarrow> bool" where
  "only_holder g k c \<longleftrightarrow>
     c < length (conns g) \<and> core_of g c = Some k \<and> (\<forall>d<length (conns g). d \<noteq> c \<longrightarrow> core_of g d \<noteq> Some k)"

definition entries_ok :: "gateway \<Rightarrow> (nat \<Rightarrow> effect list) \<Rightarrow> (string \<Rightarrow> nat option) \<Rightarrow> bool" where
  "entries_ok g ev m \<longleftrightarrow>
     (\<forall>k c. m k = Some c \<longrightarrow> c < length (conns g) \<and> core_of g c = Some k \<and> held (ev c)) \<and>
     (\<forall>k c. only_holder g k c \<and> live (ev c) \<longrightarrow> m k = Some c)"

lemma entries_okD:
  assumes "entries_ok g ev m"
  shows "m k = Some c \<Longrightarrow> c < length (conns g)" and "m k = Some c \<Longrightarrow> core_of g c = Some k"
    and "m k = Some c \<Longrightarrow> held (ev c)" and "only_holder g k c \<Longrightarrow> live (ev c) \<Longrightarrow> m k = Some c"
  using assms by (simp_all add: entries_ok_def)

lemma entries_okI:
  assumes "\<And>k c. m k = Some c \<Longrightarrow> c < length (conns g) \<and> core_of g c = Some k \<and> held (ev c)"
    and "\<And>k c. only_holder g k c \<Longrightarrow> live (ev c) \<Longrightarrow> m k = Some c"
  shows "entries_ok g ev m"
  using assms by (simp add: entries_ok_def)

lemma only_holder_self: "only_holder g k d \<Longrightarrow> c < length (conns g) \<Longrightarrow> core_of g c = Some k \<Longrightarrow> d = c"
  by (auto simp: only_holder_def)

lemma entries_put:
  assumes "entries_ok g ev m" and "c < length (conns g)" and "core_of g c = Some k" and "held x"
  shows "entries_ok g (ev(c := x)) (m(k \<mapsto> c))"
proof (rule entries_okI)
  fix k' d
  assume "(m(k \<mapsto> c)) k' = Some d"
  then show "d < length (conns g) \<and> core_of g d = Some k' \<and> held ((ev(c := x)) d)"
    using assms entries_okD(1-3) [OF assms(1), of k' d] by (cases "k' = k") (auto simp: fun_upd_def)
next
  fix k' d
  assume "only_holder g k' d" and "live ((ev(c := x)) d)"
  then show "(m(k \<mapsto> c)) k' = Some d"
    using only_holder_self [of g k' d c] assms(2,3) entries_okD(4) [OF assms(1), of k' d]
    by (cases "d = c") (auto simp: only_holder_def)
qed

lemma entries_drop:
  assumes "entries_ok g ev m" and "c < length (conns g)" and "core_of g c = Some k" and "\<not> live x"
  shows "entries_ok g (ev(c := x)) (m(k := None))"
proof (rule entries_okI)
  fix k' d
  assume "(m(k := None)) k' = Some d"
  then show "d < length (conns g) \<and> core_of g d = Some k' \<and> held ((ev(c := x)) d)"
    using assms entries_okD(1-3) [OF assms(1), of k' d] by (cases "k' = k") auto
next
  fix k' d
  assume "only_holder g k' d" and "live ((ev(c := x)) d)"
  then show "(m(k := None)) k' = Some d"
    using only_holder_self [of g k' d c] assms entries_okD(4) [OF assms(1), of k' d]
    by (cases "d = c") auto
qed

lemma entries_keep:
  assumes "entries_ok g ev m" and "core_of g c = None \<or> (held (ev c) \<longrightarrow> held x)" and "live x \<longrightarrow> live (ev c)"
  shows "entries_ok g (ev(c := x)) m"
proof (rule entries_okI)
  fix k' d
  assume "m k' = Some d"
  then show "d < length (conns g) \<and> core_of g d = Some k' \<and> held ((ev(c := x)) d)"
    using assms(2) entries_okD(1-3) [OF assms(1), of k' d] by (cases "d = c") auto
next
  fix k' d
  assume "only_holder g k' d" and "live ((ev(c := x)) d)"
  then show "m k' = Some d"
    using assms(3) entries_okD(4) [OF assms(1), of k' d] by (cases "d = c") auto
qed

lemma entries_same:
  assumes "length (conns g') = length (conns g)" and "\<And>d. d < length (conns g) \<Longrightarrow> core_of g' d = core_of g d"
  shows "entries_ok g' ev m = entries_ok g ev m"
proof -
  have "only_holder g' k c = only_holder g k c" for k c using assms by (auto simp: only_holder_def)
  moreover have "(c < length (conns g') \<and> core_of g' c = Some k \<and> P) = (c < length (conns g) \<and> core_of g c = Some k \<and> P)"
    for c k P using assms by auto
  ultimately show ?thesis by (simp add: entries_ok_def)
qed

text \<open>What a session emits next, and what the gateway does about it.\<close>

lemma held_step:
  "held (es @ [e]) \<longleftrightarrow> (if is_close e then 0 < late False es \<and> 0 < hands es
     else if is_handshake e then True else held es)"
  "live (es @ [e]) \<longleftrightarrow> (if is_close e then False else if is_handshake e then closes es = 0 else live es)"
  by (cases e; auto simp: held_def live_def late_append)+

lemma registry_simps [simp]:
  "registry m [] = m" "registry m (x # xs) = registry (registry_step m x) xs"
  "registry m (xs @ ys) = registry (registry m xs) ys"
  by (simp_all add: registry_def)

lemma on_handshake_entries:
  assumes "entries_ok g ev m" and "c < length (conns g)" and "flags_ok (ev c) (conns g ! c)" and "truthy (core_of g c)"
    and "on_handshake c now g = (g1, o1)"
  shows "entries_ok g1 (ev(c := ev c @ [EmitHandshake r])) (registry m o1)"
proof -
  from assms(4) obtain k where k: "core_of g c = Some k" by (auto simp: truthy_def)
  have h: "held (ev c @ [EmitHandshake r])" by (simp add: held_step)
  have same: "entries_ok g1 ev' m' = entries_ok g ev' m'" for ev' m'
    by (rule entries_same) (use assms(2,5) in \<open>auto simp: on_handshake_def Let_def nth_list_update split: if_splits\<close>)
  show ?thesis
  proof (cases "once_handshake (conns g ! c)")
    case True
    with assms(5) k have "registry m o1 = m(k \<mapsto> c)" by (auto simp: on_handshake_def Let_def)
    with entries_put [OF assms(1,2) k h] show ?thesis by (simp add: same)
  next
    case False
    then have "registry m o1 = m" "0 < hands (ev c)"
      using assms(3,5) by (auto simp: on_handshake_def Let_def flags_ok_def)
    with entries_keep [OF assms(1), of c "ev c @ [EmitHandshake r]"] show ?thesis
      by (simp add: same h held_step live_def)
  qed
qed

lemma on_close_entries:
  assumes "entries_ok g ev m" and "c < length (conns g)" and "flags_ok (ev c) (conns g ! c)"
    and "0 < hands (ev c) \<longrightarrow> truthy (core_of g c)" and "on_close c now g = (g1, o1)"
  shows "entries_ok g1 (ev(c := ev c @ [EmitClose])) (registry m o1)"
proof -
  have l: "\<not> live (ev c @ [EmitClose])" by (simp add: held_step)
  have same: "entries_ok g1 ev' m' = entries_ok g ev' m'" for ev' m'
    by (rule entries_same) (use assms(2,5) in \<open>auto simp: on_close_def Let_def nth_list_update split: if_splits\<close>)
  consider (gone) k where "once_close (conns g ! c)" "core_of g c = Some k" "truthy (core_of g c)"
    | (anonymous) "once_close (conns g ! c)" "\<not> truthy (core_of g c)"
    | (again) "\<not> once_close (conns g ! c)"
    by (cases "core_of g c") (auto simp: truthy_def)
  then show ?thesis
  proof cases
    case gone
    with assms(5) have "registry m o1 = m(k := None)" by (auto simp: on_close_def Let_def split: if_splits)
    with entries_drop [OF assms(1,2) gone(2) l] show ?thesis by (simp add: same)
  next
    case anonymous
    with assms(4,5) have "registry m o1 = m" "\<not> held (ev c)"
      by (auto simp: on_close_def Let_def held_def split: if_splits)
    with entries_keep [OF assms(1)] l show ?thesis by (simp add: same)
  next
    case again
    with assms(3,5) have "registry m o1 = m" "held (ev c) \<longrightarrow> held (ev c @ [EmitClose])"
      by (auto simp: on_close_def flags_ok_def held_step, auto simp: held_def)
    with entries_keep [OF assms(1)] l show ?thesis by (simp add: same)
  qed
qed

lemma hear_entries:
  assumes "entries_ok g ev m" and "c < length (conns g)" and "flags_ok (ev c) (conns g ! c)"
    and "0 < hands (ev c @ fx) \<longrightarrow> truthy (core_of g c)"
  shows "entries_ok (fst (hear c now g fx)) (ev(c := ev c @ fx)) (registry m (snd (hear c now g fx)))"
  using assms
proof (induction fx arbitrary: g ev m)
  case (Cons e fx)
  obtain g1 o1 where s: "(case e of EmitHandshake r \<Rightarrow> on_handshake c now g
      | EmitClose \<Rightarrow> on_close c now g | _ \<Rightarrow> (g, [])) = (g1, o1)" by fastforce
  have tr: "0 < hands (ev c @ [e]) \<longrightarrow> truthy (core_of g c)" using Cons.prems(4) by auto
  have "relays c (ev c) [e] g (hear c now g [e])" by (rule hear_relays [OF Cons.prems(2,3) tr])
  then obtain x' where x': "conns g1 = (conns g)[c := x']" "c_session x' = c_session (conns g ! c)"
    "flags_ok (ev c @ [e]) x'"
    using s by (auto simp: relays_def)
  have "entries_ok g1 (ev(c := ev c @ [e])) (registry m o1)"
  proof (cases "is_close e \<or> is_handshake e")
    case True
    with s tr on_handshake_entries [OF Cons.prems(1-3), of now g1 o1] on_close_entries [OF Cons.prems(1-3), of now g1 o1]
    show ?thesis by (cases e) auto
  next
    case False
    with s have "g1 = g" "o1 = []" by (cases e; simp)+
    with entries_keep [OF Cons.prems(1), of c "ev c @ [e]"] False show ?thesis by (simp add: held_step)
  qed
  moreover define ev1 where "ev1 = ev(c := ev c @ [e])"
  ultimately have ok: "entries_ok g1 ev1 (registry m o1)" by simp
  have ev1: "ev1 c = ev c @ [e]" "ev1(c := ev1 c @ fx) = ev(c := ev c @ e # fx)" by (simp_all add: ev1_def)
  have "entries_ok (fst (hear c now g1 fx)) (ev1(c := ev1 c @ fx)) (registry (registry m o1) (snd (hear c now g1 fx)))"
    by (rule Cons.IH [OF ok]) (use x' ev1(1) Cons.prems(2,4) in simp_all)
  moreover have "hear c now g (e # fx) = (fst (hear c now g1 fx), FromSession c e # o1 @ snd (hear c now g1 fx))"
    by (simp add: s split_beta)
  ultimately show ?case unfolding ev1(2) by (simp only: fst_conv snd_conv registry_simps registry_step.simps)
qed simp

subsection \<open>Every run\<close>

definition registry_ok :: "(nat \<Rightarrow> hs_env) \<Rightarrow> gateway \<Rightarrow> gateway_effect list \<Rightarrow> bool" where
  "registry_ok env g out \<longleftrightarrow>
     gateway_ok env g out \<and> (\<forall>c<length (conns g). hands (heard c out) = 0 \<longrightarrow> core_of g c = None) \<and>
     entries_ok g (\<lambda>c. heard c out) (registry Map.empty out)"

text \<open>A session may learn its id in a step whose events have not been heard yet.\<close>

lemma entries_named:
  assumes "entries_ok g ev m" and "length (conns g') = length (conns g)"
    and "\<And>d. d < length (conns g) \<Longrightarrow> d \<noteq> c \<Longrightarrow> core_of g' d = core_of g d"
    and "core_of g' c = core_of g c \<or> core_of g c = None \<and> \<not> live (ev c)"
  shows "entries_ok g' ev m"
proof (rule entries_okI)
  fix k d
  assume "m k = Some d"
  from entries_okD(1-3) [OF assms(1) this]
  show "d < length (conns g') \<and> core_of g' d = Some k \<and> held (ev d)"
    using assms(2-4) by (cases "d = c") auto
next
  fix k d
  assume h: "only_holder g' k d" and l: "live (ev d)"
  have same: "core_of g' c = core_of g c \<or> core_of g c = None \<and> d \<noteq> c" using assms(4) l by auto
  have "core_of g e \<noteq> Some k" if "e < length (conns g)" "e \<noteq> d" for e
    using h assms(2,3) same that by (cases "e = c") (auto simp: only_holder_def)
  moreover have "core_of g d = Some k"
    using h assms(2,3) same by (cases "d = c") (auto simp: only_holder_def)
  ultimately have "only_holder g k d" using h assms(2) by (simp add: only_holder_def)
  then show "m k = Some d" using l by (rule entries_okD(4) [OF assms(1)])
qed

lemma session_event_registry:
  assumes "\<forall>c. block_cipher (env_E (env c)) (D c)" and "registry_ok env g out"
    and "session_event env c now e g = (g2, o2)"
  shows "registry_ok env g2 (out @ o2)"
proof (cases "c < length (conns g)")
  case True
  let ?x = "conns g ! c" and ?h = "heard c out"
  obtain s fx where st: "session_step (env c) (c_session ?x) e = (s, fx)" by fastforce
  let ?g1 = "set_conn c (?x\<lparr>c_session := s\<rparr>) g"
  from assms(2) have ok: "gateway_ok env g out" and en: "entries_ok g (\<lambda>c. heard c out) (registry Map.empty out)"
    and none: "\<And>d. d < length (conns g) \<Longrightarrow> hands (heard d out) = 0 \<Longrightarrow> core_of g d = None"
    by (simp_all add: registry_ok_def)
  have h: "healthy_session ?h (c_session ?x)" and fl: "flags_ok ?h ?x"
    using ok True by (simp_all add: gateway_ok_def mirror_def Let_def)
  note bc = spec [OF assms(1), of c]
  have h': "healthy_session (?h @ fx) s" using step_steady [OF bc h, of e] st by (simp add: steady_def)
  then have tr: "0 < hands (?h @ fx) \<longrightarrow> truthy (coreId s)"
    by (auto simp: healthy_session_def fields_ok_def named_def truthy_def)
  have core: "coreId s = core_of g c \<or> core_of g c = None \<and> \<not> live ?h" "hands (?h @ fx) = 0 \<Longrightarrow> coreId s = None"
    using coreId_fixed [OF bc h, of e] step_coreId [OF bc h, of e] none [OF True] st by (auto simp: live_def)
  have hear: "hear c now ?g1 fx = (g2, o2)" using assms(3) True st by (simp add: session_event_def)
  have "relays c ?h fx ?g1 (g2, o2)"
    unfolding hear [symmetric] by (rule hear_relays) (use True fl tr in \<open>simp_all add: flags_ok_def\<close>)
  then obtain x' where x': "conns g2 = (conns g)[c := x']" "c_session x' = s"
    and hd: "\<And>d. heard d o2 = (if d = c then fx else [])"
    using True by (auto simp: relays_def)
  have "entries_ok ?g1 (\<lambda>c. heard c out) (registry Map.empty out)"
    by (rule entries_named [OF en, of _ c]) (use core(1) True in simp_all)
  from hear_entries [OF this, of c fx now] have
    "entries_ok g2 ((\<lambda>c. heard c out)(c := ?h @ fx)) (registry (registry Map.empty out) o2)"
    using True fl tr hear by (simp add: flags_ok_def)
  moreover have "(\<lambda>c. heard c out)(c := ?h @ fx) = (\<lambda>d. heard d (out @ o2))" by (auto simp: hd)
  moreover have "hands (heard d (out @ o2)) = 0 \<longrightarrow> core_of g2 d = None" if "d < length (conns g2)" for d
    using that none [of d] core(2) x' True by (cases "d = c") (simp_all add: hd)
  ultimately show ?thesis using session_event_ok [OF assms(1) ok assms(3)] by (simp add: registry_ok_def)
next
  case False
  with assms(2,3) show ?thesis by (simp add: session_event_def)
qed

lemma connection_registry:
  assumes "registry_ok env g out" and "on_connection env remote date now g = (g2, o2)"
  shows "registry_ok env g2 (out @ o2)"
proof -
  let ?c = "length (conns g)" and ?s = "fst (start_run (env (length (conns g))) (new_session date))"
  let ?x = "\<lparr>c_session = ?s, c_remote = remote, c_startedAt = now, handshakeSucceeded = False,
               once_handshake = True, once_close = True\<rparr>"
  have fx: "snd (start_run (env ?c) (new_session date)) = [Write (env_nonce (env ?c))]" by (simp add: start_run_eq)
  have t: "task (new_session date) = NotRun" by (simp add: new_session_def)
  have r: "g2 = g\<lparr>conns := conns g @ [?x], sessions := sessions g @ [?c]\<rparr>"
    "o2 = [SetNoDelay ?c, EmitConnection remote ?c, FromSession ?c (Write (env_nonce (env ?c)))]"
    using assms(2) fx t by (auto simp: on_connection_def session_event_def split_beta Let_def set_conn_def)
  have cid: "coreId ?s = None" by (simp add: start_run_eq new_session_def read_queue_def wake_def)
  have g2: "length (conns g2) = Suc ?c" "core_of g2 ?c = None" "\<And>d. d < ?c \<Longrightarrow> core_of g2 d = core_of g d"
    using cid by (simp_all add: r nth_append)
  have hd: "heard d (out @ o2) = heard d out @ (if d = ?c then [Write (env_nonce (env ?c))] else [])" for d
    by (simp add: r)
  have reg: "registry Map.empty (out @ o2) = registry Map.empty out" by (simp add: r)
  note en = assms(1) [unfolded registry_ok_def]
  have holder: "only_holder g k d" if "only_holder g2 k d" for k d
    using that g2 by (auto simp: only_holder_def less_Suc_eq)
  have "entries_ok g2 (\<lambda>d. heard d (out @ o2)) (registry Map.empty (out @ o2))"
  proof (rule entries_okI)
    fix k d
    assume "registry Map.empty (out @ o2) k = Some d"
    with en have "d < ?c" "core_of g d = Some k" "held (heard d out)" unfolding reg entries_ok_def by blast+
    with g2 show "d < length (conns g2) \<and> core_of g2 d = Some k \<and> held (heard d (out @ o2))"
      by (simp add: hd del: heard_append)
  next
    fix k d
    assume h: "only_holder g2 k d" and l: "live (heard d (out @ o2))"
    from holder [OF h] have "live (heard d out)" using l by (simp add: hd only_holder_def del: heard_append)
    then show "registry Map.empty (out @ o2) k = Some d"
      unfolding reg using entries_okD(4) [OF _ holder [OF h]] en by blast
  qed
  moreover have "hands (heard d (out @ o2)) = 0 \<longrightarrow> core_of g2 d = None" if "d < length (conns g2)" for d
    using that g2 en by (cases "d = ?c") (simp_all add: hd less_Suc_eq del: heard_append)
  ultimately show ?thesis
    using connection_ok [OF _ assms(2)] en by (simp add: registry_ok_def)
qed

lemma registry_ok_quiet:
  assumes "registry_ok env g out" and "list_all about_none xs" and "registry (registry Map.empty out) xs = registry Map.empty out"
    and "conns g' = conns g" and "sessions g' = sessions g"
  shows "registry_ok env g' (out @ xs)"
proof -
  have hd: "heard c (out @ xs) = heard c out" for c using about_none_counts [OF assms(2), of c] by simp
  have "entries_ok g' (\<lambda>c. heard c (out @ xs)) (registry Map.empty (out @ xs)) =
      entries_ok g (\<lambda>c. heard c out) (registry Map.empty out)"
    unfolding hd using assms(3,4) by (subst entries_same [of g' g]) simp_all
  moreover have "gateway_ok env g' (out @ xs)"
    using gateway_ok_quiet [OF _ assms(2,4,5)] assms(1) by (simp add: registry_ok_def)
  moreover have "hands (heard c (out @ xs)) = 0 \<longrightarrow> core_of g' c = None" if "c < length (conns g')" for c
    using assms(1,4) that unfolding hd by (simp add: registry_ok_def)
  ultimately show ?thesis using assms(1) by (simp add: registry_ok_def del: heard_append)
qed

lemma disconnect_all_registry:
  assumes "\<forall>c. block_cipher (env_E (env c)) (D c)" and "registry_ok env g out" and "disconnect_all env now cs g = (g2, o2)"
  shows "registry_ok env g2 (out @ o2)"
  using assms(2,3)
proof (induction cs arbitrary: g out g2 o2)
  case (Cons c cs)
  obtain g1 o1 where 1: "session_event env c now CallDisconnect g = (g1, o1)" by fastforce
  obtain g3 o3 where 2: "disconnect_all env now cs g1 = (g3, o3)" by fastforce
  from Cons.IH [OF session_event_registry [OF assms(1) Cons.prems(1) 1] 2] Cons.prems(2) 1 2 show ?case by auto
qed simp

lemma stop_registry:
  assumes "\<forall>c. block_cipher (env_E (env c)) (D c)" and "registry_ok env g out" and "gateway_stop env now g = (g2, o2)"
  shows "registry_ok env g2 (out @ o2)"
proof (cases "server g")
  case None
  with assms(3) have "g2 = g" "o2 = [StopResolved]" by (simp_all add: gateway_stop_def)
  then show ?thesis using registry_ok_quiet [OF assms(2), of "[StopResolved]" g] by simp
next
  case (Some i)
  obtain g1 o1 where d: "disconnect_all env now (sessions g) g = (g1, o1)" by fastforce
  have "gateway_ok env g out" using assms(2) by (simp add: registry_ok_def)
  from disconnect_all_ok [OF assms(1) this d] have e: "sessions g1 = []" by auto
  from assms(3) Some d have "conns g2 = conns g1" "sessions g2 = sessions g1" "o2 = o1 @ [CloseListener i]"
    using e by (auto simp: gateway_stop_def Let_def)
  with registry_ok_quiet [OF disconnect_all_registry [OF assms(1,2) d], of "[CloseListener i]" g2] show ?thesis by simp
qed

lemma gateway_step_registry:
  assumes "\<forall>c. block_cipher (env_E (g_env opts c)) (D c)" and "registry_ok (g_env opts) g out"
    and "gateway_step opts g e = (g2, o2)"
  shows "registry_ok (g_env opts) g2 (out @ o2)"
proof -
  note q = registry_ok_quiet [OF assms(2)]
  have rep: "list_all about_none (replicate n (EmitGatewayError x))" "registry m (replicate n (EmitGatewayError x)) = m"
    for n x m by (induction n) simp_all
  show ?thesis
  proof (cases e)
    case (Accept remote date now)
    with assms(3) show ?thesis by (simp add: connection_registry [OF assms(2)])
  next
    case (OnSession c now ev)
    with assms(3) show ?thesis by (simp add: session_event_registry [OF assms(1,2)])
  next
    case (Stop now)
    with assms(3) show ?thesis by (simp add: stop_registry [OF assms(1,2)])
  next
    case Start
    with assms(3) show ?thesis by (auto simp: gateway_start_def Let_def intro!: q)
  next
    case (Bound i a)
    with assms(3) q [of "[]" g] show ?thesis
      by (auto simp: on_listening_def Let_def intro!: q split: if_splits option.splits)
  next
    case (ServerError i x)
    with assms(3) q [of "[]" g] rep show ?thesis
      by (auto simp: on_server_error_def Let_def intro!: q split: if_splits)
  next
    case (ListenerClosed i)
    with assms(3) q [of "[]" g] show ?thesis by (auto intro!: q split: if_splits)
  qed
qed

lemma gateway_run_registry:
  assumes "\<forall>c. block_cipher (env_E (g_env opts c)) (D c)" and "registry_ok (g_env opts) g out"
  shows "registry_ok (g_env opts) (fst (run (gateway_step opts) g es)) (out @ snd (run (gateway_step opts) g es))"
  using assms(2)
proof (induction es arbitrary: g out)
  case (Cons e es)
  obtain g1 o1 where s: "gateway_step opts g e = (g1, o1)" by fastforce
  from Cons.IH [OF gateway_step_registry [OF assms(1) Cons.prems s]] show ?case by (simp add: run_Cons s)
qed simp

lemma new_registry_ok: "registry_ok env new_gateway []"
  using new_gateway_ok [of env] by (simp add: registry_ok_def entries_ok_def only_holder_def, simp add: new_gateway_def)

text \<open>C22. What the host's registry holds, after any run of the gateway, for any object that keeps the
  contract of \<open>Usage.md\<close>. Every entry stands for a session that has completed its handshake under
  that id, and whose \<open>close\<close> has not been emitted, unless its handshake completed after that (the
  session that outlives its close). A session that has completed its handshake, and whose \<open>close\<close> has
  not been emitted, is found under its id if no other connection, open or closed, ever had that id.
\<close>

theorem registry_tracks_devices:
  assumes "device_registry register unregister lookup" and "lookup r0 = Map.empty"
    and "\<forall>c. block_cipher (env_E (g_env opts c)) (env_D (g_env opts c))"
    and "run (gateway_step opts) new_gateway es = (g, out)"
    and "r = foldl (registry_calls register unregister) r0 out"
  shows "(\<forall>k c. lookup r k = Some c \<longrightarrow> c < length (conns g) \<and> coreId (c_session (conns g ! c)) = Some k \<and>
            0 < hands (heard c out) \<and> (closes (heard c out) = 0 \<or> 0 < late False (heard c out))) \<and>
         (\<forall>k c. c < length (conns g) \<and> coreId (c_session (conns g ! c)) = Some k \<and>
            (\<forall>d<length (conns g). d \<noteq> c \<longrightarrow> coreId (c_session (conns g ! d)) \<noteq> Some k) \<and>
            0 < hands (heard c out) \<and> closes (heard c out) = 0 \<longrightarrow>
            lookup r k = Some c)"
proof -
  have "registry_ok (g_env opts) g out"
    using gateway_run_registry [OF assms(3) new_registry_ok, of es] assms(4) by simp
  moreover have "lookup r = registry Map.empty out"
    unfolding assms(5) device_registry.find_calls [OF assms(1)] assms(2) ..
  ultimately have ok: "entries_ok g (\<lambda>c. heard c out) (lookup r)" unfolding registry_ok_def by argo
  have sound: "c < length (conns g) \<and> core_of g c = Some k \<and> 0 < hands (heard c out) \<and>
      (closes (heard c out) = 0 \<or> 0 < late False (heard c out))" if "lookup r k = Some c" for k c
    using entries_okD(1-3) [OF ok that] by (simp add: held_def)
  have complete: "lookup r k = Some c"
    if "c < length (conns g) \<and> core_of g c = Some k \<and>
        (\<forall>d<length (conns g). d \<noteq> c \<longrightarrow> core_of g d \<noteq> Some k) \<and> 0 < hands (heard c out) \<and> closes (heard c out) = 0"
    for k c using entries_okD(4) [OF ok, of k c] that by (simp add: only_holder_def live_def)
  show ?thesis by (rule conjI) (intro allI impI, rule sound, assumption, intro allI impI, rule complete, assumption)
qed

subsection \<open>A device that is registered\<close>

lemma hear_session:
  assumes "c < length (conns g)"
  shows "c_session (conns (fst (hear c now g fx)) ! c) = c_session (conns g ! c) \<and>
         length (conns (fst (hear c now g fx))) = length (conns g) \<and> heard c (snd (hear c now g fx)) = fx"
  using assms
proof (induction fx arbitrary: g)
  case (Cons e fx)
  obtain g1 o1 where s: "(case e of EmitHandshake r \<Rightarrow> on_handshake c now g
      | EmitClose \<Rightarrow> on_close c now g | _ \<Rightarrow> (g, [])) = (g1, o1)" by fastforce
  then have "c_session (conns g1 ! c) = c_session (conns g ! c) \<and> length (conns g1) = length (conns g) \<and> heard c o1 = []"
    using Cons.prems by (cases e) (auto simp: on_handshake_def on_close_def Let_def split: if_splits)
  with Cons.IH [of g1] Cons.prems s show ?case by (simp add: split_beta)
qed simp

lemma relayed_run:
  assumes "c < length (conns g)"
  shows "c_session (conns (fst (run (gateway_step opts) g (map (OnSession c now) es))) ! c) =
           fst (run (session_step (g_env opts c)) (c_session (conns g ! c)) es) \<and>
         length (conns (fst (run (gateway_step opts) g (map (OnSession c now) es)))) = length (conns g) \<and>
         heard c (snd (run (gateway_step opts) g (map (OnSession c now) es))) =
           snd (run (session_step (g_env opts c)) (c_session (conns g ! c)) es)"
  using assms
proof (induction es arbitrary: g)
  case (Cons e es)
  let ?x = "conns g ! c"
  obtain s fx where st: "session_step (g_env opts c) (c_session ?x) e = (s, fx)" by fastforce
  let ?g1 = "set_conn c (?x\<lparr>c_session := s\<rparr>) g"
  have "session_event (g_env opts) c now e g = hear c now ?g1 fx" using Cons.prems st by (simp add: session_event_def)
  with hear_session [of c ?g1 now fx] Cons.prems Cons.IH [of "fst (hear c now ?g1 fx)"] st
  show ?case by (simp add: run_Cons)
qed simp

theorem registry_tracks_devices_witness:
  "\<exists>k. map_of (foldl (registry_calls AList.update AList.delete) []
          (snd (run (gateway_step toy_opts) new_gateway (Accept ''a:1'' 0 0 # map (OnSession 0 7) toy_dialogue)))) k = Some 0"
proof -
  let ?acc = "on_connection (g_env toy_opts) ''a:1'' 0 0 new_gateway"
  let ?es = "Accept ''a:1'' 0 0 # map (OnSession 0 7) toy_dialogue"
  obtain s fx k where d: "run (session_step toy_env) (new_session 0) (CallRun # toy_dialogue) = (s, fx)" "hands fx = 1"
    "inq s = new_byte_queue" "coreId s = Some k" by (rule toy_completes)
  have acc: "c_session (conns (fst ?acc) ! 0) = fst (start_run toy_env (new_session 0))" "length (conns (fst ?acc)) = 1"
    "heard 0 (snd ?acc) = snd (start_run toy_env (new_session 0))"
    by (simp_all add: on_connection_def session_event_def new_gateway_def toy_opts_def new_session_def start_run_eq set_conn_def)
  obtain g out where run: "run (gateway_step toy_opts) new_gateway ?es = (g, out)" by fastforce
  have "task (new_session 0) = NotRun" by (simp add: new_session_def)
  with d(1) have "s = fst (run (session_step toy_env) (fst (start_run toy_env (new_session 0))) toy_dialogue)"
    "fx = snd (start_run toy_env (new_session 0)) @ snd (run (session_step toy_env) (fst (start_run toy_env (new_session 0))) toy_dialogue)"
    by (simp_all add: run_Cons)
  moreover have "0 < length (conns (fst ?acc))" using acc(2) by simp
  note relayed_run [OF this, of toy_opts 7 toy_dialogue, unfolded acc(1,2)]
  moreover have "g_env toy_opts 0 = toy_env" by (simp add: toy_opts_def)
  moreover from run have "g = fst (run (gateway_step toy_opts) (fst ?acc) (map (OnSession 0 7) toy_dialogue))"
    "out = snd ?acc @ snd (run (gateway_step toy_opts) (fst ?acc) (map (OnSession 0 7) toy_dialogue))"
    by (auto simp: run_Cons)
  ultimately have g: "c_session (conns g ! 0) = s" "heard 0 out = fx" "length (conns g) = 1"
    using acc(3) by simp_all
  have "gateway_ok (g_env toy_opts) g out" using gateway_run_ok [OF toy_ciphers, of ?es] run by simp
  then have "healthy_session fx s" using g by (simp add: gateway_ok_def mirror_def Let_def)
  then have closes: "closes fx = 0" using d(3) by (simp add: healthy_session_def fields_ok_def new_byte_queue_def)
  have "device_registry AList.update AList.delete (map_of :: (string \<times> nat) list \<Rightarrow> _)" by (rule alist_registry.device_registry_axioms)
  from registry_tracks_devices [OF this _ toy_ciphers run refl, of "[]"] d g closes
  show ?thesis by (auto simp: run)
qed

end
