(* ===== verification/Crypto_Worker.thy ===== *)
theory Crypto_Worker
  imports Crypto Machine "HOL-Library.AList"
begin

section \<open>A crypto worker and its key caches (\<open>lib/crypto-worker.js\<close>)\<close>

text \<open>
  A worker thread answers each message \<open>{id, op, keyPem, data, extra}\<close> with \<open>{id, result}\<close> or
  \<open>{id, error}\<close>. It keeps two caches of parsed keys, each a JavaScript \<open>Map\<close>: here an association
  list in insertion order, on which \<open>AList.update\<close> does what \<open>Map.set\<close> does (a key that is
  there keeps its place, a new one goes to the end) and \<open>AList.delete\<close> what \<open>Map.delete\<close> does.

  The locale \<open>key_cache\<close> is the contract of the two caches: what \<open>get\<close> gives is what parsing
  the key would give. The worker's replies are shown to depend on it only.
\<close>

subsection \<open>The caches\<close>

type_synonym 'k cache = "(string \<times> 'k) list"

definition LRU_MAX :: nat where
  "LRU_MAX = 64"

definition lruGet :: "'k cache \<Rightarrow> string \<Rightarrow> 'k cache \<times> 'k option" where
  "lruGet cache pem =
     (case map_of cache pem of
        None \<Rightarrow> (cache, None)
      | Some hit \<Rightarrow> (AList.update pem hit (AList.delete pem cache), Some hit))"

definition lruSet :: "'k cache \<Rightarrow> string \<Rightarrow> 'k \<Rightarrow> 'k cache" where
  "lruSet cache pem obj =
     (let c = AList.update pem obj cache in
      if length c > LRU_MAX then (case c of [] \<Rightarrow> c | (oldest, _) # _ \<Rightarrow> AList.delete oldest c) else c)"

definition get_key :: "(string \<Rightarrow> js_error + 'k) \<Rightarrow> 'k cache \<Rightarrow> string \<Rightarrow> 'k cache \<times> (js_error + 'k)" where
  "get_key load cache pem =
     (case lruGet cache pem of
        (c, Some k) \<Rightarrow> (c, Inr k)
      | (c, None) \<Rightarrow>
          (case load pem of
             Inl e \<Rightarrow> (c, Inl e)
           | Inr k \<Rightarrow> (lruSet c pem k, Inr k)))"

subsection \<open>The worker\<close>

text \<open>What the worker takes from Node: key parsing and RSA.\<close>

record ('pub, 'priv) node_crypto =
  createPublicKey :: "key_source \<Rightarrow> js_error + 'pub"
  createPrivateKey :: "key_material \<Rightarrow> string option \<Rightarrow> js_error + 'priv"
  node_rsa :: "('pub, 'priv) node_rsa"

definition load_pub :: "('pub, 'priv) node_crypto \<Rightarrow> string \<Rightarrow> js_error + 'pub" where
  "load_pub node pem = loadPublicKey (createPublicKey node) (KeyText pem)"

definition load_priv :: "('pub, 'priv) node_crypto \<Rightarrow> string \<Rightarrow> js_error + 'priv" where
  "load_priv node pem = loadPrivateKey (createPrivateKey node) (KeyText pem) None"

definition getPub :: "('pub, 'priv) node_crypto \<Rightarrow> 'pub cache \<Rightarrow> string \<Rightarrow> 'pub cache \<times> (js_error + 'pub)" where
  "getPub node = get_key (load_pub node)"

definition getPriv :: "('pub, 'priv) node_crypto \<Rightarrow> 'priv cache \<Rightarrow> string \<Rightarrow> 'priv cache \<times> (js_error + 'priv)" where
  "getPriv node = get_key (load_priv node)"

record task_msg =
  m_id :: nat
  m_op :: string
  m_keyPem :: string
  m_data :: bytes
  m_extra :: "bytes option"

datatype reply = Result nat bytes | Failure nat string

record ('pub, 'priv) worker =
  pubCache :: "'pub cache"
  privCache :: "'priv cache"

definition new_worker :: "('pub, 'priv) worker" where
  "new_worker = \<lparr>pubCache = [], privCache = []\<rparr>"

text \<open>\<open>rsaVerify\<close> with an undefined signature: the \<open>TypeError\<close> is caught, as any failure is.\<close>

definition verify_byte :: "('pub, 'priv) node_crypto \<Rightarrow> 'pub \<Rightarrow> bytes \<Rightarrow> bytes option \<Rightarrow> bytes" where
  "verify_byte node k hash extra =
     (let ok = (case extra of None \<Rightarrow> False | Some sig \<Rightarrow> rsaVerify (node_rsa node) k hash sig)
      in [if ok then 1 else 0])"

text \<open>The \<open>switch\<close>, which gives a result or throws; \<open>rnd\<close> are the random padding bytes of the call.\<close>

definition run_op ::
    "('pub, 'priv) node_crypto \<Rightarrow> bytes \<Rightarrow> task_msg \<Rightarrow> ('pub, 'priv) worker \<Rightarrow>
     ('pub, 'priv) worker \<times> (js_error + bytes)" where
  "run_op node rnd msg w =
     (if m_op msg = ''encrypt'' then
        let (c, k) = getPub node (pubCache w) (m_keyPem msg)
        in (w\<lparr>pubCache := c\<rparr>, bindE k (\<lambda>k. rsaEncrypt (node_rsa node) k rnd (m_data msg)))
      else if m_op msg = ''decrypt'' then
        let (c, k) = getPriv node (privCache w) (m_keyPem msg)
        in (w\<lparr>privCache := c\<rparr>, bindE k (\<lambda>k. rsaDecrypt (node_rsa node) k (m_data msg)))
      else if m_op msg = ''sign'' then
        let (c, k) = getPriv node (privCache w) (m_keyPem msg)
        in (w\<lparr>privCache := c\<rparr>, bindE k (\<lambda>k. rsaSign (node_rsa node) k (m_data msg)))
      else if m_op msg = ''verify'' then
        let (c, k) = getPub node (pubCache w) (m_keyPem msg)
        in (w\<lparr>pubCache := c\<rparr>, bindE k (\<lambda>k. Inr (verify_byte node k (m_data msg) (m_extra msg))))
      else (w, Inl (Error (''unknown op: '' @ m_op msg))))"

definition reply_of :: "nat \<Rightarrow> js_error + bytes \<Rightarrow> reply" where
  "reply_of i r = (case r of Inl e \<Rightarrow> Failure i (message e) | Inr b \<Rightarrow> Result i b)"

definition worker_message ::
    "('pub, 'priv) node_crypto \<Rightarrow> ('pub, 'priv) worker \<Rightarrow> bytes \<times> task_msg \<Rightarrow>
     ('pub, 'priv) worker \<times> reply list" where
  "worker_message node w x =
     (let (w', r) = run_op node (fst x) (snd x) w in (w', [reply_of (m_id (snd x)) r]))"

subsection \<open>The contract of a key cache\<close>

locale key_cache =
  fixes load :: "string \<Rightarrow> js_error + 'k"
    and get :: "'k cache \<Rightarrow> string \<Rightarrow> 'k cache \<times> (js_error + 'k)"
    and ok :: "'k cache \<Rightarrow> bool"
  assumes ok_new: "ok []"
    and ok_get: "ok c \<Longrightarrow> ok (fst (get c pem))"
    and get_load: "ok c \<Longrightarrow> snd (get c pem) = load pem"
begin

text \<open>A client that gets a key and goes on with it does not see the cache.\<close>

lemma client: "ok c \<Longrightarrow> bindE (snd (get c pem)) f = bindE (load pem) f"
  by (simp add: get_load)

lemma gets: "ok c \<Longrightarrow> snd (run (\<lambda>c pem. apsnd (\<lambda>r. [r]) (get c pem)) c pems) = map load pems"
  by (induction pems arbitrary: c) (simp_all add: run_Cons ok_get get_load)

lemma ok_gets: "ok c \<Longrightarrow> ok (fst (run (\<lambda>c pem. apsnd (\<lambda>r. [r]) (get c pem)) c pems))"
  by (induction pems arbitrary: c) (simp_all add: run_Cons ok_get)

end

text \<open>What holds of a cache: its keys are distinct, at most \<open>LRU_MAX\<close>, and parsed correctly.\<close>

definition cache_ok :: "(string \<Rightarrow> js_error + 'k) \<Rightarrow> 'k cache \<Rightarrow> bool" where
  "cache_ok load c \<longleftrightarrow>
     distinct (map fst c) \<and> length c \<le> LRU_MAX \<and> list_all (\<lambda>(pem, k). load pem = Inr k) c"

text \<open>The two operations on the list of keys alone.\<close>

lemma update_new: "k \<notin> fst ` set c \<Longrightarrow> AList.update k v c = c @ [(k, v)]"
  by (induction c) auto

lemma delete_filter_keys: "map fst (AList.delete k c) = filter (\<lambda>x. x \<noteq> k) (map fst c)"
  by (induction c) (auto simp: AList.delete_eq)

lemma lruGet_keys:
  "map fst (fst (lruGet c pem)) =
     (if pem \<in> set (map fst c) then filter (\<lambda>x. x \<noteq> pem) (map fst c) @ [pem] else map fst c)"
proof -
  have "pem \<notin> fst ` set (AList.delete pem c)" by (auto simp: AList.delete_eq)
  then show ?thesis
    using map_of_eq_None_iff [of c pem]
    by (auto simp: lruGet_def update_new delete_filter_keys split: option.split)
qed

lemma lruSet_new:
  assumes "pem \<notin> fst ` set c" and "distinct (map fst c)"
  shows "lruSet c pem k =
           (if length c < LRU_MAX then c @ [(pem, k)] else tl (c @ [(pem, k)]))"
proof (cases "length c < LRU_MAX")
  case False
  then obtain a b r where c: "c = (a, b) # r" by (cases c) (auto simp: LRU_MAX_def)
  with assms False show ?thesis
    by (auto simp: lruSet_def Let_def update_new AList.delete_eq filter_id_conv image_iff)
qed (use assms in \<open>simp add: lruSet_def update_new Let_def\<close>)

lemma cache_okI:
  assumes "cache_ok load c" and "set c' \<subseteq> set c \<union> {(pem, k)}" and "load pem = Inr k"
    and "distinct (map fst c')" and "length c' \<le> LRU_MAX"
  shows "cache_ok load c'"
  using assms by (auto simp: cache_ok_def list_all_iff)

lemma lruGet_ok:
  assumes "cache_ok load c"
  shows "cache_ok load (fst (lruGet c pem))" and "snd (lruGet c pem) = map_of c pem"
    and "map_of c pem = Some k \<Longrightarrow> load pem = Inr k"
proof -
  show key: "map_of c pem = Some k \<Longrightarrow> load pem = Inr k" for k
    using assms by (auto simp: cache_ok_def list_all_iff dest: map_of_SomeD)
  show "snd (lruGet c pem) = map_of c pem" by (simp add: lruGet_def split: option.split)
  have d: "distinct (map fst c)" and l: "length c \<le> LRU_MAX" using assms by (simp_all add: cache_ok_def)
  have keys: "distinct (map fst (fst (lruGet c pem)))" using d by (auto simp: lruGet_keys)
  show "cache_ok load (fst (lruGet c pem))"
  proof (cases "map_of c pem")
    case None
    with assms show ?thesis by (simp add: lruGet_def)
  next
    case (Some k)
    then have mem: "(pem, k) \<in> set c" by (rule map_of_SomeD)
    have upd: "AList.update pem k (AList.delete pem c) = AList.delete pem c @ [(pem, k)]"
      by (rule update_new) (auto simp: AList.delete_eq)
    have "length (AList.delete pem c) < length c"
      using mem length_filter_less [of "(pem, k)" c "\<lambda>x. pem \<noteq> fst x"]
      by (simp add: AList.delete_eq case_prod_unfold)
    with l have "length (fst (lruGet c pem)) \<le> LRU_MAX" by (simp add: lruGet_def Some upd)
    moreover have "set (fst (lruGet c pem)) \<subseteq> set c \<union> {(pem, k)}"
      unfolding lruGet_def Some option.case fst_conv upd by (auto simp: AList.delete_eq)
    ultimately show ?thesis using cache_okI [OF assms _ key [OF Some] keys] by blast
  qed
qed

text \<open>What a successful access does to the keys: a hit moves to the end; a miss is put at the end,
  and the first one goes when there are too many.\<close>

definition touch :: "string list \<Rightarrow> string \<Rightarrow> string list" where
  "touch ks pem =
     (if pem \<in> set ks then filter (\<lambda>x. x \<noteq> pem) ks @ [pem]
      else if length ks < LRU_MAX then ks @ [pem] else tl (ks @ [pem]))"

lemma get_key_spec:
  assumes "cache_ok load c"
  shows "snd (get_key load c pem) = load pem"
    and "cache_ok load (fst (get_key load c pem))"
    and "map fst (fst (get_key load c pem)) =
           (case load pem of Inl e \<Rightarrow> map fst c | Inr k \<Rightarrow> touch (map fst c) pem)"
proof -
  have d: "distinct (map fst c)" and l: "length c \<le> LRU_MAX" using assms by (simp_all add: cache_ok_def)
  have "snd (get_key load c pem) = load pem \<and> cache_ok load (fst (get_key load c pem)) \<and>
     map fst (fst (get_key load c pem)) =
       (case load pem of Inl e \<Rightarrow> map fst c | Inr k \<Rightarrow> touch (map fst c) pem)"
  proof (cases "map_of c pem")
    case (Some k)
    then have "pem \<in> set (map fst c)" by (force dest: map_of_SomeD)
    with Some lruGet_ok [OF assms, of pem] lruGet_keys [of c pem] show ?thesis
      by (auto simp: get_key_def touch_def split_beta split: option.split)
  next
    case None
    then have new: "pem \<notin> fst ` set c" by (simp add: map_of_eq_None_iff)
    show ?thesis
    proof (cases "load pem")
      case (Inl e)
      with None assms show ?thesis by (simp add: get_key_def lruGet_def)
    next
      case (Inr k)
      have c': "fst (get_key load c pem) = (if length c < LRU_MAX then c @ [(pem, k)] else tl (c @ [(pem, k)]))"
        using None Inr by (simp add: get_key_def lruGet_def lruSet_new [OF new d])
      have "distinct (map fst (tl (c @ [(pem, k)])))"
        using new d distinct_tl [of "map fst (c @ [(pem, k)])"] by (simp add: map_tl image_iff)
      then have "cache_ok load (fst (get_key load c pem))"
        unfolding c' using new d l
        by (intro cache_okI [OF assms _ Inr]) (auto dest: list.set_sel(2) [rotated])
      with c' None Inr new show ?thesis
        by (auto simp: get_key_def lruGet_def touch_def map_tl)
    qed
  qed
  then show "snd (get_key load c pem) = load pem" and "cache_ok load (fst (get_key load c pem))"
    and "map fst (fst (get_key load c pem)) =
           (case load pem of Inl e \<Rightarrow> map fst c | Inr k \<Rightarrow> touch (map fst c) pem)" by blast+
qed

lemma cache_ok_new: "cache_ok load []"
  by (simp add: cache_ok_def)

interpretation pub: key_cache "load_pub node" "getPub node" "cache_ok (load_pub node)" for node
  by unfold_locales (simp_all add: getPub_def cache_ok_new get_key_spec)

interpretation priv: key_cache "load_priv node" "getPriv node" "cache_ok (load_priv node)" for node
  by unfold_locales (simp_all add: getPriv_def cache_ok_new get_key_spec)

subsection \<open>The replies do not depend on the caches\<close>

text \<open>One request served by a worker without memory.\<close>

definition serve :: "('pub, 'priv) node_crypto \<Rightarrow> bytes \<Rightarrow> task_msg \<Rightarrow> js_error + bytes" where
  "serve node rnd msg =
     (if m_op msg = ''encrypt'' then
        bindE (load_pub node (m_keyPem msg)) (\<lambda>k. rsaEncrypt (node_rsa node) k rnd (m_data msg))
      else if m_op msg = ''decrypt'' then
        bindE (load_priv node (m_keyPem msg)) (\<lambda>k. rsaDecrypt (node_rsa node) k (m_data msg))
      else if m_op msg = ''sign'' then
        bindE (load_priv node (m_keyPem msg)) (\<lambda>k. rsaSign (node_rsa node) k (m_data msg))
      else if m_op msg = ''verify'' then
        bindE (load_pub node (m_keyPem msg)) (\<lambda>k. Inr (verify_byte node k (m_data msg) (m_extra msg)))
      else Inl (Error (''unknown op: '' @ m_op msg)))"

definition worker_ok :: "('pub, 'priv) node_crypto \<Rightarrow> ('pub, 'priv) worker \<Rightarrow> bool" where
  "worker_ok node w \<longleftrightarrow> cache_ok (load_pub node) (pubCache w) \<and> cache_ok (load_priv node) (privCache w)"

lemma run_op_serves:
  assumes "worker_ok node w"
  shows "snd (run_op node rnd msg w) = serve node rnd msg" and "worker_ok node (fst (run_op node rnd msg w))"
proof -
  from assms have pub: "cache_ok (load_pub node) (pubCache w)" and priv: "cache_ok (load_priv node) (privCache w)"
    by (simp_all add: worker_ok_def)
  show "snd (run_op node rnd msg w) = serve node rnd msg"
    by (simp add: run_op_def serve_def split_beta pub.client [OF pub] priv.client [OF priv])
  show "worker_ok node (fst (run_op node rnd msg w))"
    by (simp add: run_op_def split_beta worker_ok_def pub priv pub.ok_get priv.ok_get)
qed

lemma worker_message_serves:
  "worker_ok node w \<Longrightarrow> snd (worker_message node w x) = [reply_of (m_id (snd x)) (serve node (fst x) (snd x))]"
  "worker_ok node w \<Longrightarrow> worker_ok node (fst (worker_message node w x))"
  by (simp_all add: worker_message_def split_beta run_op_serves)

lemma worker_ok_new: "worker_ok node new_worker"
  by (simp add: worker_ok_def new_worker_def cache_ok_new)

interpretation worker: machine new_worker "worker_message node" "worker_ok node" "\<lambda>r. True" for node
  by unfold_locales (simp_all add: worker_ok_new worker_message_serves list_all_iff)

text \<open>C17. The key caches are transparent: whatever messages a worker has received, with whatever keys
  and in whatever order, it answers each of them, once and in order, with the message's own id and
  exactly what a worker without caches answers; a failed operation is answered with its error
  message and leaves the later answers as they are.
\<close>

theorem worker_replies:
  "snd (run (worker_message node) new_worker xs) =
     map (\<lambda>(rnd, msg). reply_of (m_id msg) (serve node rnd msg)) xs"
proof -
  have "worker_ok node w \<Longrightarrow> snd (run (worker_message node) w xs) =
          map (\<lambda>(rnd, msg). reply_of (m_id msg) (serve node rnd msg)) xs" for w
    by (induction xs arbitrary: w) (simp_all add: run_Cons worker_message_serves split_beta)
  then show ?thesis by (simp add: worker_ok_new)
qed

text \<open>The memory of a worker is bounded: however many different keys it is asked for, each cache
  holds at most 64 of them, no key twice.
\<close>

theorem worker_cache_bound:
  "length (pubCache (fst (run (worker_message node) new_worker xs))) \<le> 64 \<and>
   length (privCache (fst (run (worker_message node) new_worker xs))) \<le> 64 \<and>
   distinct (map fst (pubCache (fst (run (worker_message node) new_worker xs)))) \<and>
   distinct (map fst (privCache (fst (run (worker_message node) new_worker xs))))"
  using worker.inv_run [of node xs] by (simp add: worker_ok_def cache_ok_def LRU_MAX_def)

subsection \<open>The caches keep the most recently used keys\<close>

text \<open>The abstract cache: the keys by the time of their last use, and of these the last 64.\<close>

definition recent :: "string list \<Rightarrow> string \<Rightarrow> string list" where
  "recent ks pem = filter (\<lambda>x. x \<noteq> pem) ks @ [pem]"

definition last_n :: "nat \<Rightarrow> 'a list \<Rightarrow> 'a list" where
  "last_n n xs = drop (length xs - n) xs"

lemma filter_other: "p \<notin> set xs \<Longrightarrow> filter (\<lambda>x. x \<noteq> p) xs = xs"
  by (auto simp: filter_id_conv)

lemma filter_len: "distinct xs \<Longrightarrow> p \<in> set xs \<Longrightarrow> Suc (length (filter (\<lambda>x. x \<noteq> p) xs)) = length xs"
  by (induction xs) (auto simp: filter_other)

lemma distinct_recent: "distinct ks \<Longrightarrow> distinct (recent ks pem)"
  by (simp add: recent_def)

text \<open>One access: \<open>touch\<close> on the last 64 keys is \<open>recent\<close> on all of them.\<close>

lemma touch_last:
  assumes "distinct ks"
  shows "touch (last_n LRU_MAX ks) pem = last_n LRU_MAX (recent ks pem)"
proof -
  define pre c where "pre = take (length ks - LRU_MAX) ks" and "c = last_n LRU_MAX ks"
  then have ks: "ks = pre @ c" and d: "distinct (pre @ c)" using assms by (simp_all add: last_n_def)
  have full: "pre = [] \<or> length c = LRU_MAX" and small: "length c \<le> LRU_MAX"
    by (auto simp: pre_def c_def last_n_def)
  have all: "last_n n (xs @ ys) = ys" if "length ys = n" for n and xs ys :: "string list"
    using that by (simp add: last_n_def)
  consider (hit) "pem \<in> set c" | (gone) "pem \<in> set pre" | (new) "pem \<notin> set ks" using ks by auto
  then show ?thesis
  proof cases
    case hit
    with d have "pem \<notin> set pre" by auto
    then have "recent ks pem = pre @ filter (\<lambda>x. x \<noteq> pem) c @ [pem]"
      by (simp add: recent_def ks filter_other)
    moreover have "length (filter (\<lambda>x. x \<noteq> pem) c @ [pem]) = length c" using hit d filter_len [of c pem] by simp
    ultimately have "last_n LRU_MAX (recent ks pem) = filter (\<lambda>x. x \<noteq> pem) c @ [pem]"
      using full small by (auto simp: all last_n_def)
    with hit show ?thesis by (simp add: touch_def c_def [symmetric])
  next
    case gone
    with d full have c: "length c = LRU_MAX" "pem \<notin> set c" "c \<noteq> []" by (auto simp: LRU_MAX_def)
    then have "recent ks pem = (filter (\<lambda>x. x \<noteq> pem) pre @ [hd c]) @ (tl c @ [pem])"
      by (cases c) (auto simp: recent_def ks filter_other)
    moreover have "length (tl c @ [pem]) = LRU_MAX" using c by (cases c) simp_all
    ultimately have "last_n LRU_MAX (recent ks pem) = tl c @ [pem]" by (simp only: all)
    with c show ?thesis by (simp add: touch_def c_def [symmetric])
  next
    case new
    then have r: "recent ks pem = pre @ c @ [pem]" by (auto simp: recent_def ks filter_other)
    show ?thesis
    proof (cases "length c < LRU_MAX")
      case True
      with full have "pre = []" by auto
      with r True new show ?thesis by (simp add: ks touch_def c_def [symmetric] last_n_def)
    next
      case False
      with small have c: "length c = LRU_MAX" "c \<noteq> []" by (auto simp: LRU_MAX_def)
      then have "recent ks pem = (pre @ [hd c]) @ (tl c @ [pem])" by (cases c) (simp_all add: r)
      moreover have "length (tl c @ [pem]) = LRU_MAX" using c by (cases c) simp_all
      ultimately have "last_n LRU_MAX (recent ks pem) = tl c @ [pem]" by (simp only: all)
      moreover have "pem \<notin> set c" using new ks by simp
      ultimately show ?thesis using c by (simp add: touch_def c_def [symmetric])
    qed
  qed
qed

text \<open>A message uses one key of one cache, if its key parses.\<close>

definition uses :: "string set \<Rightarrow> (string \<Rightarrow> js_error + 'k) \<Rightarrow> string list \<Rightarrow> bytes \<times> task_msg \<Rightarrow> string list" where
  "uses ops load ks x =
     (if m_op (snd x) \<in> ops \<and> isl (load (m_keyPem (snd x))) = False
      then recent ks (m_keyPem (snd x)) else ks)"

lemma get_key_recent:
  assumes "cache_ok load c" and "map fst c = last_n LRU_MAX ks" and "distinct ks"
  shows "map fst (fst (get_key load c pem)) =
           last_n LRU_MAX (if isl (load pem) = False then recent ks pem else ks)"
  using assms get_key_spec(3) [OF assms(1)] touch_last [OF assms(3), of pem]
  by (cases "load pem") simp_all

lemma distinct_uses: "distinct ks \<Longrightarrow> distinct (uses ops load ks x)"
  by (simp add: uses_def distinct_recent)

lemma worker_message_recent:
  assumes "worker_ok node w" and "distinct ps" and "distinct qs"
    and "map fst (pubCache w) = last_n LRU_MAX ps" and "map fst (privCache w) = last_n LRU_MAX qs"
  shows "map fst (pubCache (fst (worker_message node w x))) =
           last_n LRU_MAX (uses {''encrypt'', ''verify''} (load_pub node) ps x)"
    and "map fst (privCache (fst (worker_message node w x))) =
           last_n LRU_MAX (uses {''decrypt'', ''sign''} (load_priv node) qs x)"
  using assms
  by (simp_all add: worker_message_def run_op_def split_beta uses_def getPub_def getPriv_def
        worker_ok_def get_key_recent)

text \<open>C18. The caches are least-recently-used caches: after any messages, the public keys that a
  worker holds are the last 64 of the keys it has parsed successfully, in the order of their last
  use by \<open>encrypt\<close> or \<open>verify\<close>; the same holds of the private keys, of \<open>decrypt\<close> and \<open>sign\<close>.
\<close>

theorem worker_cache_lru:
  "map fst (pubCache (fst (run (worker_message node) new_worker xs))) =
     last_n 64 (foldl (uses {''encrypt'', ''verify''} (load_pub node)) [] xs) \<and>
   map fst (privCache (fst (run (worker_message node) new_worker xs))) =
     last_n 64 (foldl (uses {''decrypt'', ''sign''} (load_priv node)) [] xs)"
proof -
  have "map fst (pubCache (fst (run (worker_message node) w xs))) =
          last_n LRU_MAX (foldl (uses {''encrypt'', ''verify''} (load_pub node)) ps xs) \<and>
        map fst (privCache (fst (run (worker_message node) w xs))) =
          last_n LRU_MAX (foldl (uses {''decrypt'', ''sign''} (load_priv node)) qs xs)"
    if "worker_ok node w" and "distinct ps" and "distinct qs"
      and "map fst (pubCache w) = last_n LRU_MAX ps" and "map fst (privCache w) = last_n LRU_MAX qs"
    for w ps qs
    using that
  proof (induction xs arbitrary: w ps qs)
    case (Cons x xs)
    show ?case
      unfolding run_Cons fst_conv foldl_Cons
      by (rule Cons.IH) (use Cons.prems in \<open>simp_all add: worker_message_serves distinct_uses worker_message_recent\<close>)
  qed simp
  from this [OF worker_ok_new, of "[]" "[]"] show ?thesis
    by (simp add: new_worker_def last_n_def LRU_MAX_def)
qed

end
