(* ===== verification/Crypto_Pool.thy ===== *)
theory Crypto_Pool
  imports Crypto_Worker
begin

section \<open>The worker pool (class \<open>CryptoPool\<close> of \<open>lib/crypto-pool.js\<close>)\<close>

text \<open>
  The pool runs on the main thread. Its methods are functions from the object to its next state
  and the effects in their order: messages posted to workers, promises settled, workers
  terminated. A worker is its index in the order of creation. A promise that \<open>_dispatch\<close> returns
  is the number of the call that made it, counted from 0; the map \<open>_pending\<close> takes a task's id to
  the callbacks of its promise, so here to that number.
\<close>

record pool =
  p_workers :: "nat list"
  p_idle :: "nat list"
  p_queue :: "task_msg list"
  p_nextId :: nat
  p_pending :: "(nat \<times> nat) list"
  p_closed :: bool
  p_calls :: nat

datatype pool_effect =
    PostMessage nat task_msg
  | Fulfil nat bytes
  | Refuse nat js_error
  | PoolError js_error
  | Uncaught js_error
  | Terminate nat

subsection \<open>Construction\<close>

definition spawn :: "nat \<Rightarrow> pool \<Rightarrow> pool" where
  "spawn w p = p\<lparr>p_workers := p_workers p @ [w], p_idle := p_idle p @ [w]\<rparr>"

definition new_pool :: "nat option \<Rightarrow> nat \<Rightarrow> pool" where
  "new_pool opt_size availableParallelism =
     (let size = (case opt_size of None \<Rightarrow> availableParallelism | Some n \<Rightarrow> n) in
      fold spawn [0..<size]
        \<lparr>p_workers = [], p_idle = [], p_queue = [], p_nextId = 1, p_pending = [], p_closed = False,
         p_calls = 0\<rparr>)"

subsection \<open>Dispatch and replies\<close>

definition pool_dispatch :: "task_msg \<Rightarrow> pool \<Rightarrow> pool \<times> pool_effect list" where
  "pool_dispatch msg p =
     (let n = p_calls p; p0 = p\<lparr>p_calls := n + 1\<rparr> in
      if p_closed p then (p0, [Refuse n (Error ''CryptoPool is closed'')])
      else
        let i = p_nextId p;
            message = msg\<lparr>m_id := i\<rparr>;
            p1 = p0\<lparr>p_nextId := i + 1, p_pending := AList.update i n (p_pending p)\<rparr>
        in if p_idle p1 = [] then (p1\<lparr>p_queue := p_queue p1 @ [message]\<rparr>, [])
           else (p1\<lparr>p_idle := butlast (p_idle p1)\<rparr>, [PostMessage (last (p_idle p1)) message]))"

definition release :: "nat \<Rightarrow> pool \<Rightarrow> pool \<times> pool_effect list" where
  "release w p =
     (case p_queue p of
        next # rest \<Rightarrow> (p\<lparr>p_queue := rest\<rparr>, [PostMessage w next])
      | [] \<Rightarrow> (p\<lparr>p_idle := p_idle p @ [w]\<rparr>, []))"

fun reply_id :: "reply \<Rightarrow> nat" where
  "reply_id (Result i b) = i"
| "reply_id (Failure i e) = i"

text \<open>
  A reply with an \<open>error\<close> of \<open>''\<close>, which is falsy, is taken for a result: reading \<open>buffer\<close> of
  \<open>undefined\<close> throws out of the event handler, before \<open>_release\<close>.
\<close>

fun pool_message :: "nat \<Rightarrow> reply \<Rightarrow> pool \<Rightarrow> pool \<times> pool_effect list" where
  "pool_message w r p =
     (case map_of (p_pending p) (reply_id r) of
        None \<Rightarrow> (p, [])
      | Some n \<Rightarrow>
          let p1 = p\<lparr>p_pending := AList.delete (reply_id r) (p_pending p)\<rparr> in
          (case r of
             Result i b \<Rightarrow> apsnd (\<lambda>fx. Fulfil n b # fx) (release w p1)
           | Failure i e \<Rightarrow>
               if e \<noteq> '''' then apsnd (\<lambda>fx. Refuse n (Error e) # fx) (release w p1)
               else (p1, [Uncaught (NodeError ''TypeError'')])))"

declare pool_message.simps [simp del]

subsection \<open>The operations\<close>

definition pool_encrypt :: "string \<Rightarrow> bytes \<Rightarrow> pool \<Rightarrow> pool \<times> pool_effect list" where
  "pool_encrypt publicKeyPem plaintext =
     pool_dispatch \<lparr>m_id = 0, m_op = ''encrypt'', m_keyPem = publicKeyPem, m_data = plaintext, m_extra = None\<rparr>"

definition pool_decrypt :: "string \<Rightarrow> bytes \<Rightarrow> pool \<Rightarrow> pool \<times> pool_effect list" where
  "pool_decrypt privateKeyPem ciphertext =
     pool_dispatch \<lparr>m_id = 0, m_op = ''decrypt'', m_keyPem = privateKeyPem, m_data = ciphertext, m_extra = None\<rparr>"

definition pool_sign :: "string \<Rightarrow> bytes \<Rightarrow> pool \<Rightarrow> pool \<times> pool_effect list" where
  "pool_sign privateKeyPem hash =
     pool_dispatch \<lparr>m_id = 0, m_op = ''sign'', m_keyPem = privateKeyPem, m_data = hash, m_extra = None\<rparr>"

definition pool_verify :: "string \<Rightarrow> bytes \<Rightarrow> bytes \<Rightarrow> pool \<Rightarrow> pool \<times> pool_effect list" where
  "pool_verify publicKeyPem hash signature =
     pool_dispatch \<lparr>m_id = 0, m_op = ''verify'', m_keyPem = publicKeyPem, m_data = hash, m_extra = Some signature\<rparr>"

text \<open>What \<open>verify\<close> makes of the settled task.\<close>

definition verify_result :: "bytes \<Rightarrow> bool" where
  "verify_result result \<longleftrightarrow> length result = 1 \<and> result ! 0 = 1"

record pool_stats =
  s_workers :: nat
  s_idle :: nat
  s_queued :: nat
  s_inflight :: nat

definition stats :: "pool \<Rightarrow> pool_stats" where
  "stats p = \<lparr>s_workers = length (p_workers p), s_idle = length (p_idle p), s_queued = length (p_queue p),
              s_inflight = length (p_pending p)\<rparr>"

subsection \<open>Closing\<close>

text \<open>\<open>close\<close> up to its \<open>await\<close>, and after it.\<close>

definition pool_close :: "pool \<Rightarrow> pool \<times> pool_effect list" where
  "pool_close p =
     (if p_closed p then (p, [])
      else (p\<lparr>p_closed := True, p_workers := [], p_idle := [], p_queue := []\<rparr>, map Terminate (p_workers p)))"

definition pool_closed :: "pool \<Rightarrow> pool \<times> pool_effect list" where
  "pool_closed p =
     (p\<lparr>p_pending := []\<rparr>, map (\<lambda>(i, n). Refuse n (Error ''CryptoPool closed'')) (p_pending p))"

subsection \<open>The pool with its workers\<close>

text \<open>
  The threads run side by side. A message posted to a worker waits in its inbox; a worker that
  runs takes the first one and puts its reply in its outbox, from which the main thread takes it
  later. A worker can also die of an error of its own: what it had is lost, as is what is posted
  to it from then on. \<open>terminating\<close> says that \<open>close\<close> awaits the termination of the workers.
\<close>

record ('pub, 'priv) pool_system =
  the_pool :: pool
  inbox :: "nat \<Rightarrow> task_msg list"
  memory :: "nat \<Rightarrow> ('pub, 'priv) worker"
  outbox :: "nat \<Rightarrow> reply list"
  alive :: "nat \<Rightarrow> bool"
  terminating :: bool

datatype call = Encrypt string bytes | Decrypt string bytes | Sign string bytes | Verify string bytes bytes

datatype label =
    Call call
  | Serve nat bytes
  | Deliver nat
  | Die nat js_error
  | Close
  | CloseDone

fun call_pool :: "call \<Rightarrow> pool \<Rightarrow> pool \<times> pool_effect list" where
  "call_pool (Encrypt pem b) = pool_encrypt pem b"
| "call_pool (Decrypt pem b) = pool_decrypt pem b"
| "call_pool (Sign pem b) = pool_sign pem b"
| "call_pool (Verify pem h sig) = pool_verify pem h sig"

fun deliver_posts :: "pool_effect list \<Rightarrow> ('pub, 'priv) pool_system \<Rightarrow> ('pub, 'priv) pool_system" where
  "deliver_posts [] s = s"
| "deliver_posts (PostMessage w m # fx) s =
     deliver_posts fx (if alive s w then s\<lparr>inbox := (inbox s)(w := inbox s w @ [m])\<rparr> else s)"
| "deliver_posts (e # fx) s = deliver_posts fx s"

definition new_system :: "nat \<Rightarrow> ('pub, 'priv) pool_system" where
  "new_system k =
     \<lparr>the_pool = new_pool (Some k) k, inbox = (\<lambda>_. []), memory = (\<lambda>_. new_worker),
      outbox = (\<lambda>_. []), alive = (\<lambda>w. w < k), terminating = False\<rparr>"

inductive pool_step ::
    "('pub, 'priv) node_crypto \<Rightarrow> ('pub, 'priv) pool_system \<Rightarrow> label \<Rightarrow> pool_effect list \<Rightarrow>
     ('pub, 'priv) pool_system \<Rightarrow> bool"
  for node :: "('pub, 'priv) node_crypto" where
  call: "call_pool c (the_pool s) = (p, fx) \<Longrightarrow>
     pool_step node s (Call c) fx (deliver_posts fx (s\<lparr>the_pool := p\<rparr>))"
| serve: "alive s w \<Longrightarrow> inbox s w = m # ms \<Longrightarrow> worker_message node (memory s w) (rnd, m) = (mem, rs) \<Longrightarrow>
     pool_step node s (Serve w rnd) []
       (s\<lparr>inbox := (inbox s)(w := ms), memory := (memory s)(w := mem), outbox := (outbox s)(w := outbox s w @ rs)\<rparr>)"
| deliver: "outbox s w = r # rs \<Longrightarrow> pool_message w r (the_pool s) = (p, fx) \<Longrightarrow>
     pool_step node s (Deliver w) fx (deliver_posts fx (s\<lparr>the_pool := p, outbox := (outbox s)(w := rs)\<rparr>))"
| die: "alive s w \<Longrightarrow>
     pool_step node s (Die w e) [PoolError e] (s\<lparr>alive := (alive s)(w := False), inbox := (inbox s)(w := [])\<rparr>)"
| close: "pool_close (the_pool s) = (p, fx) \<Longrightarrow>
     pool_step node s Close fx (s\<lparr>the_pool := p, terminating := terminating s \<or> \<not> p_closed (the_pool s)\<rparr>)"
| close_done: "terminating s \<Longrightarrow> pool_closed (the_pool s) = (p, fx) \<Longrightarrow>
     pool_step node s CloseDone fx
       (s\<lparr>the_pool := p, alive := (\<lambda>_. False), inbox := (\<lambda>_. []), terminating := False\<rparr>)"

inductive pool_run ::
    "('pub, 'priv) node_crypto \<Rightarrow> ('pub, 'priv) pool_system \<Rightarrow> label list \<Rightarrow> pool_effect list \<Rightarrow>
     ('pub, 'priv) pool_system \<Rightarrow> bool"
  for node :: "('pub, 'priv) node_crypto" and s0 :: "('pub, 'priv) pool_system" where
  start: "pool_run node s0 [] [] s0"
| step: "pool_run node s0 ls fx s \<Longrightarrow> pool_step node s l gx s' \<Longrightarrow> pool_run node s0 (ls @ [l]) (fx @ gx) s'"

inductive_cases pool_stepE:
  "pool_step node s (Call c) fx s'"
  "pool_step node s (Serve w rnd) fx s'"
  "pool_step node s (Deliver w) fx s'"
  "pool_step node s (Die w e) fx s'"
  "pool_step node s Close fx s'"
  "pool_step node s CloseDone fx s'"

inductive_simps pool_step_simps:
  "pool_step node s (Call c) fx s'"
  "pool_step node s (Serve w rnd) fx s'"
  "pool_step node s (Deliver w) fx s'"
  "pool_step node s (Die w e) fx s'"
  "pool_step node s Close fx s'"
  "pool_step node s CloseDone fx s'"

inductive_simps pool_run_Nil: "pool_run node s0 [] fx s"

end
