(* ===== verification/Pool_Accounts.thy ===== *)
theory Pool_Accounts
  imports Crypto_Pool
begin

section \<open>Every call of the pool is settled at most once\<close>

text \<open>
  An invariant of the runs of \<open>Crypto_Pool\<close>: the books (\<open>books_ok\<close>), by which a call is either
  settled or still in \<open>_pending\<close>. Every operation honours them (\<open>honours\<close>), and the balance adds
  up over runs (\<open>accounted\<close>). The labels can be executed (\<open>pool_exec\<close>), which is how the
  concrete runs of the witnesses are evaluated.
\<close>

subsection \<open>What happened in a run\<close>

fun settles :: "nat \<Rightarrow> pool_effect \<Rightarrow> bool" where
  "settles n (Fulfil m b) \<longleftrightarrow> m = n"
| "settles n (Refuse m e) \<longleftrightarrow> m = n"
| "settles n _ \<longleftrightarrow> False"

definition settled :: "nat \<Rightarrow> pool_effect list \<Rightarrow> nat" where
  "settled n fx = length (filter (settles n) fx)"

fun is_uncaught :: "pool_effect \<Rightarrow> bool" where
  "is_uncaught (Uncaught e) \<longleftrightarrow> True"
| "is_uncaught _ \<longleftrightarrow> False"

definition calm :: "pool_effect list \<Rightarrow> bool" where
  "calm fx \<longleftrightarrow> list_all (\<lambda>e. \<not> is_uncaught e) fx"

fun asked :: "label list \<Rightarrow> call list" where
  "asked [] = []"
| "asked (Call c # ls) = c # asked ls"
| "asked (l # ls) = asked ls"

lemma settled_simps [simp]:
  "settled n [] = 0" "settled n (e # fx) = of_bool (settles n e) + settled n fx"
  "settled n (fx @ gx) = settled n fx + settled n gx"
  by (simp_all add: settled_def)

lemma calm_simps [simp]:
  "calm []" "calm (e # fx) \<longleftrightarrow> \<not> is_uncaught e \<and> calm fx" "calm (fx @ gx) \<longleftrightarrow> calm fx \<and> calm gx"
  by (simp_all add: calm_def)

lemma asked_append [simp]: "asked (ls @ ms) = asked ls @ asked ms"
  by (induction ls rule: asked.induct) simp_all

subsection \<open>The books of the pool\<close>

definition owed :: "nat \<Rightarrow> pool \<Rightarrow> nat" where
  "owed n p = of_bool (n \<in> snd ` set (p_pending p))"

definition books_ok :: "pool \<Rightarrow> bool" where
  "books_ok p \<longleftrightarrow>
     distinct (map fst (p_pending p)) \<and> distinct (map snd (p_pending p)) \<and>
     (\<forall>(i, n)\<in>set (p_pending p). i < p_nextId p \<and> n < p_calls p)"

text \<open>What an operation may do to the books.\<close>

definition honours :: "pool \<Rightarrow> pool \<times> pool_effect list \<Rightarrow> bool" where
  "honours p r \<longleftrightarrow>
     books_ok (fst r) \<and> p_calls p \<le> p_calls (fst r) \<and>
     (\<forall>n. settled n (snd r) + owed n (fst r) \<le> owed n p + of_bool (p_calls p \<le> n \<and> n < p_calls (fst r))) \<and>
     (calm (snd r) \<longrightarrow>
       (\<forall>n. settled n (snd r) + owed n (fst r) = owed n p + of_bool (p_calls p \<le> n \<and> n < p_calls (fst r))))"

lemma release_pool:
  "p_pending (fst (release w p)) = p_pending p" "p_calls (fst (release w p)) = p_calls p"
  "p_nextId (fst (release w p)) = p_nextId p" "p_closed (fst (release w p)) = p_closed p"
  "settled n (snd (release w p)) = 0" "calm (snd (release w p))"
  by (simp_all add: release_def split: list.split)

lemma books_new: "i \<notin> fst ` set xs \<Longrightarrow> AList.update i n xs = xs @ [(i, n)]"
  by (rule update_new)

lemma owed_delete:
  assumes "books_ok p" and "map_of (p_pending p) i = Some n"
  shows "owed m (p\<lparr>p_pending := AList.delete i (p_pending p)\<rparr>) + of_bool (n = m) = owed m p"
    and "books_ok (p\<lparr>p_pending := AList.delete i (p_pending p)\<rparr>)"
proof -
  from assms(2) have mem: "(i, n) \<in> set (p_pending p)" by (rule map_of_SomeD)
  have d: "distinct (map snd (p_pending p))" and d1: "distinct (map fst (p_pending p))"
    using assms(1) by (simp_all add: books_ok_def)
  have "j = i \<longleftrightarrow> k = n" if "(j, k) \<in> set (p_pending p)" for j k
    using that mem inj_onD [OF d [unfolded distinct_map, THEN conjunct2], of "(j, k)" "(i, n)"]
      inj_onD [OF d1 [unfolded distinct_map, THEN conjunct2], of "(j, k)" "(i, n)"] by auto
  then have "snd ` set (AList.delete i (p_pending p)) = snd ` set (p_pending p) - {n}"
    by (fastforce simp: AList.delete_eq image_iff)
  moreover have "n \<in> snd ` set (p_pending p)" using mem by force
  ultimately show "owed m (p\<lparr>p_pending := AList.delete i (p_pending p)\<rparr>) + of_bool (n = m) = owed m p"
    by (auto simp: owed_def)
  show "books_ok (p\<lparr>p_pending := AList.delete i (p_pending p)\<rparr>)"
    using assms(1) by (auto simp: books_ok_def AList.delete_eq distinct_map intro: inj_on_subset)
qed

lemma release_books [simp]:
  "owed n (fst (release w p)) = owed n p" "books_ok (fst (release w p)) = books_ok p"
  by (simp_all add: owed_def books_ok_def release_pool)

lemma owed_cong: "p_pending p = p_pending q \<Longrightarrow> owed n p = owed n q"
  by (simp add: owed_def)

lemma dispatch_fields:
  "p_calls (fst (pool_dispatch msg p)) = Suc (p_calls p)"
  "p_pending (fst (pool_dispatch msg p)) =
     (if p_closed p then p_pending p else AList.update (p_nextId p) (p_calls p) (p_pending p))"
  "p_nextId (fst (pool_dispatch msg p)) = (if p_closed p then p_nextId p else Suc (p_nextId p))"
  "p_closed (fst (pool_dispatch msg p)) = p_closed p"
  "settled n (snd (pool_dispatch msg p)) = of_bool (p_closed p \<and> n = p_calls p)"
  "calm (snd (pool_dispatch msg p))"
  by (auto simp: pool_dispatch_def Let_def)

lemma dispatch_honours:
  assumes "books_ok p"
  shows "honours p (pool_dispatch msg p)"
proof -
  from assms have new: "p_nextId p \<notin> fst ` set (p_pending p)" "p_calls p \<notin> snd ` set (p_pending p)"
    by (auto simp: books_ok_def)
  have b: "books_ok (fst (pool_dispatch msg p))"
  proof (cases "p_closed p")
    case True
    with assms show ?thesis by (auto simp: books_ok_def dispatch_fields less_Suc_eq)
  next
    case False
    with assms new show ?thesis
      by (auto simp: books_ok_def dispatch_fields books_new [OF new(1)] less_Suc_eq image_iff)
  qed
  have "settled n (snd (pool_dispatch msg p)) + owed n (fst (pool_dispatch msg p)) =
      owed n p + of_bool (p_calls p \<le> n \<and> n < p_calls (fst (pool_dispatch msg p)))" for n
  proof -
    have "p_calls p \<le> n \<and> n < Suc (p_calls p) \<longleftrightarrow> n = p_calls p" by auto
    with new(2) show ?thesis
      by (cases "p_closed p") (auto simp: owed_def dispatch_fields books_new [OF new(1)])
  qed
  with b show ?thesis by (simp add: honours_def dispatch_fields)
qed

lemma pool_message_Some:
  "map_of (p_pending p) (reply_id r) = Some n \<Longrightarrow>
   pool_message w r p =
     (case r of
        Result i x \<Rightarrow> apsnd ((#) (Fulfil n x)) (release w (p\<lparr>p_pending := AList.delete (reply_id r) (p_pending p)\<rparr>))
      | Failure i e \<Rightarrow>
          if e \<noteq> []
          then apsnd ((#) (Refuse n (Error e))) (release w (p\<lparr>p_pending := AList.delete (reply_id r) (p_pending p)\<rparr>))
          else (p\<lparr>p_pending := AList.delete (reply_id r) (p_pending p)\<rparr>, [Uncaught (NodeError ''TypeError'')]))"
  by (simp add: pool_message.simps Let_def)

lemma message_honours:
  assumes "books_ok p"
  shows "honours p (pool_message w r p)"
proof (cases "map_of (p_pending p) (reply_id r)")
  case None
  with assms show ?thesis by (simp add: honours_def pool_message.simps)
next
  case (Some n)
  define p1 where "p1 = p\<lparr>p_pending := AList.delete (reply_id r) (p_pending p)\<rparr>"
  have b: "books_ok p1" and o: "owed m p = owed m p1 + of_bool (n = m)" for m
    using owed_delete [OF assms Some] by (simp_all add: p1_def)
  note eq = pool_message_Some [OF Some, folded p1_def]
  have "p_calls p1 = p_calls p" by (simp add: p1_def)
  with b show ?thesis
    unfolding eq by (cases r) (simp_all add: honours_def o release_pool)
qed

lemma close_honours: "books_ok p \<Longrightarrow> honours p (pool_close p)"
proof -
  have "settled n (map Terminate ws) = 0 \<and> calm (map Terminate ws)" for n ws by (induction ws) simp_all
  then show "books_ok p \<Longrightarrow> ?thesis"
    by (simp add: honours_def pool_close_def books_ok_def owed_def)
qed

lemma settled_refusals:
  "distinct (map snd xs) \<Longrightarrow> settled n (map (\<lambda>(i, n). Refuse n e) xs) = of_bool (n \<in> snd ` set xs)"
  by (induction xs) (auto simp: image_iff)

lemma closed_honours: "books_ok p \<Longrightarrow> honours p (pool_closed p)"
proof -
  have "calm (map (\<lambda>(i, n). Refuse n e) xs)" for e and xs :: "(nat \<times> nat) list" by (induction xs) auto
  then show "books_ok p \<Longrightarrow> ?thesis"
    by (simp add: honours_def pool_closed_def books_ok_def owed_def settled_refusals)
qed

lemma call_honours: "books_ok p \<Longrightarrow> honours p (call_pool c p)"
  by (cases c) (simp_all add: pool_encrypt_def pool_decrypt_def pool_sign_def pool_verify_def dispatch_honours)

lemma call_calls: "p_calls (fst (call_pool c p)) = Suc (p_calls p)"
  by (cases c) (simp_all add: pool_encrypt_def pool_decrypt_def pool_sign_def pool_verify_def dispatch_fields)

subsection \<open>The books over runs\<close>

lemma deliver_posts_simps [simp]:
  "the_pool (deliver_posts fx s) = the_pool s" "outbox (deliver_posts fx s) = outbox s"
  "memory (deliver_posts fx s) = memory s" "alive (deliver_posts fx s) = alive s"
  "terminating (deliver_posts fx s) = terminating s"
  by (induction fx s rule: deliver_posts.induct) simp_all

lemma message_calls: "p_calls (fst (pool_message w r p)) = p_calls p"
  by (auto simp: pool_message.simps Let_def release_pool split: option.split reply.split)

lemma close_calls: "p_calls (fst (pool_close p)) = p_calls p" "p_calls (fst (pool_closed p)) = p_calls p"
  by (simp_all add: pool_close_def pool_closed_def)

lemma honours_same: "books_ok p \<Longrightarrow> (\<And>n. settled n fx = 0) \<Longrightarrow> honours p (p, fx)"
  by (simp add: honours_def)

lemma step_honours:
  assumes "pool_step node s l fx s'" and "books_ok (the_pool s)"
  shows "honours (the_pool s) (the_pool s', fx) \<and>
         p_calls (the_pool s') = p_calls (the_pool s) + length (asked [l])"
  using assms(1)
proof cases
  case (call c p)
  then show ?thesis
    using call_honours [OF assms(2), of c] call_calls [of c "the_pool s"] by simp
next
  case (deliver w r rs p)
  then show ?thesis
    using message_honours [OF assms(2), of w r] message_calls [of w r "the_pool s"] by simp
next
  case (close p)
  then show ?thesis
    using close_honours [OF assms(2)] close_calls(1) [of "the_pool s"] by simp
next
  case (close_done p)
  then show ?thesis
    using closed_honours [OF assms(2)] close_calls(2) [of "the_pool s"] by simp
qed (use assms(2) in \<open>simp_all add: honours_same\<close>)

definition accounted :: "call list \<Rightarrow> pool_effect list \<Rightarrow> pool \<Rightarrow> bool" where
  "accounted cs fx p \<longleftrightarrow>
     books_ok p \<and> p_calls p = length cs \<and>
     (\<forall>n. settled n fx + owed n p \<le> of_bool (n < length cs)) \<and>
     (calm fx \<longrightarrow> (\<forall>n. settled n fx + owed n p = of_bool (n < length cs)))"

lemma spawn_fold:
  "fold spawn ws p = p\<lparr>p_workers := p_workers p @ ws, p_idle := p_idle p @ ws\<rparr>"
  by (induction ws arbitrary: p) (simp_all add: spawn_def)

lemma new_system_pool:
  "the_pool (new_system k) =
     \<lparr>p_workers = [0..<k], p_idle = [0..<k], p_queue = [], p_nextId = 1, p_pending = [], p_closed = False,
      p_calls = 0\<rparr>"
  by (simp add: new_system_def new_pool_def Let_def spawn_fold)

lemma accounted_step:
  assumes "accounted cs fx p" and "honours p (p', gx)" and "p_calls p' = p_calls p + length ds"
  shows "accounted (cs @ ds) (fx @ gx) p'"
proof -
  have split: "of_bool (n < length cs) + of_bool (length cs \<le> n \<and> n < length cs + length ds) =
      (of_bool (n < length (cs @ ds)) :: nat)" for n
    by auto
  have le: "settled n (fx @ gx) + owed n p' \<le> of_bool (n < length (cs @ ds))" for n
  proof -
    have "settled n gx + owed n p' \<le> owed n p + of_bool (length cs \<le> n \<and> n < length cs + length ds)"
      using assms by (simp add: honours_def accounted_def)
    moreover have "settled n fx + owed n p \<le> of_bool (n < length cs)" using assms by (simp add: accounted_def)
    ultimately show ?thesis unfolding settled_simps split [symmetric] by linarith
  qed
  moreover have "settled n (fx @ gx) + owed n p' = of_bool (n < length (cs @ ds))" if "calm (fx @ gx)" for n
  proof -
    have "settled n gx + owed n p' = owed n p + of_bool (length cs \<le> n \<and> n < length cs + length ds)"
      using assms that by (simp add: honours_def accounted_def)
    moreover have "settled n fx + owed n p = of_bool (n < length cs)" using assms that by (simp add: accounted_def)
    ultimately show ?thesis unfolding settled_simps split [symmetric] by linarith
  qed
  ultimately show ?thesis using assms by (simp add: accounted_def honours_def)
qed

lemma run_accounted: "pool_run node (new_system k) ls fx s \<Longrightarrow> accounted (asked ls) fx (the_pool s)"
proof (induction rule: pool_run.induct)
  case start
  show ?case by (simp add: accounted_def books_ok_def owed_def new_system_pool)
next
  case (step ls fx s l gx s')
  then have "books_ok (the_pool s)" by (simp add: accounted_def)
  with step step_honours [OF step.hyps(2)] show ?case
    unfolding asked_append by (intro accounted_step) auto
qed

text \<open>Settlement: in every run of the pool and its workers (calls, replies, deaths of workers and
  closing in any order) no call is settled twice, and none that was not made; and as long as no
  exception escapes from the reply handler, the calls not yet settled are exactly those that the
  pool still has in its pending map.
\<close>

theorem pool_settles_once:
  assumes "pool_run node (new_system k) ls fx s"
  shows "settled n fx \<le> of_bool (n < length (asked ls)) \<and>
         (calm fx \<and> n < length (asked ls) \<longrightarrow>
            settled n fx = of_bool (n \<notin> snd ` set (p_pending (the_pool s))))"
proof -
  from run_accounted [OF assms] have le: "settled n fx + owed n (the_pool s) \<le> of_bool (n < length (asked ls))"
    and eq: "calm fx \<Longrightarrow> settled n fx + owed n (the_pool s) = of_bool (n < length (asked ls))"
    by (simp_all add: accounted_def)
  show ?thesis
    using le eq by (cases "n \<in> snd ` set (p_pending (the_pool s))"; cases "n < length (asked ls)") (simp_all add: owed_def)
qed

subsection \<open>Executing labels\<close>

text \<open>The relation is a partial function of the label; this is how concrete runs are evaluated.\<close>

fun pool_exec ::
    "('pub, 'priv) node_crypto \<Rightarrow> ('pub, 'priv) pool_system \<Rightarrow> label \<Rightarrow>
     (pool_effect list \<times> ('pub, 'priv) pool_system) option" where
  "pool_exec node s (Call c) =
     (let (p, fx) = call_pool c (the_pool s) in Some (fx, deliver_posts fx (s\<lparr>the_pool := p\<rparr>)))"
| "pool_exec node s (Serve w rnd) =
     (case inbox s w of
        [] \<Rightarrow> None
      | m # ms \<Rightarrow>
          if alive s w then
            let (mem, rs) = worker_message node (memory s w) (rnd, m) in
            Some ([], s\<lparr>inbox := (inbox s)(w := ms), memory := (memory s)(w := mem),
                       outbox := (outbox s)(w := outbox s w @ rs)\<rparr>)
          else None)"
| "pool_exec node s (Deliver w) =
     (case outbox s w of
        [] \<Rightarrow> None
      | r # rs \<Rightarrow>
          let (p, fx) = pool_message w r (the_pool s) in
          Some (fx, deliver_posts fx (s\<lparr>the_pool := p, outbox := (outbox s)(w := rs)\<rparr>)))"
| "pool_exec node s (Die w e) =
     (if alive s w
      then Some ([PoolError e], s\<lparr>alive := (alive s)(w := False), inbox := (inbox s)(w := [])\<rparr>) else None)"
| "pool_exec node s Close =
     (let (p, fx) = pool_close (the_pool s) in
      Some (fx, s\<lparr>the_pool := p, terminating := terminating s \<or> \<not> p_closed (the_pool s)\<rparr>))"
| "pool_exec node s CloseDone =
     (if terminating s then
        let (p, fx) = pool_closed (the_pool s) in
        Some (fx, s\<lparr>the_pool := p, alive := (\<lambda>_. False), inbox := (\<lambda>_. []), terminating := False\<rparr>)
      else None)"

fun pool_execs ::
    "('pub, 'priv) node_crypto \<Rightarrow> ('pub, 'priv) pool_system \<Rightarrow> label list \<Rightarrow>
     (pool_effect list \<times> ('pub, 'priv) pool_system) option" where
  "pool_execs node s [] = Some ([], s)"
| "pool_execs node s (l # ls) =
     (case pool_exec node s l of
        None \<Rightarrow> None
      | Some (fx, s1) \<Rightarrow>
          (case pool_execs node s1 ls of None \<Rightarrow> None | Some (gx, s2) \<Rightarrow> Some (fx @ gx, s2)))"

lemma pool_step_exec: "pool_step node s l fx s' \<longleftrightarrow> pool_exec node s l = Some (fx, s')"
  by (cases l)
    (auto simp: pool_step_simps Let_def split_beta prod_eq_iff split: list.split)

lemma pool_run_Cons:
  assumes "pool_step node s l fx s1" and "pool_run node s1 ls gx s2"
  shows "pool_run node s (l # ls) (fx @ gx) s2"
  using assms(2,1)
proof (induction rule: pool_run.induct)
  case start
  then show ?case using pool_run.step [OF pool_run.start, of node s l fx s1] by simp
next
  case (step ls gx s' l' hx s'')
  from pool_run.step [OF step.IH [OF step.prems] step.hyps(2)] show ?case by simp
qed

lemma pool_run_execs: "pool_execs node s ls = Some (fx, s') \<Longrightarrow> pool_run node s ls fx s'"
  by (induction ls arbitrary: s fx)
    (auto simp: pool_run.start pool_step_exec [symmetric] split: option.splits prod.splits intro: pool_run_Cons)

text \<open>A pool of one worker for the witnesses, with the RSA of \<open>toy_rsa\<close>.\<close>

definition toy_node :: "(unit, unit) node_crypto" where
  "toy_node = \<lparr>createPublicKey = (\<lambda>_. Inr ()), createPrivateKey = (\<lambda>_ _. Inr ()), node_rsa = toy_rsa\<rparr>"

lemmas pool_eval =
  toy_node_def new_system_def new_pool_def spawn_def pool_encrypt_def pool_decrypt_def pool_sign_def pool_verify_def
  pool_dispatch_def release_def pool_message.simps pool_close_def pool_closed_def worker_message_def
  new_worker_def run_op_def getPub_def getPriv_def get_key_def lruGet_def lruSet_def LRU_MAX_def
  load_pub_def load_priv_def loadPublicKey_def loadPrivateKey_def verify_byte_def reply_of_def
  rsaEncrypt_def rsaDecrypt_def rsaSign_def rsaVerify_def toy_rsa_def Let_def

theorem pool_settles_once_witness:
  "\<exists>s. pool_run toy_node (new_system 1) [Call (Encrypt ''k'' [5]), Serve 0 [], Deliver 0]
         [PostMessage 0 \<lparr>m_id = 1, m_op = ''encrypt'', m_keyPem = ''k'', m_data = [5], m_extra = None\<rparr>,
          Fulfil 0 [0, 5]] s \<and>
       settled 0 [PostMessage 0 \<lparr>m_id = 1, m_op = ''encrypt'', m_keyPem = ''k'', m_data = [5], m_extra = None\<rparr>,
          Fulfil 0 [0, 5]] = 1 \<and> p_pending (the_pool s) = []"
proof -
  have "\<exists>s. pool_execs toy_node (new_system 1) [Call (Encrypt ''k'' [5]), Serve 0 [], Deliver 0] =
         Some ([PostMessage 0 \<lparr>m_id = 1, m_op = ''encrypt'', m_keyPem = ''k'', m_data = [5], m_extra = None\<rparr>,
          Fulfil 0 [0, 5]], s) \<and> p_pending (the_pool s) = []"
    by (simp add: pool_eval)
  then obtain s where "pool_run toy_node (new_system 1) [Call (Encrypt ''k'' [5]), Serve 0 [], Deliver 0]
         [PostMessage 0 \<lparr>m_id = 1, m_op = ''encrypt'', m_keyPem = ''k'', m_data = [5], m_extra = None\<rparr>,
          Fulfil 0 [0, 5]] s" and "p_pending (the_pool s) = []"
    using pool_run_execs by blast
  with pool_settles_once [of toy_node 1, of _ _ s 0] show ?thesis by fastforce
qed

subsection \<open>Closing\<close>

lemma pool_flags:
  "p_closed (fst (pool_message w r p)) = p_closed p"
  "p_closed (fst (call_pool c p)) = p_closed p"
  "p_closed (fst (pool_close p))" "p_closed (fst (pool_closed p)) = p_closed p"
  by (cases c; auto simp: pool_message.simps Let_def release_pool pool_close_def pool_closed_def
      pool_encrypt_def pool_decrypt_def pool_sign_def pool_verify_def dispatch_fields
      split: option.split reply.split)+

lemma closed_pending:
  "p_closed p \<Longrightarrow> p_pending (fst (call_pool c p)) = p_pending p"
  "p_pending p = [] \<Longrightarrow> p_pending (fst (pool_message w r p)) = []"
  by (cases c; simp add: pool_message.simps pool_encrypt_def pool_decrypt_def pool_sign_def pool_verify_def
      dispatch_fields)+

lemma run_closed:
  "pool_run node (new_system k) ls fx s \<Longrightarrow>
   (terminating s \<longrightarrow> p_closed (the_pool s)) \<and>
   (CloseDone \<in> set ls \<longrightarrow> p_closed (the_pool s) \<and> p_pending (the_pool s) = [])"
proof (induction rule: pool_run.induct)
  case start
  show ?case by (simp add: new_system_def)
next
  case (step ls fx s l gx s')
  from step.hyps(2) step.IH show ?case
  proof cases
    case (call c p)
    with step.IH pool_flags(2) [of c "the_pool s"] closed_pending(1) [of "the_pool s" c] show ?thesis by simp
  next
    case (deliver w r rs p)
    with step.IH pool_flags(1) [of w r "the_pool s"] closed_pending(2) [of "the_pool s" w r] show ?thesis by simp
  next
    case (close p)
    with step.IH pool_flags(3) [of "the_pool s"] show ?thesis
      by (auto simp: pool_close_def split: if_splits)
  next
    case (close_done p)
    with step.IH show ?thesis by (auto simp: pool_closed_def)
  qed simp_all
qed

text \<open>C25. Closing leaves nobody waiting: once \<open>close\<close> has finished, every call ever made, before,
  during or after it, has been settled exactly once, also the calls whose worker had died (as long
  as no exception escaped from the reply handler).
\<close>

theorem pool_close_settles_all:
  assumes "pool_run node (new_system k) ls fx s" and "CloseDone \<in> set ls" and "calm fx" and "n < length (asked ls)"
  shows "settled n fx = 1"
  using run_accounted [OF assms(1)] run_closed [OF assms(1)] assms(2-4)
  by (simp add: accounted_def owed_def)

theorem pool_close_settles_all_witness:
  "\<exists>fx s. pool_run toy_node (new_system 1)
            [Call (Sign ''k'' [5]), Call (Decrypt ''k'' []), Die 0 (Error ''oom''), Close, Call (Sign ''k'' []), CloseDone]
            fx s \<and> settled 0 fx = 1 \<and> settled 1 fx = 1 \<and> settled 2 fx = 1"
proof -
  let ?ls = "[Call (Sign ''k'' [5]), Call (Decrypt ''k'' []), Die 0 (Error ''oom''), Close, Call (Sign ''k'' []), CloseDone]"
  have "\<exists>fx s. pool_execs toy_node (new_system 1) ?ls = Some (fx, s) \<and> calm fx"
    by (simp add: pool_eval)
  then obtain fx s where r: "pool_run toy_node (new_system 1) ?ls fx s" and c: "calm fx"
    using pool_run_execs by blast
  have "settled n fx = 1" if "n < 3" for n
    by (rule pool_close_settles_all [OF r _ c]) (use that in simp_all)
  with r show ?thesis by (intro exI [of _ fx] exI [of _ s]) simp
qed

end
