(* ===== verification/Pool_Answers.thy ===== *)
theory Pool_Answers
  imports Pool_Accounts
begin

section \<open>Every call gets its own answer\<close>

text \<open>
  The invariant \<open>routed\<close>: whatever carries the id of a pending task, in the queue, an inbox or an
  outbox, belongs to the call that the pending map names. With the transparency of the workers'
  caches it gives what the pool promises its callers.
\<close>

fun task_of :: "call \<Rightarrow> task_msg" where
  "task_of (Encrypt pem b) = \<lparr>m_id = 0, m_op = ''encrypt'', m_keyPem = pem, m_data = b, m_extra = None\<rparr>"
| "task_of (Decrypt pem b) = \<lparr>m_id = 0, m_op = ''decrypt'', m_keyPem = pem, m_data = b, m_extra = None\<rparr>"
| "task_of (Sign pem b) = \<lparr>m_id = 0, m_op = ''sign'', m_keyPem = pem, m_data = b, m_extra = None\<rparr>"
| "task_of (Verify pem h sig) = \<lparr>m_id = 0, m_op = ''verify'', m_keyPem = pem, m_data = h, m_extra = Some sig\<rparr>"

lemma call_pool_task: "call_pool c p = pool_dispatch (task_of c) p"
  by (cases c) (simp_all add: pool_encrypt_def pool_decrypt_def pool_sign_def pool_verify_def)

lemma serve_id [simp]: "serve node rnd (m\<lparr>m_id := i\<rparr>) = serve node rnd m"
  by (simp add: serve_def)

definition carries :: "call list \<Rightarrow> nat \<Rightarrow> task_msg \<Rightarrow> bool" where
  "carries cs n m \<longleftrightarrow> n < length cs \<and> m = (task_of (cs ! n))\<lparr>m_id := m_id m\<rparr>"

definition answers :: "('pub, 'priv) node_crypto \<Rightarrow> call list \<Rightarrow> nat \<Rightarrow> reply \<Rightarrow> bool" where
  "answers node cs n r \<longleftrightarrow>
     n < length cs \<and> (\<exists>rnd. r = reply_of (reply_id r) (serve node rnd (task_of (cs ! n))))"

text \<open>The messages on their way to a worker.\<close>

definition flying :: "('pub, 'priv) pool_system \<Rightarrow> task_msg set" where
  "flying s = set (p_queue (the_pool s)) \<union> (\<Union>w. set (inbox s w))"

definition routed :: "('pub, 'priv) node_crypto \<Rightarrow> call list \<Rightarrow> ('pub, 'priv) pool_system \<Rightarrow> bool" where
  "routed node cs s \<longleftrightarrow>
     (\<forall>m\<in>flying s. m_id m < p_nextId (the_pool s) \<and>
        (\<forall>n. map_of (p_pending (the_pool s)) (m_id m) = Some n \<longrightarrow> carries cs n m)) \<and>
     (\<forall>w. \<forall>r\<in>set (outbox s w). reply_id r < p_nextId (the_pool s) \<and>
        (\<forall>n. map_of (p_pending (the_pool s)) (reply_id r) = Some n \<longrightarrow> answers node cs n r)) \<and>
     (\<forall>w. worker_ok node (memory s w))"

text \<open>What a settled call may be told.\<close>

fun right :: "('pub, 'priv) node_crypto \<Rightarrow> call list \<Rightarrow> pool_effect \<Rightarrow> bool" where
  "right node cs (Fulfil n b) \<longleftrightarrow> n < length cs \<and> (\<exists>rnd. serve node rnd (task_of (cs ! n)) = Inr b)"
| "right node cs (Refuse n e) \<longleftrightarrow>
     n < length cs \<and>
     (e = Error ''CryptoPool is closed'' \<or> e = Error ''CryptoPool closed'' \<or>
      (\<exists>rnd e'. serve node rnd (task_of (cs ! n)) = Inl e' \<and> e = Error (message e')))"
| "right node cs _ \<longleftrightarrow> True"

subsection \<open>Where messages come from\<close>

fun posted_msgs :: "pool_effect list \<Rightarrow> task_msg set" where
  "posted_msgs [] = {}"
| "posted_msgs (PostMessage w m # fx) = insert m (posted_msgs fx)"
| "posted_msgs (e # fx) = posted_msgs fx"

lemma inbox_posts:
  "m \<in> set (inbox (deliver_posts fx s) w) \<Longrightarrow> m \<in> set (inbox s w) \<or> m \<in> posted_msgs fx"
  by (induction fx s rule: deliver_posts.induct) (auto split: if_splits)

definition tasks :: "pool \<times> pool_effect list \<Rightarrow> task_msg set" where
  "tasks r = set (p_queue (fst r)) \<union> posted_msgs (snd r)"

lemma release_tasks: "tasks (release w p) = set (p_queue p)"
  by (auto simp: tasks_def release_def split: list.split)

lemma tasks_settle:
  "tasks (apsnd ((#) (Fulfil n b)) r) = tasks r" "tasks (apsnd ((#) (Refuse n e)) r) = tasks r"
  by (simp_all add: tasks_def)

lemma message_tasks: "tasks (pool_message w r p) \<subseteq> set (p_queue p)"
proof -
  have "tasks (q, []) = set (p_queue q)" and "tasks (q, [Uncaught e]) = set (p_queue q)" for q e
    by (simp_all add: tasks_def)
  then show ?thesis
    by (simp add: pool_message.simps Let_def release_tasks tasks_settle split: option.split reply.split)
qed

lemma dispatch_tasks:
  "tasks (pool_dispatch msg p) \<subseteq> set (p_queue p) \<union> (if p_closed p then {} else {msg\<lparr>m_id := p_nextId p\<rparr>})"
  by (auto simp: tasks_def pool_dispatch_def Let_def)

lemma posted_none [simp]:
  "posted_msgs (map Terminate ws) = {}" "posted_msgs (map (\<lambda>(i, n). Refuse n e) xs) = {}"
  by (induction ws, simp_all) (induction xs, auto)

lemma close_tasks: "tasks (pool_close p) \<subseteq> set (p_queue p)" "tasks (pool_closed p) \<subseteq> set (p_queue p)"
  by (auto simp: tasks_def pool_close_def pool_closed_def)

text \<open>No operation but a call adds to the pending map, and a call under a new id.\<close>

lemma message_pending:
  "map_of (p_pending (fst (pool_message w r p))) i = Some n \<Longrightarrow> map_of (p_pending p) i = Some n"
  by (auto simp: pool_message.simps Let_def release_pool delete_conv' split: option.splits reply.splits if_splits)

lemma message_nextId: "p_nextId (fst (pool_message w r p)) = p_nextId p"
  by (auto simp: pool_message.simps Let_def release_pool split: option.splits reply.splits)

lemma close_pending:
  "p_pending (fst (pool_close p)) = p_pending p" "p_pending (fst (pool_closed p)) = []"
  "p_nextId (fst (pool_close p)) = p_nextId p" "p_nextId (fst (pool_closed p)) = p_nextId p"
  by (simp_all add: pool_close_def pool_closed_def)

lemma dispatch_pending:
  "map_of (p_pending (fst (pool_dispatch msg p))) i =
     (if \<not> p_closed p \<and> i = p_nextId p then Some (p_calls p) else map_of (p_pending p) i)"
  by (simp add: dispatch_fields update_conv)

subsection \<open>The invariant\<close>

lemma carries_append: "carries cs n m \<Longrightarrow> carries (cs @ ds) n m"
  by (simp add: carries_def nth_append)

lemma answers_append: "answers node cs n r \<Longrightarrow> answers node (cs @ ds) n r"
  by (simp add: answers_def nth_append)

lemma right_append: "right node cs e \<Longrightarrow> right node (cs @ ds) e"
  by (cases e) (simp_all add: nth_append)

text \<open>A step keeps the routing when what is new in it is routed.\<close>

lemma routed_transfer:
  assumes "routed node cs s"
    and "p_nextId (the_pool s) \<le> p_nextId (the_pool s')"
    and "\<And>i n. i < p_nextId (the_pool s) \<Longrightarrow> map_of (p_pending (the_pool s')) i = Some n \<Longrightarrow>
           map_of (p_pending (the_pool s)) i = Some n"
    and "\<And>m. m \<in> flying s' \<Longrightarrow> m \<in> flying s \<or> m_id m < p_nextId (the_pool s') \<and>
           (\<forall>n. map_of (p_pending (the_pool s')) (m_id m) = Some n \<longrightarrow> carries (cs @ ds) n m)"
    and "\<And>w r. r \<in> set (outbox s' w) \<Longrightarrow> r \<in> set (outbox s w) \<or> reply_id r < p_nextId (the_pool s') \<and>
           (\<forall>n. map_of (p_pending (the_pool s')) (reply_id r) = Some n \<longrightarrow> answers node (cs @ ds) n r)"
    and "\<And>w. worker_ok node (memory s' w)"
  shows "routed node (cs @ ds) s'"
proof -
  have "m_id m < p_nextId (the_pool s') \<and>
      (\<forall>n. map_of (p_pending (the_pool s')) (m_id m) = Some n \<longrightarrow> carries (cs @ ds) n m)"
    if "m \<in> flying s'" for m
    using assms(4) [OF that]
  proof
    assume "m \<in> flying s"
    then have "m_id m < p_nextId (the_pool s)"
      and "\<And>n. map_of (p_pending (the_pool s)) (m_id m) = Some n \<Longrightarrow> carries cs n m"
      using assms(1) by (simp_all add: routed_def)
    then show ?thesis using assms(2,3) carries_append by (meson order_less_le_trans)
  qed
  moreover have "reply_id r < p_nextId (the_pool s') \<and>
      (\<forall>n. map_of (p_pending (the_pool s')) (reply_id r) = Some n \<longrightarrow> answers node (cs @ ds) n r)"
    if "r \<in> set (outbox s' w)" for r w
    using assms(5) [OF that]
  proof
    assume "r \<in> set (outbox s w)"
    then have "reply_id r < p_nextId (the_pool s)"
      and "\<And>n. map_of (p_pending (the_pool s)) (reply_id r) = Some n \<Longrightarrow> answers node cs n r"
      using assms(1) by (simp_all add: routed_def)
    then show ?thesis using assms(2,3) answers_append by (meson order_less_le_trans)
  qed
  ultimately show ?thesis using assms(6) by (simp add: routed_def)
qed

lemma flying_step:
  assumes "m \<in> flying (deliver_posts fx s')" and "inbox s' = inbox s"
    and "tasks (the_pool s', fx) \<subseteq> set (p_queue (the_pool s)) \<union> N"
  shows "m \<in> flying s \<or> m \<in> N"
  using assms by (auto simp: flying_def tasks_def dest!: inbox_posts)

lemma inbox_flying: "m \<in> set (inbox s w) \<Longrightarrow> m \<in> flying s"
  by (auto simp: flying_def)

lemma routed_call:
  assumes "routed node cs s" and "p_calls (the_pool s) = length cs" and "call_pool c (the_pool s) = (p, fx)"
  shows "routed node (cs @ [c]) (deliver_posts fx (s\<lparr>the_pool := p\<rparr>))"
proof -
  let ?q = "the_pool s"
  have p: "p = fst (pool_dispatch (task_of c) ?q)" and fx: "fx = snd (pool_dispatch (task_of c) ?q)"
    using assms(3) by (simp_all add: call_pool_task)
  define N where "N = (if p_closed ?q then {} else {(task_of c)\<lparr>m_id := p_nextId ?q\<rparr>})"
  have N: "tasks (p, fx) \<subseteq> set (p_queue ?q) \<union> N"
    using dispatch_tasks [of "task_of c" ?q] by (simp add: p fx N_def)
  show ?thesis
  proof (rule routed_transfer [OF assms(1)])
    fix m
    assume "m \<in> flying (deliver_posts fx (s\<lparr>the_pool := p\<rparr>))"
    from flying_step [OF this, of s N] N have "m \<in> flying s \<or> m \<in> N" by simp
    then show "m \<in> flying s \<or> m_id m < p_nextId (the_pool (deliver_posts fx (s\<lparr>the_pool := p\<rparr>))) \<and>
        (\<forall>n. map_of (p_pending (the_pool (deliver_posts fx (s\<lparr>the_pool := p\<rparr>)))) (m_id m) = Some n \<longrightarrow>
             carries (cs @ [c]) n m)"
      using assms(2) by (auto simp: N_def p dispatch_pending dispatch_fields(3) carries_def split: if_splits)
  qed (use assms(1) in \<open>auto simp: p dispatch_pending dispatch_fields(3) routed_def split: if_splits\<close>)
qed

lemma routed_serve:
  assumes "routed node cs s" and "inbox s w = m # ms" and "worker_message node (memory s w) (rnd, m) = (mem, rs)"
  shows "routed node cs (s\<lparr>inbox := (inbox s)(w := ms), memory := (memory s)(w := mem),
           outbox := (outbox s)(w := outbox s w @ rs)\<rparr>)"
proof -
  let ?s = "s\<lparr>inbox := (inbox s)(w := ms), memory := (memory s)(w := mem), outbox := (outbox s)(w := outbox s w @ rs)\<rparr>"
  have ok: "worker_ok node (memory s v)" for v using assms(1) by (simp add: routed_def)
  have rs: "rs = [reply_of (m_id m) (serve node rnd m)]" and mem: "worker_ok node mem"
    using worker_message_serves [OF ok, of w "(rnd, m)"] assms(3) by simp_all
  have id: "reply_id (reply_of i x) = i" for i x by (simp add: reply_of_def split: sum.split)
  have "m \<in> flying s" by (rule inbox_flying [of _ _ w]) (simp add: assms(2))
  then have m: "m_id m < p_nextId (the_pool s)"
    "map_of (p_pending (the_pool s)) (m_id m) = Some n \<Longrightarrow> carries cs n m" for n
    using assms(1) by (simp_all add: routed_def)
  have ans: "answers node cs n (reply_of (m_id m) (serve node rnd m))" if "carries cs n m" for n
    using that id serve_id [of node rnd "m_id m" "task_of (cs ! n)"]
    by (auto simp: answers_def carries_def)
  have "routed node (cs @ []) ?s"
  proof (rule routed_transfer [OF assms(1)])
    fix x assume "x \<in> flying ?s"
    then show "x \<in> flying s \<or> m_id x < p_nextId (the_pool ?s) \<and>
        (\<forall>n. map_of (p_pending (the_pool ?s)) (m_id x) = Some n \<longrightarrow> carries (cs @ []) n x)"
      using assms(2) inbox_flying [of x s w] by (auto simp: flying_def split: if_splits)
  next
    fix v r assume "r \<in> set (outbox ?s v)"
    then show "r \<in> set (outbox s v) \<or> reply_id r < p_nextId (the_pool ?s) \<and>
        (\<forall>n. map_of (p_pending (the_pool ?s)) (reply_id r) = Some n \<longrightarrow> answers node (cs @ []) n r)"
      using m ans by (auto simp: rs id split: if_splits)
  qed (use ok mem in simp_all)
  then show ?thesis by simp
qed

lemma routed_deliver:
  assumes "routed node cs s" and "outbox s w = r # rs" and "pool_message w r (the_pool s) = (p, fx)"
  shows "routed node cs (deliver_posts fx (s\<lparr>the_pool := p, outbox := (outbox s)(w := rs)\<rparr>))"
proof -
  let ?q = "the_pool s" and ?s = "deliver_posts fx (s\<lparr>the_pool := p, outbox := (outbox s)(w := rs)\<rparr>)"
  have p: "p = fst (pool_message w r ?q)" using assms(3) by simp
  have t: "tasks (p, fx) \<subseteq> set (p_queue ?q) \<union> {}" using message_tasks [of w r ?q] assms(3) by simp
  have "routed node (cs @ []) ?s"
  proof (rule routed_transfer [OF assms(1)])
    fix m assume "m \<in> flying ?s"
    from flying_step [OF this, of s "{}"] t show "m \<in> flying s \<or> m_id m < p_nextId (the_pool ?s) \<and>
        (\<forall>n. map_of (p_pending (the_pool ?s)) (m_id m) = Some n \<longrightarrow> carries (cs @ []) n m)" by simp
  next
    fix v x assume "x \<in> set (outbox ?s v)"
    then show "x \<in> set (outbox s v) \<or> reply_id x < p_nextId (the_pool ?s) \<and>
        (\<forall>n. map_of (p_pending (the_pool ?s)) (reply_id x) = Some n \<longrightarrow> answers node (cs @ []) n x)"
      using assms(2) by (simp split: if_splits)
  qed (use assms(1) in \<open>auto simp: p message_nextId routed_def dest: message_pending\<close>)
  then show ?thesis by simp
qed

lemma step_routed:
  assumes "pool_step node s l fx s'" and "routed node cs s" and "p_calls (the_pool s) = length cs"
  shows "routed node (cs @ asked [l]) s'"
  using assms(1)
proof cases
  case (call c p)
  with routed_call [OF assms(2,3)] show ?thesis by simp
next
  case (serve w m ms rnd mem rs)
  with routed_serve [OF assms(2)] show ?thesis by simp
next
  case (deliver w r rs p)
  with routed_deliver [OF assms(2)] show ?thesis by simp
next
  case (die w e)
  with assms(2) show ?thesis by (auto simp: routed_def flying_def split: if_splits)
next
  case (close p)
  then have "p = fst (pool_close (the_pool s))" by simp
  with close(2) assms(2) close_tasks(1) [of "the_pool s"] show ?thesis
    by (auto simp: close(1) routed_def flying_def tasks_def close_pending)
next
  case (close_done p)
  then have "p = fst (pool_closed (the_pool s))" by simp
  with close_done(2) assms(2) close_tasks(2) [of "the_pool s"] show ?thesis
    by (auto simp: close_done(1) routed_def flying_def tasks_def close_pending)
qed

text \<open>What a reply settles is right.\<close>

lemma right_posts: "list_all (right node cs) (snd (release w p))"
  by (simp add: release_def split: list.split)

lemma right_message:
  assumes "\<And>n. map_of (p_pending p) (reply_id r) = Some n \<Longrightarrow> answers node cs n r"
  shows "list_all (right node cs) (snd (pool_message w r p))"
proof (cases "map_of (p_pending p) (reply_id r)")
  case (Some n)
  from assms [OF this] obtain rnd where n: "n < length cs"
    and r: "r = reply_of (reply_id r) (serve node rnd (task_of (cs ! n)))" by (auto simp: answers_def)
  show ?thesis
  proof (cases "serve node rnd (task_of (cs ! n))")
    case (Inl e)
    with r have "r = Failure (reply_id r) (message e)" by (simp add: reply_of_def)
    with n Inl Some right_posts show ?thesis by (cases r) (auto simp: pool_message.simps Let_def)
  next
    case (Inr b)
    with r have "r = Result (reply_id r) b" by (simp add: reply_of_def)
    with n Inr Some right_posts show ?thesis by (cases r) (auto simp: pool_message.simps Let_def)
  qed
qed (simp add: pool_message.simps)

lemma step_right:
  assumes "pool_step node s l fx s'" and "routed node cs s" and "p_calls (the_pool s) = length cs"
    and "books_ok (the_pool s)"
  shows "list_all (right node (cs @ asked [l])) fx"
  using assms(1)
proof cases
  case (call c p)
  then have "fx = snd (pool_dispatch (task_of c) (the_pool s))" by (simp add: call_pool_task)
  then show ?thesis using call(1) assms(3) by (simp add: pool_dispatch_def Let_def)
next
  case (deliver w r rs p)
  have "r \<in> set (outbox s w)" using deliver by simp
  with assms(2) have "list_all (right node cs) (snd (pool_message w r (the_pool s)))"
    by (intro right_message) (simp add: routed_def)
  with deliver show ?thesis by simp
next
  case (close p)
  then have "fx = snd (pool_close (the_pool s))" by simp
  then show ?thesis by (simp add: pool_close_def list_all_iff)
next
  case (close_done p)
  then have "fx = snd (pool_closed (the_pool s))" by simp
  with assms(3,4) close_done(1) show ?thesis by (auto simp: pool_closed_def list_all_iff books_ok_def)
qed simp_all

lemma run_routed:
  "pool_run node (new_system k) ls fx s \<Longrightarrow> routed node (asked ls) s \<and> list_all (right node (asked ls)) fx"
proof (induction rule: pool_run.induct)
  case start
  show ?case by (simp add: routed_def flying_def new_system_pool) (simp add: new_system_def worker_ok_new)
next
  case (step ls fx s l gx s')
  from run_accounted [OF step.hyps(1)] have "p_calls (the_pool s) = length (asked ls)" and "books_ok (the_pool s)"
    by (simp_all add: accounted_def)
  with step step_routed [OF step.hyps(2)] step_right [OF step.hyps(2)]
  show ?case by (auto simp: list_all_iff intro: right_append)
qed

lemma run_right: "pool_run node (new_system k) ls fx s \<Longrightarrow> x \<in> set fx \<Longrightarrow> right node (asked ls) x"
  using run_routed by (metis list_all_iff)

text \<open>C8. Answers: whatever interleaving of calls, workers, replies, deaths and closing happens, a
  promise of the pool is fulfilled only with the result that a worker without caches computes for
  that very call (its operation, key and data), and rejected only with that computation's error
  message, or because the pool was closed. No answer ever reaches another call.
\<close>

theorem pool_answers_own_call:
  assumes "pool_run node (new_system k) ls fx s"
  shows "(Fulfil n b \<in> set fx \<longrightarrow>
            n < length (asked ls) \<and> (\<exists>rnd. serve node rnd (task_of (asked ls ! n)) = Inr b)) \<and>
         (Refuse n e \<in> set fx \<longrightarrow>
            n < length (asked ls) \<and>
            (e = Error ''CryptoPool is closed'' \<or> e = Error ''CryptoPool closed'' \<or>
             (\<exists>rnd e'. serve node rnd (task_of (asked ls ! n)) = Inl e' \<and> e = Error (message e'))))"
  using run_right [OF assms, of "Fulfil n b"] run_right [OF assms, of "Refuse n e"] by simp

theorem pool_answers_own_call_witness:
  "\<exists>fx s. pool_run toy_node (new_system 1)
            [Call (Encrypt ''k'' [5]), Call (Verify ''k'' [6] [1, 6]), Serve 0 [], Deliver 0, Serve 0 [], Deliver 0] fx s \<and>
     Fulfil 1 [1] \<in> set fx \<and> (\<exists>rnd. serve toy_node rnd (task_of (Verify ''k'' [6] [1, 6])) = Inr [1])"
proof -
  let ?ls = "[Call (Encrypt ''k'' [5]), Call (Verify ''k'' [6] [1, 6]), Serve 0 [], Deliver 0, Serve 0 [], Deliver 0]"
  have "\<exists>fx s. pool_execs toy_node (new_system 1) ?ls = Some (fx, s) \<and> Fulfil 1 [1] \<in> set fx"
    by (simp add: pool_eval)
  then obtain fx s where r: "pool_run toy_node (new_system 1) ?ls fx s" and f: "Fulfil 1 [1] \<in> set fx"
    using pool_run_execs by blast
  with pool_answers_own_call [OF r, of 1 "[1]"] show ?thesis by (intro exI [of _ fx] exI [of _ s]) simp
qed

text \<open>For the four operations in the terms of \<open>lib/crypto.js\<close>: when a promise of \<open>encrypt\<close>,
  \<open>decrypt\<close> or \<open>sign\<close> is fulfilled, its value is what \<open>rsaEncrypt\<close>, \<open>rsaDecrypt\<close> or \<open>rsaSign\<close>
  returns for the parsed key; and what \<open>verify\<close> makes of its reply is the verdict of \<open>rsaVerify\<close>.
\<close>

theorem pool_operations:
  assumes "pool_run node (new_system k) ls fx s" and "Fulfil n b \<in> set fx"
  shows "case asked ls ! n of
           Encrypt pem m \<Rightarrow> \<exists>key rnd. load_pub node pem = Inr key \<and> rsaEncrypt (node_rsa node) key rnd m = Inr b
         | Decrypt pem c \<Rightarrow> \<exists>key. load_priv node pem = Inr key \<and> rsaDecrypt (node_rsa node) key c = Inr b
         | Sign pem h \<Rightarrow> \<exists>key. load_priv node pem = Inr key \<and> rsaSign (node_rsa node) key h = Inr b
         | Verify pem h sig \<Rightarrow> \<exists>key. load_pub node pem = Inr key \<and>
             (verify_result b \<longleftrightarrow> rsaVerify (node_rsa node) key h sig)"
proof -
  from run_right [OF assms] obtain rnd where r: "serve node rnd (task_of (asked ls ! n)) = Inr b" by auto
  show ?thesis
    using r by (cases "asked ls ! n") (auto simp: serve_def bindE_Inr_iff verify_byte_def verify_result_def Let_def)
qed

theorem pool_operations_witness:
  "verify_result [1] \<longleftrightarrow> rsaVerify toy_rsa () [6] [1, 6]"
proof -
  let ?ls = "[Call (Verify ''k'' [6] [1, 6]), Serve 0 [], Deliver 0]"
  have "\<exists>fx s. pool_execs toy_node (new_system 1) ?ls = Some (fx, s) \<and> Fulfil 0 [1] \<in> set fx"
    by (simp add: pool_eval)
  then obtain fx s where r: "pool_run toy_node (new_system 1) ?ls fx s" and f: "Fulfil 0 [1] \<in> set fx"
    using pool_run_execs by blast
  from pool_operations [OF r f] show ?thesis by (simp add: toy_node_def)
qed

end
