(* ===== verification/Core_Keys.thy ===== *)
theory Core_Keys
  imports Handshake
begin

section \<open>The filesystem key loader (\<open>lib/core-keys.js\<close>)\<close>

text \<open>
  \<open>makeFsCoreKeyLoader\<close> returns an async function with three awaits: reading the canonical key,
  probing the quarantine file, writing it. The model is one loader call as a small machine over a
  shared file system (\<open>loader_step\<close>), so that calls of several connections can interleave;
  \<open>loadCoreKey\<close> runs one call without interruption. \<open>derToPem\<close> is given with the Base64 of Node.

  The file system is a map from paths to texts, together with the error codes with which the
  system refuses to read, to probe or to write a path (missing permission, a directory in the way,
  an I/O error), where it does. Paths are what \<open>path.join\<close> makes of the resolved directory and a name
  without separators.
\<close>

subsection \<open>Device ids and paths\<close>

definition isValidDeviceId :: "string \<Rightarrow> bool" where
  "isValidDeviceId i \<longleftrightarrow> length i = 24 \<and> list_all (\<lambda>c. c \<in> set hex_digits) i"

definition join_path :: "string \<Rightarrow> string \<Rightarrow> string" where
  "join_path dir name = (if dir = ''/'' then dir @ name else dir @ ''/'' @ name)"

definition canonical :: "string \<Rightarrow> string \<Rightarrow> string" where
  "canonical dir coreId = join_path dir (coreId @ ''.pub.pem'')"

definition quarantine :: "string \<Rightarrow> string \<Rightarrow> string" where
  "quarantine dir coreId = join_path dir (coreId @ ''_handshake.pub.pem'')"

subsection \<open>DER to PEM\<close>

definition base64_char :: "nat \<Rightarrow> char" where
  "base64_char n = (''ABCDEFGHIJKLMNOPQRSTUVWXYZabcdefghijklmnopqrstuvwxyz0123456789+/'') ! n"

text \<open>\<open>Buffer.toString('base64')\<close>: three bytes to four characters, padded with \<open>=\<close>.\<close>

fun base64 :: "bytes \<Rightarrow> string" where
  "base64 [] = []"
| "base64 [a] =
     [base64_char (unat a div 4), base64_char (unat a mod 4 * 16), CHR ''='', CHR ''='']"
| "base64 [a, b] =
     [base64_char (unat a div 4), base64_char (unat a mod 4 * 16 + unat b div 16),
      base64_char (unat b mod 16 * 4), CHR ''='']"
| "base64 (a # b # c # rest) =
     [base64_char (unat a div 4), base64_char (unat a mod 4 * 16 + unat b div 16),
      base64_char (unat b mod 16 * 4 + unat c div 64), base64_char (unat c mod 64)] @ base64 rest"

text \<open>The \<open>for\<close> loop that cuts the text in slices of 64 characters.\<close>

function slices :: "string \<Rightarrow> string list" where
  "slices s = (if s = [] then [] else take 64 s # slices (drop 64 s))"
  by pat_completeness auto
termination
  by (relation "measure length") auto

declare slices.simps [simp del]

definition newline :: char where
  "newline = CHR 0x0A"

fun join_lines :: "string list \<Rightarrow> string" where
  "join_lines [] = []"
| "join_lines [x] = x"
| "join_lines (x # y # ys) = x @ newline # join_lines (y # ys)"

definition derToPem :: "bytes \<Rightarrow> string" where
  "derToPem der =
     join_lines ([''-----BEGIN PUBLIC KEY-----''] @ slices (base64 der) @ [''-----END PUBLIC KEY-----''])
       @ [newline]"

subsection \<open>The loader\<close>

record file_system =
  files :: "string \<Rightarrow> string option"
  denied_read :: "string \<Rightarrow> string option"
  denied_access :: "string \<Rightarrow> string option"
  denied_write :: "string \<Rightarrow> string option"

definition readFile :: "file_system \<Rightarrow> string \<Rightarrow> string + string" where
  "readFile fs path =
     (case denied_read fs path of
        Some c \<Rightarrow> Inl c
      | None \<Rightarrow> (case files fs path of None \<Rightarrow> Inl ''ENOENT'' | Some text \<Rightarrow> Inr text))"

definition access :: "file_system \<Rightarrow> string \<Rightarrow> bool" where
  "access fs path \<longleftrightarrow> denied_access fs path = None \<and> files fs path \<noteq> None"

definition writeFile :: "file_system \<Rightarrow> string \<Rightarrow> string \<Rightarrow> string + file_system" where
  "writeFile fs path text =
     (case denied_write fs path of
        Some c \<Rightarrow> Inl c
      | None \<Rightarrow> Inr (fs\<lparr>files := (files fs)(path := Some text)\<rparr>))"

datatype loader_pc =
    AtCall | AtReadFile | AtAccess | AtWriteFile | Answered "js_error + string option"

record loader =
  ld_id :: string
  ld_der :: "bytes option"
  ld_pc :: loader_pc

definition answer :: "loader \<Rightarrow> js_error + string option \<Rightarrow> loader" where
  "answer l r = l\<lparr>ld_pc := Answered r\<rparr>"

text \<open>One step: what is done between two awaits, with the outcome of the awaited file operation.\<close>

definition loader_step :: "string \<Rightarrow> file_system \<Rightarrow> loader \<Rightarrow> file_system \<times> loader" where
  "loader_step dir fs l =
     (case ld_pc l of
        AtCall \<Rightarrow>
          if isValidDeviceId (ld_id l) then (fs, l\<lparr>ld_pc := AtReadFile\<rparr>)
          else (fs, answer l (Inl (Error (''invalid device id: '' @ ld_id l))))
      | AtReadFile \<Rightarrow>
          (case readFile fs (canonical dir (ld_id l)) of
             Inr text \<Rightarrow> (fs, answer l (Inr (Some text)))
           | Inl c \<Rightarrow>
               if c \<noteq> ''ENOENT'' then (fs, answer l (Inl (NodeError c)))
               else if ld_der l = None \<or> ld_der l = Some [] then (fs, answer l (Inr None))
               else (fs, l\<lparr>ld_pc := AtAccess\<rparr>))
      | AtAccess \<Rightarrow>
          if access fs (quarantine dir (ld_id l)) then (fs, answer l (Inr None))
          else (fs, l\<lparr>ld_pc := AtWriteFile\<rparr>)
      | AtWriteFile \<Rightarrow>
          (case writeFile fs (quarantine dir (ld_id l)) (derToPem (or_empty (ld_der l))) of
             Inl c \<Rightarrow> (fs, answer l (Inl (NodeError c)))
           | Inr fs' \<Rightarrow> (fs', answer l (Inr None)))
      | Answered r \<Rightarrow> (fs, l))"

definition loadCoreKey ::
    "string \<Rightarrow> file_system \<Rightarrow> string \<Rightarrow> bytes option \<Rightarrow> file_system \<times> (js_error + string option)" where
  "loadCoreKey dir fs coreId inlineDer =
     (let (fs1, l1) = loader_step dir fs \<lparr>ld_id = coreId, ld_der = inlineDer, ld_pc = AtCall\<rparr>;
          (fs2, l2) = loader_step dir fs1 l1;
          (fs3, l3) = loader_step dir fs2 l2;
          (fs4, l4) = loader_step dir fs3 l3
      in (fs4, case ld_pc l4 of Answered r \<Rightarrow> r | _ \<Rightarrow> Inr None))"

subsection \<open>Paths do not collide\<close>

lemma valid_id_hex: "isValidDeviceId i \<Longrightarrow> c \<in> set i \<Longrightarrow> c \<noteq> CHR ''_''"
  by (auto simp: isValidDeviceId_def list_all_iff hex_digits_def)

lemma join_path_inj: "join_path dir a = join_path dir b \<longleftrightarrow> a = b"
  by (simp add: join_path_def)

lemma quarantine_not_canonical:
  assumes "isValidDeviceId i" and "isValidDeviceId j"
  shows "quarantine dir i \<noteq> canonical dir j"
proof
  assume "quarantine dir i = canonical dir j"
  then have "i @ ''_handshake.pub.pem'' = j @ ''.pub.pem''"
    by (simp add: quarantine_def canonical_def join_path_inj)
  moreover from assms have "length i = length j" by (simp add: isValidDeviceId_def)
  ultimately show False by simp
qed

lemma quarantine_inj: "quarantine dir i = quarantine dir j \<Longrightarrow> i = j"
  by (simp add: quarantine_def join_path_inj)

subsection \<open>One call\<close>

lemmas loader_eval = loader_step_def answer_def

text \<open>C35. One call of the loader, in full: an invalid id is refused before the file system is touched;
  a canonical key is returned as it is; an unreadable one rejects the call; and a missing one makes
  the handshake fail closed (the answer is null), the inline key being written to the quarantine
  file only if there is one to write and no file there yet. No call changes any other file.
\<close>

theorem loadCoreKey_outcomes:
  "loadCoreKey dir fs i der =
     (if \<not> isValidDeviceId i then (fs, Inl (Error (''invalid device id: '' @ i)))
      else case readFile fs (canonical dir i) of
        Inr text \<Rightarrow> (fs, Inr (Some text))
      | Inl c \<Rightarrow>
          if c \<noteq> ''ENOENT'' then (fs, Inl (NodeError c))
          else if or_empty der = [] \<or> access fs (quarantine dir i) then (fs, Inr None)
          else case denied_write fs (quarantine dir i) of
            Some c \<Rightarrow> (fs, Inl (NodeError c))
          | None \<Rightarrow> (fs\<lparr>files := (files fs)(quarantine dir i := Some (derToPem (or_empty der)))\<rparr>, Inr None))"
proof -
  have "or_empty der = [] \<longleftrightarrow> der = None \<or> der = Some []" by (cases der) auto
  then show ?thesis
    by (auto simp: loadCoreKey_def loader_eval writeFile_def Let_def split: sum.split option.split)
qed

subsection \<open>Calls of many connections, interleaved\<close>

datatype keys_event = Call string "bytes option" | Step nat

text \<open>The effect of an event is the answer that a call got, if it got one.\<close>

definition given :: "loader \<Rightarrow> loader \<Rightarrow> (string \<times> (js_error + string option)) list" where
  "given l l' = (case (ld_pc l, ld_pc l') of
     (Answered r, _) \<Rightarrow> [] | (_, Answered r) \<Rightarrow> [(ld_id l, r)] | _ \<Rightarrow> [])"

fun keys_step ::
    "string \<Rightarrow> file_system \<times> loader list \<Rightarrow> keys_event \<Rightarrow>
     (file_system \<times> loader list) \<times> (string \<times> (js_error + string option)) list" where
  "keys_step dir (fs, ls) (Call i der) = ((fs, ls @ [\<lparr>ld_id = i, ld_der = der, ld_pc = AtCall\<rparr>]), [])"
| "keys_step dir (fs, ls) (Step n) =
     (if n < length ls then
        let (fs', l') = loader_step dir fs (ls ! n) in ((fs', ls[n := l']), given (ls ! n) l')
      else ((fs, ls), []))"

text \<open>No call changes a canonical file, and a call past its first step has a valid id.\<close>

definition keys_inv :: "string \<Rightarrow> file_system \<Rightarrow> file_system \<times> loader list \<Rightarrow> bool" where
  "keys_inv dir fs0 s \<longleftrightarrow>
     (\<forall>i. isValidDeviceId i \<longrightarrow> readFile (fst s) (canonical dir i) = readFile fs0 (canonical dir i)) \<and>
     (\<forall>l\<in>set (snd s). ld_pc l \<in> {AtReadFile, AtAccess, AtWriteFile} \<longrightarrow> isValidDeviceId (ld_id l))"

definition keys_good :: "string \<Rightarrow> file_system \<Rightarrow> string \<times> (js_error + string option) \<Rightarrow> bool" where
  "keys_good dir fs0 x \<longleftrightarrow>
     (\<forall>text. snd x = Inr (Some text) \<longrightarrow>
        isValidDeviceId (fst x) \<and> readFile fs0 (canonical dir (fst x)) = Inr text)"

lemma write_keeps_canonical:
  assumes "isValidDeviceId i" and "writeFile fs (quarantine dir i) text = Inr fs'" and "isValidDeviceId j"
  shows "readFile fs' (canonical dir j) = readFile fs (canonical dir j)"
  using assms(2) quarantine_not_canonical [OF assms(1,3), of dir, symmetric]
  by (auto simp: writeFile_def readFile_def split: option.splits)

lemma loader_step_inv:
  assumes "ld_pc l \<in> {AtReadFile, AtAccess, AtWriteFile} \<longrightarrow> isValidDeviceId (ld_id l)"
    and "loader_step dir fs l = (fs', l')"
  shows "isValidDeviceId j \<Longrightarrow> readFile fs' (canonical dir j) = readFile fs (canonical dir j)"
    and "ld_pc l' \<in> {AtReadFile, AtAccess, AtWriteFile} \<longrightarrow> isValidDeviceId (ld_id l')"
    and "list_all (\<lambda>x. \<forall>text. snd x = Inr (Some text) \<longrightarrow>
           isValidDeviceId (fst x) \<and> readFile fs (canonical dir (fst x)) = Inr text) (given l l')"
  using assms
  by (cases "ld_pc l"; auto simp: loader_eval given_def split: if_splits sum.splits dest: write_keeps_canonical)+

lemma keys_step_inv:
  assumes "keys_inv dir fs0 s"
  shows "keys_inv dir fs0 (fst (keys_step dir s e))"
    and "list_all (keys_good dir fs0) (snd (keys_step dir s e))"
proof -
  obtain fs ls where s: "s = (fs, ls)" by (cases s)
  have "keys_inv dir fs0 (fst (keys_step dir s e)) \<and> list_all (keys_good dir fs0) (snd (keys_step dir s e))"
  proof (cases e)
    case (Call i der)
    with assms show ?thesis by (auto simp: s keys_inv_def)
  next
    case (Step n)
    show ?thesis
    proof (cases "n < length ls")
      case True
      obtain fs' l' where st: "loader_step dir fs (ls ! n) = (fs', l')" by (cases "loader_step dir fs (ls ! n)")
      from assms True have "ld_pc (ls ! n) \<in> {AtReadFile, AtAccess, AtWriteFile} \<longrightarrow> isValidDeviceId (ld_id (ls ! n))"
        by (auto simp: s keys_inv_def)
      note i = loader_step_inv [OF this st]
      have "list_all (keys_good dir fs0) (given (ls ! n) l')"
        unfolding keys_good_def by (rule list.pred_mono_strong [OF i(3)]) (use assms in \<open>auto simp: s keys_inv_def\<close>)
      moreover have "keys_inv dir fs0 (fs', ls[n := l'])"
        using i(1,2) assms set_update_subset_insert [of ls n l'] by (auto simp: s keys_inv_def)
      ultimately show ?thesis using True st by (simp add: s Step)
    qed (use assms in \<open>simp add: s Step\<close>)
  qed
  then show "keys_inv dir fs0 (fst (keys_step dir s e))"
    and "list_all (keys_good dir fs0) (snd (keys_step dir s e))" by blast+
qed

interpretation keys: machine "(fs0, [])" "keys_step dir" "keys_inv dir fs0" "keys_good dir fs0" for fs0 dir
  by unfold_locales (simp_all add: keys_step_inv, simp add: keys_inv_def)

text \<open>C13. No trust on first use: whatever calls connections make, with whatever ids and inline keys,
  and however their file operations interleave, a key is only ever answered for a valid id, and it
  is the one that the canonical file held at the start; the calls by themselves never create or
  change a canonical key file.
\<close>

theorem only_operator_keys:
  "(\<forall>(i, r)\<in>set (snd (run (keys_step dir) (fs0, []) es)). \<forall>text. r = Inr (Some text) \<longrightarrow>
      isValidDeviceId i \<and> readFile fs0 (canonical dir i) = Inr text) \<and>
   (\<forall>i. isValidDeviceId i \<longrightarrow>
      readFile (fst (fst (run (keys_step dir) (fs0, []) es))) (canonical dir i) = readFile fs0 (canonical dir i))"
  using keys.good_run [of dir fs0 es] keys.inv_run [of dir fs0 es]
  by (auto simp: list_all_iff keys_good_def keys_inv_def)

definition empty_fs :: file_system where
  "empty_fs = \<lparr>files = (\<lambda>_. None), denied_read = (\<lambda>_. None), denied_access = (\<lambda>_. None),
               denied_write = (\<lambda>_. None)\<rparr>"

lemma toy_id: "isValidDeviceId ''0123456789abcdef01234567''"
  by (simp add: isValidDeviceId_def hex_digits_def)

theorem only_operator_keys_witness:
  "\<exists>fs0. readFile fs0 (canonical ''/keys'' ''0123456789abcdef01234567'') = Inr ''PEM'' \<and>
     (''0123456789abcdef01234567'', Inr (Some ''PEM'')) \<in> set (snd (run (keys_step ''/keys'') (fs0, [])
        [Call ''0123456789abcdef01234567'' None, Step 0, Step 0]))"
proof -
  let ?i = "''0123456789abcdef01234567''"
  let ?fs = "empty_fs\<lparr>files := [canonical ''/keys'' ?i \<mapsto> ''PEM'']\<rparr>"
  have f: "readFile ?fs (canonical ''/keys'' ?i) = Inr ''PEM''" by (simp add: readFile_def empty_fs_def)
  have r: "(?i, Inr (Some ''PEM'')) \<in> set (snd (run (keys_step ''/keys'') (?fs, []) [Call ?i None, Step 0, Step 0]))"
    using toy_id f by (simp add: run.simps(2) loader_eval given_def Let_def)
  with only_operator_keys [of "''/keys''" ?fs "[Call ?i None, Step 0, Step 0]"]
  have "readFile ?fs (canonical ''/keys'' ?i) = Inr ''PEM''" by fastforce
  with r show ?thesis by blast
qed

text \<open>The quarantine file is probed and written in two steps: two handshakes of one device id
  (or of two devices that claim it) that offer different keys at the same time can both find no
  file, and then the second one overwrites the key that the first one quarantined, although the
  probe is there to keep the first key.
\<close>

theorem quarantine_race:
  assumes "isValidDeviceId i" and "der1 \<noteq> []" and "der2 \<noteq> []"
    and "readFile fs (canonical dir i) = Inl ''ENOENT''"
    and "files fs (quarantine dir i) = None" and "denied_write fs (quarantine dir i) = None"
  shows "\<exists>ls. run (keys_step dir) (fs, [])
           [Call i (Some der1), Call i (Some der2),
            Step 0, Step 1, Step 0, Step 1, Step 0, Step 1, Step 0, Step 1] =
           ((fs\<lparr>files := (files fs)(quarantine dir i := Some (derToPem der2))\<rparr>, ls),
            [(i, Inr None), (i, Inr None)])"
  using assms
  by (simp add: run.simps(2) loader_eval given_def access_def writeFile_def Let_def)

theorem quarantine_race_witness:
  "files (fst (fst (run (keys_step ''/keys'') (empty_fs, [])
     [Call ''0123456789abcdef01234567'' (Some [1]), Call ''0123456789abcdef01234567'' (Some [2]),
      Step 0, Step 1, Step 0, Step 1, Step 0, Step 1, Step 0, Step 1])))
     (quarantine ''/keys'' ''0123456789abcdef01234567'') = Some (derToPem [2])"
proof -
  from quarantine_race [OF toy_id, of "[1]" "[2]" empty_fs "''/keys''"]
  show ?thesis by (auto simp: empty_fs_def readFile_def)
qed

subsection \<open>The written key is the device's key\<close>

text \<open>A reader of PEM texts, as the format is documented: the lines between the two markers,
  joined, are Base64.\<close>

definition base64_value :: "char \<Rightarrow> nat" where
  "base64_value c = length (takeWhile (\<lambda>d. d \<noteq> c) (map base64_char [0..<64]))"

fun base64_decode :: "string \<Rightarrow> bytes" where
  "base64_decode (a # b # c # d # rest) =
     (if c = CHR ''='' then [word_of_nat (base64_value a * 4 + base64_value b div 16)]
      else if d = CHR ''='' then
        [word_of_nat (base64_value a * 4 + base64_value b div 16),
         word_of_nat (base64_value b * 16 + base64_value c div 4)]
      else
        [word_of_nat (base64_value a * 4 + base64_value b div 16),
         word_of_nat (base64_value b * 16 + base64_value c div 4),
         word_of_nat (base64_value c * 64 + base64_value d)] @ base64_decode rest)"
| "base64_decode _ = []"

fun split_lines :: "string \<Rightarrow> string \<Rightarrow> string list" where
  "split_lines acc [] = [acc]"
| "split_lines acc (c # cs) =
     (if c = newline then acc # split_lines [] cs else split_lines (acc @ [c]) cs)"

definition pem_lines :: "string \<Rightarrow> string list option" where
  "pem_lines text =
     (case split_lines [] text of
        begin_line # rest \<Rightarrow>
          (case rev rest of
             [] # end_line # body \<Rightarrow>
               if begin_line = ''-----BEGIN PUBLIC KEY-----'' \<and> end_line = ''-----END PUBLIC KEY-----''
               then Some (rev body) else None
           | _ \<Rightarrow> None)
      | [] \<Rightarrow> None)"

lemma split_lines_text:
  "newline \<notin> set x \<Longrightarrow> split_lines acc (x @ newline # y) = (acc @ x) # split_lines [] y"
  by (induction x arbitrary: acc) auto

lemma split_lines_join:
  "list_all (\<lambda>x. newline \<notin> set x) (x # xs) \<Longrightarrow>
   split_lines [] (join_lines (x # xs) @ [newline]) = (x # xs) @ [[]]"
proof (induction xs arbitrary: x)
  case (Cons y ys)
  then show ?case using split_lines_text [of x "[]" "join_lines (y # ys) @ [newline]"] by simp
qed (simp add: split_lines_text)

lemma base64_char_facts:
  "n < 64 \<Longrightarrow> base64_value (base64_char n) = n \<and> base64_char n \<noteq> CHR ''='' \<and> base64_char n \<noteq> newline"
proof -
  have "list_all (\<lambda>n. base64_value (base64_char n) = n \<and> base64_char n \<noteq> CHR ''='' \<and> base64_char n \<noteq> newline)
          [0..<64]"
    by code_simp
  then show "n < 64 \<Longrightarrow> ?thesis" by (simp add: list_all_iff)
qed

lemma sextets:
  assumes "a < 256" and "b < 256" and "c < (256 :: nat)"
  shows "a div 4 < 64" and "a mod 4 * 16 < 64" and "a mod 4 * 16 + b div 16 < 64" and "b mod 16 * 4 < 64"
    and "b mod 16 * 4 + c div 64 < 64" and "c mod 64 < 64"
proof -
  have "a mod 4 < 4" and "b mod 16 < 16" and "b div 16 < 16" and "c div 64 < 4" and "a div 4 < 64"
    using assms by (simp_all add: less_mult_imp_div_less)
  then show "a div 4 < 64" and "a mod 4 * 16 < 64" and "a mod 4 * 16 + b div 16 < 64" and "b mod 16 * 4 < 64"
    and "b mod 16 * 4 + c div 64 < 64" and "c mod 64 < 64" by simp_all
qed

lemmas sextet = sextets [OF unat_byte_less unat_byte_less unat_byte_less]

lemma of_nat_byte_iff: "word_of_nat n = (b :: byte) \<longleftrightarrow> n mod 256 = unat b"
  by (metis unat_word_of_nat_byte unsigned_word_eqI)

text \<open>Cutting a number into a quotient and a remainder, and reading the digits back.\<close>

lemma digits_back:
  "b < n \<Longrightarrow> (x * n + b) div n = (x :: nat)" "b < n \<Longrightarrow> (x * n + b) mod n = b"
  by simp_all

lemma sextet_bytes:
  "word_of_nat (unat a div 4 * 4 + (unat a mod 4 * 16) div 16) = a"
  "word_of_nat (unat a div 4 * 4 + (unat a mod 4 * 16 + unat b div 16) div 16) = a"
  "word_of_nat ((unat a mod 4 * 16 + unat b div 16) * 16 + (unat b mod 16 * 4) div 4) = b"
  "word_of_nat ((unat a mod 4 * 16 + unat b div 16) * 16 + (unat b mod 16 * 4 + unat c div 64) div 4) = b"
  "word_of_nat ((unat b mod 16 * 4 + unat c div 64) * 64 + unat c mod 64) = c"
  for a b c :: byte
proof -
  have 1: "(x * 16 + y) * 16 + z = (y * 16 + z) + x * 256" for x y z :: nat by simp
  have 2: "(x * 4 + y) * 64 + z = (y * 64 + z) + x * 256" for x y z :: nat by simp
  have 3: "unat b div 16 < 16" "unat c div 64 < 4" by (simp_all add: less_mult_imp_div_less)
  show "word_of_nat (unat a div 4 * 4 + (unat a mod 4 * 16) div 16) = a"
    by (simp add: of_nat_byte_iff)
  show "word_of_nat (unat a div 4 * 4 + (unat a mod 4 * 16 + unat b div 16) div 16) = a"
    unfolding digits_back(1) [OF 3(1)] by (simp add: of_nat_byte_iff)
  show "word_of_nat ((unat a mod 4 * 16 + unat b div 16) * 16 + (unat b mod 16 * 4) div 4) = b"
    unfolding of_nat_byte_iff 1 by simp
  show "word_of_nat ((unat a mod 4 * 16 + unat b div 16) * 16 + (unat b mod 16 * 4 + unat c div 64) div 4) = b"
    unfolding digits_back(1) [OF 3(2)] of_nat_byte_iff 1 by simp
  show "word_of_nat ((unat b mod 16 * 4 + unat c div 64) * 64 + unat c mod 64) = c"
    unfolding of_nat_byte_iff 2 by simp
qed

lemma base64_decode_encode: "base64_decode (base64 der) = der"
proof (induction der rule: base64.induct)
  case (2 a)
  have "base64_value (base64_char (unat a div 4)) = unat a div 4"
    and "base64_value (base64_char (unat a mod 4 * 16)) = unat a mod 4 * 16"
    using base64_char_facts sextet by blast+
  then show ?case by (simp only: base64.simps base64_decode.simps simp_thms if_True sextet_bytes)
next
  case (3 a b)
  have "base64_value (base64_char (unat a div 4)) = unat a div 4"
    and "base64_value (base64_char (unat a mod 4 * 16 + unat b div 16)) = unat a mod 4 * 16 + unat b div 16"
    and "base64_value (base64_char (unat b mod 16 * 4)) = unat b mod 16 * 4"
    and "base64_char (unat b mod 16 * 4) \<noteq> CHR ''=''"
    using base64_char_facts sextet by blast+
  then show ?case by (simp only: base64.simps base64_decode.simps simp_thms if_True if_False sextet_bytes)
next
  case (4 a b c rest)
  have "base64_value (base64_char (unat a div 4)) = unat a div 4"
    and "base64_value (base64_char (unat a mod 4 * 16 + unat b div 16)) = unat a mod 4 * 16 + unat b div 16"
    and "base64_value (base64_char (unat b mod 16 * 4 + unat c div 64)) = unat b mod 16 * 4 + unat c div 64"
    and "base64_value (base64_char (unat c mod 64)) = unat c mod 64"
    and "base64_char (unat b mod 16 * 4 + unat c div 64) \<noteq> CHR ''=''" and "base64_char (unat c mod 64) \<noteq> CHR ''=''"
    using base64_char_facts sextet by blast+
  with 4 show ?case
    by (simp only: base64.simps base64_decode.simps simp_thms if_False append_Cons append_Nil sextet_bytes)
qed simp

lemma newline_not_in_base64: "newline \<notin> set (base64 der)"
proof -
  have "newline \<noteq> base64_char n" if "n < 64" for n
    using base64_char_facts [OF that] by metis
  moreover have "newline \<noteq> CHR ''=''" by (simp add: newline_def)
  ultimately show ?thesis
    by (induction der rule: base64.induct) (simp_all add: sextet)
qed

lemma slices_concat: "concat (slices s) = s"
  by (induction s rule: slices.induct) (subst slices.simps, simp)

lemma slices_lines: "x \<in> set (slices s) \<Longrightarrow> x \<noteq> [] \<and> length x \<le> 64 \<and> set x \<subseteq> set s"
proof (induction s rule: slices.induct)
  case (1 s)
  then show ?case
    using set_take_subset [of 64 s] set_drop_subset [of 64 s] slices.simps [of s]
    by (cases "s = []") (auto simp: subset_iff)
qed

text \<open>C36. What is written to quarantine is the key the device sent, in a form the documented PEM
  readers take: the text splits into the two marker lines around non-empty lines of at most 64
  characters, and the Base64 of these lines joined is the DER key, for every key.
\<close>

theorem derToPem_roundtrip:
  "\<exists>body. pem_lines (derToPem der) = Some body \<and> base64_decode (concat body) = der \<and>
          list_all (\<lambda>x. x \<noteq> [] \<and> length x \<le> 64) body"
proof -
  let ?body = "slices (base64 der)"
  have "list_all (\<lambda>x. newline \<notin> set x) ?body"
    using newline_not_in_base64 [of der] slices_lines [of _ "base64 der"] by (fastforce simp: list_all_iff)
  then have lines: "split_lines [] (derToPem der) =
      (''-----BEGIN PUBLIC KEY-----'' # ?body @ [''-----END PUBLIC KEY-----'']) @ [[]]"
    using split_lines_join [of "''-----BEGIN PUBLIC KEY-----''" "?body @ [''-----END PUBLIC KEY-----'']"]
    by (simp add: derToPem_def newline_def)
  have "pem_lines (derToPem der) = Some ?body"
    unfolding pem_lines_def lines by simp
  then show ?thesis
    using base64_decode_encode [of der] slices_lines [of _ "base64 der"]
    by (auto simp: slices_concat list_all_iff)
qed

end
