(* ===== verification/Gateway_World.thy ===== *)
theory Gateway_World
  imports Session_Asks Gateway_Registry Pool_Answers Core_Keys
begin

section \<open>The gateway with its pool and its key files\<close>

text \<open>
  \<open>Gateway._onConnection\<close> hands every session the same \<open>CryptoPool\<close> and the same key loader. Here the
  whole process runs: the gateway with all its sessions, the pool with its worker threads, and the
  calls of the loader on the file system, in any interleaving. A call of the pool or of the loader
  makes a promise; the handshake that awaits it is resumed with the promise's outcome, some time
  after it has settled.
\<close>

subsection \<open>A gateway is its sessions side by side\<close>

lemma hear_sessions:
  assumes "c < length (conns g)"
  shows "c_session (conns (fst (hear d now g fx)) ! c) = c_session (conns g ! c) \<and>
         length (conns (fst (hear d now g fx))) = length (conns g)"
  using assms
proof (induction fx arbitrary: g)
  case (Cons e fx)
  obtain g1 o1 where s: "(case e of EmitHandshake r \<Rightarrow> on_handshake d now g
      | EmitClose \<Rightarrow> on_close d now g | _ \<Rightarrow> (g, [])) = (g1, o1)" by fastforce
  then have "c_session (conns g1 ! c) = c_session (conns g ! c) \<and> length (conns g1) = length (conns g)"
    using Cons.prems
    by (cases "c = d"; cases e) (auto simp: on_handshake_def on_close_def Let_def split: if_splits)
  with Cons.IH [of g1] Cons.prems s show ?case by (simp add: split_beta)
qed simp

lemma hear_heard: "heard c (snd (hear d now g fx)) = (if c = d then fx else [])"
proof (induction fx arbitrary: g)
  case (Cons e fx)
  have "heard c (snd (case e of EmitHandshake r \<Rightarrow> on_handshake d now g
      | EmitClose \<Rightarrow> on_close d now g | _ \<Rightarrow> (g, []))) = []"
    by (cases e) (auto simp: on_handshake_def on_close_def Let_def)
  with Cons.IH show ?case by (cases "c = d") (auto simp: split_beta)
qed simp

lemma session_event_sessions:
  assumes "c < length (conns g)" and "session_event env d now e g = (g', out)"
  shows "length (conns g') = length (conns g)"
    and "c_session (conns g' ! c) = (if c = d then fst (session_step (env c) (c_session (conns g ! c)) e)
                                     else c_session (conns g ! c))"
    and "heard c out = (if c = d then snd (session_step (env c) (c_session (conns g ! c)) e) else [])"
proof -
  have "length (conns g') = length (conns g) \<and>
      c_session (conns g' ! c) = (if c = d then fst (session_step (env c) (c_session (conns g ! c)) e)
                                  else c_session (conns g ! c)) \<and>
      heard c out = (if c = d then snd (session_step (env c) (c_session (conns g ! c)) e) else [])"
  proof (cases "d < length (conns g)")
    case True
    let ?x = "conns g ! d"
    obtain s fx where st: "session_step (env d) (c_session ?x) e = (s, fx)" by fastforce
    let ?g1 = "set_conn d (?x\<lparr>c_session := s\<rparr>) g"
    have "(g', out) = hear d now ?g1 fx" using assms(2) True st by (simp add: session_event_def)
    with hear_sessions [of c ?g1 d now fx] hear_heard [of c d now ?g1 fx] assms(1) st True show ?thesis
      by (metis (no_types, lifting) conn.simps(1) fst_conv length_list_update nth_list_update_eq nth_list_update_neq
          set_conn_simps(1) snd_conv conn.select_convs(1) conn.surjective conn.update_convs(1))
  qed (use assms in \<open>auto simp: session_event_def\<close>)
  then show "length (conns g') = length (conns g)"
    and "c_session (conns g' ! c) = (if c = d then fst (session_step (env c) (c_session (conns g ! c)) e)
                                     else c_session (conns g ! c))"
    and "heard c out = (if c = d then snd (session_step (env c) (c_session (conns g ! c)) e) else [])" by blast+
qed

lemma disconnect_all_sessions:
  assumes "c < length (conns g)" and "disconnect_all env now cs g = (g', out)"
  shows "length (conns g') = length (conns g) \<and>
         (\<exists>n. run (session_step (env c)) (c_session (conns g ! c)) (replicate n CallDisconnect) =
                (c_session (conns g' ! c), heard c out))"
  using assms
proof (induction cs arbitrary: g out)
  case Nil
  then show ?case by (auto intro!: exI [of _ 0])
next
  case (Cons d cs)
  obtain g1 o1 where 1: "session_event env d now CallDisconnect g = (g1, o1)" by fastforce
  obtain g2 o2 where 2: "disconnect_all env now cs g1 = (g2, o2)" by fastforce
  note s = session_event_sessions [OF Cons.prems(1) 1]
  with Cons.prems 1 2 Cons.IH [of g1 o2] obtain n where
    n: "length (conns g') = length (conns g)" "out = o1 @ o2"
      "run (session_step (env c)) (c_session (conns g1 ! c)) (replicate n CallDisconnect) =
         (c_session (conns g' ! c), heard c o2)" by auto
  show ?case
  proof (cases "c = d")
    case True
    with n s show ?thesis by (intro conjI exI [of _ "Suc n"]) (simp_all add: run_Cons)
  next
    case False
    with n s show ?thesis by (intro conjI exI [of _ n]) simp_all
  qed
qed

text \<open>What an event of the gateway is for the session of connection \<open>c\<close>.\<close>

lemma gateway_sessions:
  assumes "gateway_step opts g e = (g', out)" and "c < length (conns g)"
  obtains evs where "run (session_step (g_env opts c)) (c_session (conns g ! c)) evs =
      (c_session (conns g' ! c), heard c out)"
    and "(\<exists>now ev. e = OnSession c now ev \<and> evs = [ev]) \<or>
         (\<forall>now ev. e \<noteq> OnSession c now ev) \<and> set evs \<subseteq> {CallDisconnect}"
proof -
  note result = that
  have quiet: thesis if "conns g' = conns g" "heard c out = []" "\<forall>now ev. e \<noteq> OnSession c now ev"
    using that by (intro result [of "[]"]) simp_all
  have rep: "heard c (replicate n (EmitGatewayError x)) = []" for n x by (induction n) simp_all
  show thesis
  proof (cases e)
    case (OnSession d now ev)
    with assms have "session_event (g_env opts) d now ev g = (g', out)" by simp
    from session_event_sessions [OF assms(2) this] OnSession show thesis
      by (cases "c = d") (auto simp: run_Cons intro: result [of "[ev]"] result [of "[]"])
  next
    case (Accept remote date now)
    let ?x = "\<lparr>c_session = new_session date, c_remote = remote, c_startedAt = now, handshakeSucceeded = False,
               once_handshake = True, once_close = True\<rparr>"
    let ?g1 = "g\<lparr>conns := conns g @ [?x], sessions := sessions g @ [length (conns g)]\<rparr>"
    obtain g2 fx where 1: "session_event (g_env opts) (length (conns g)) now CallRun ?g1 = (g2, fx)" by fastforce
    have "c < length (conns ?g1)" using assms(2) by simp
    note session_event_sessions [OF this 1]
    moreover have "g' = g2" "out = [SetNoDelay (length (conns g)), EmitConnection remote (length (conns g))] @ fx"
      using assms(1) Accept 1 by (simp_all add: on_connection_def Let_def)
    ultimately have "heard c out = [] \<and> c_session (conns g' ! c) = c_session (conns g ! c)"
      using assms(2) by (simp add: nth_append)
    with Accept show thesis by (intro result [of "[]"]) simp_all
  next
    case (Stop now)
    show thesis
    proof (cases "server g")
      case None
      with assms Stop show thesis by (intro quiet) (auto simp: gateway_stop_def)
    next
      case (Some i)
      obtain g1 o1 where d: "disconnect_all (g_env opts) now (sessions g) g = (g1, o1)" by fastforce
      from assms(1) Stop Some d have "conns g' = conns g1" "out = o1 @ [CloseListener i]"
        by (auto simp: gateway_stop_def Let_def)
      with disconnect_all_sessions [OF assms(2) d] obtain n where
        "run (session_step (g_env opts c)) (c_session (conns g ! c)) (replicate n CallDisconnect) =
           (c_session (conns g' ! c), heard c out)" by auto
      with Stop show thesis by (intro result [of "replicate n CallDisconnect"]) auto
    qed
  qed (use assms rep in \<open>auto intro!: quiet simp: gateway_start_def on_listening_def on_server_error_def Let_def
        split: if_splits option.splits\<close>)
qed

lemma gateway_conns:
  assumes "gateway_step opts g e = (g', out)"
  shows "(length (conns g') = length (conns g) \<and> (\<forall>c\<ge>length (conns g). heard c out = []) \<and>
            (\<forall>remote date now. e \<noteq> Accept remote date now)) \<or>
         (\<exists>remote date now. e = Accept remote date now \<and> length (conns g') = Suc (length (conns g)) \<and>
            run (session_step (g_env opts (length (conns g)))) (new_session date) [CallRun] =
              (c_session (conns g' ! length (conns g)), heard (length (conns g)) out) \<and>
            (\<forall>c>length (conns g). heard c out = []))"
proof -
  have ev: "length (conns (fst (session_event env d now ev h))) = length (conns h) \<and>
      (\<forall>c\<ge>length (conns h). heard c (snd (session_event env d now ev h)) = [])" for env d now ev h
  proof (cases "d < length (conns h)")
    case True
    obtain s fx where st: "session_step (env d) (c_session (conns h ! d)) ev = (s, fx)" by fastforce
    let ?h1 = "set_conn d ((conns h ! d)\<lparr>c_session := s\<rparr>) h"
    have "session_event env d now ev h = hear d now ?h1 fx" using True st by (simp add: session_event_def)
    with hear_sessions [of d ?h1 d now fx] hear_heard [of _ d now ?h1 fx] True show ?thesis by auto
  qed (simp add: session_event_def)
  have all: "length (conns (fst (disconnect_all env now ds h))) = length (conns h) \<and>
      (\<forall>c\<ge>length (conns h). heard c (snd (disconnect_all env now ds h)) = [])" for env now ds h
    by (induction ds arbitrary: h) (use ev in \<open>simp_all add: split_beta\<close>)
  have rep: "heard c (replicate n (EmitGatewayError x)) = []" for c n x by (induction n) simp_all
  show ?thesis
  proof (cases e)
    case (OnSession d now x)
    with assms ev [of "g_env opts" d now x g] show ?thesis by simp
  next
    case (Stop now)
    with assms all [of "g_env opts" now "sessions g" g] show ?thesis
      by (auto simp: gateway_stop_def split_beta Let_def split: option.splits)
  next
    case (Accept remote date now)
    let ?c = "length (conns g)"
    let ?x = "\<lparr>c_session = new_session date, c_remote = remote, c_startedAt = now, handshakeSucceeded = False,
               once_handshake = True, once_close = True\<rparr>"
    let ?g1 = "g\<lparr>conns := conns g @ [?x], sessions := sessions g @ [?c]\<rparr>"
    obtain g2 fx where 1: "session_event (g_env opts) ?c now CallRun ?g1 = (g2, fx)" by fastforce
    have "?c < length (conns ?g1)" by simp
    note session_event_sessions [OF this 1]
    moreover have "\<forall>d>?c. heard d fx = []" using ev [of "g_env opts" ?c now CallRun ?g1] 1 by auto
    moreover have "g' = g2" "out = [SetNoDelay ?c, EmitConnection remote ?c] @ fx"
      using assms Accept 1 by (simp_all add: on_connection_def Let_def)
    ultimately show ?thesis using Accept by (simp add: run_Cons)
  qed (use assms rep in \<open>auto simp: gateway_start_def on_listening_def on_server_error_def Let_def
        split: if_splits option.splits\<close>)
qed

subsection \<open>State and steps of the process\<close>

text \<open>Promises are numbered by the calls that made them: of the pool, and of the loader.\<close>

datatype promise = PoolPromise nat | KeyPromise nat

text \<open>\<open>awaits\<close> is the promise that the handshake of a connection is suspended at; \<open>settlement\<close> is how a
  promise has settled.\<close>

record ('pub, 'priv) world =
  w_gateway :: gateway
  w_pool :: "('pub, 'priv) pool_system"
  w_keys :: "file_system \<times> loader list"
  awaits :: "nat \<Rightarrow> promise option"
  settlement :: "promise \<Rightarrow> hs_reply option"

definition new_world :: "nat \<Rightarrow> file_system \<Rightarrow> ('pub, 'priv) world" where
  "new_world k fs =
     \<lparr>w_gateway = new_gateway, w_pool = new_system k, w_keys = (fs, []), awaits = Map.empty, settlement = Map.empty\<rparr>"

text \<open>A promise settles once; resolving or rejecting it again changes nothing.\<close>

definition settle_promise :: "promise \<Rightarrow> hs_reply \<Rightarrow> ('pub, 'priv) world \<Rightarrow> ('pub, 'priv) world" where
  "settle_promise p r w = (if settlement w p = None then w\<lparr>settlement := (settlement w)(p \<mapsto> r)\<rparr> else w)"

fun pool_settles :: "pool_effect list \<Rightarrow> ('pub, 'priv) world \<Rightarrow> ('pub, 'priv) world" where
  "pool_settles [] w = w"
| "pool_settles (Fulfil n b # fx) w = pool_settles fx (settle_promise (PoolPromise n) (GotBytes b) w)"
| "pool_settles (Refuse n e # fx) w = pool_settles fx (settle_promise (PoolPromise n) (Rejected e) w)"
| "pool_settles (_ # fx) w = pool_settles fx w"

definition pool_event :: "('pub, 'priv) node_crypto \<Rightarrow> label \<Rightarrow> ('pub, 'priv) world \<Rightarrow> ('pub, 'priv) world" where
  "pool_event node l w =
     (case pool_exec node (w_pool w) l of
        None \<Rightarrow> w
      | Some (fx, s) \<Rightarrow> pool_settles fx (w\<lparr>w_pool := s\<rparr>))"

fun loader_reply :: "js_error + string option \<Rightarrow> hs_reply" where
  "loader_reply (Inl e) = Rejected e"
| "loader_reply (Inr k) = GotKey k"

definition loader_event :: "string \<Rightarrow> nat \<Rightarrow> ('pub, 'priv) world \<Rightarrow> ('pub, 'priv) world" where
  "loader_event dir n w =
     (let (ks, xs) = keys_step dir (w_keys w) (Step n);
          w1 = w\<lparr>w_keys := ks\<rparr>
      in case xs of [] \<Rightarrow> w1 | (i, r) # _ \<Rightarrow> settle_promise (KeyPromise n) (loader_reply r) w1)"

text \<open>The call that the handshake of connection \<open>c\<close> makes and awaits. \<open>loadCoreKey\<close> runs at once up to
  its first await; \<open>encrypt\<close>, \<open>decrypt\<close> and \<open>sign\<close> post to a worker or queue the task at once.\<close>

fun pool_call :: "hs_request \<Rightarrow> call option" where
  "pool_call (PoolDecrypt pem b) = Some (Decrypt pem b)"
| "pool_call (PoolEncrypt pem b) = Some (Encrypt pem b)"
| "pool_call (PoolSign pem b) = Some (Sign pem b)"
| "pool_call q = None"

fun ask :: "('pub, 'priv) node_crypto \<Rightarrow> string \<Rightarrow> nat \<Rightarrow> hs_request \<Rightarrow> ('pub, 'priv) world \<Rightarrow> ('pub, 'priv) world" where
  "ask node dir c (LoadCoreKey i der) w =
     (let n = length (snd (w_keys w)) in
      loader_event dir n (w\<lparr>w_keys := fst (keys_step dir (w_keys w) (Core_Keys.Call i der)),
                           awaits := (awaits w)(c \<mapsto> KeyPromise n)\<rparr>))"
| "ask node dir c q w =
     (case pool_call q of
        None \<Rightarrow> w
      | Some call \<Rightarrow>
          pool_event node (Crypto_Pool.Call call)
            (w\<lparr>awaits := (awaits w)(c \<mapsto> PoolPromise (p_calls (the_pool (w_pool w))))\<rparr>))"

fun make_calls :: "('pub, 'priv) node_crypto \<Rightarrow> string \<Rightarrow> gateway_effect list \<Rightarrow> ('pub, 'priv) world \<Rightarrow> ('pub, 'priv) world" where
  "make_calls node dir [] w = w"
| "make_calls node dir (FromSession c (Ask q) # out) w = make_calls node dir out (ask node dir c q w)"
| "make_calls node dir (_ # out) w = make_calls node dir out w"

definition gateway_runs ::
    "('pub, 'priv) node_crypto \<Rightarrow> string \<Rightarrow> gateway_opts \<Rightarrow> gateway_event \<Rightarrow> ('pub, 'priv) world \<Rightarrow>
     ('pub, 'priv) world \<times> gateway_effect list" where
  "gateway_runs node dir opts e w =
     (let (g, out) = gateway_step opts (w_gateway w) e in (make_calls node dir out (w\<lparr>w_gateway := g\<rparr>), out))"

text \<open>
  An event of the process: one of the gateway (the answers to its sessions apart); a call of the pool
  by the host, or what a worker or the closing of the pool does; a file operation of a call of the
  loader; or the continuation of a handshake whose promise has settled.
\<close>

datatype world_event = OfGateway gateway_event | OfPool label | OfLoader nat | Continue nat int

fun answers_session :: "gateway_event \<Rightarrow> bool" where
  "answers_session (OnSession c now (Settle r)) \<longleftrightarrow> True"
| "answers_session _ \<longleftrightarrow> False"

fun world_step ::
    "('pub, 'priv) node_crypto \<Rightarrow> string \<Rightarrow> gateway_opts \<Rightarrow> ('pub, 'priv) world \<Rightarrow> world_event \<Rightarrow>
     ('pub, 'priv) world \<times> gateway_effect list" where
  "world_step node dir opts w (OfGateway e) = (if answers_session e then (w, []) else gateway_runs node dir opts e w)"
| "world_step node dir opts w (OfPool l) = (pool_event node l w, [])"
| "world_step node dir opts w (OfLoader n) = (loader_event dir n w, [])"
| "world_step node dir opts w (Continue c now) =
     (case awaits w c of
        None \<Rightarrow> (w, [])
      | Some p \<Rightarrow>
          (case settlement w p of
             None \<Rightarrow> (w, [])
           | Some r \<Rightarrow> gateway_runs node dir opts (OnSession c now (Settle r)) (w\<lparr>awaits := (awaits w)(c := None)\<rparr>)))"

end
