(* ===== verification/World_Links.thy ===== *)
theory World_Links
  imports Gateway_World
begin

section \<open>Who waits for what in the process\<close>

text \<open>
  The invariant of theory \<open>Gateway_World\<close>: the pool runs as theory \<open>Crypto_Pool\<close> says and its
  promises are settled as it settles them (\<open>pool_part\<close>); so does the loader (\<open>keys_part\<close>); a session
  awaits a promise exactly when its handshake is suspended at a call, and the promise is that of
  the call (\<open>waits\<close>); and what its handshake has been answered is true (\<open>seat\<close>).
\<close>

subsection \<open>The pool\<close>

definition told :: "pool_effect list \<Rightarrow> nat \<Rightarrow> hs_reply \<Rightarrow> bool" where
  "told fx n r \<longleftrightarrow> (\<exists>b. r = GotBytes b \<and> Fulfil n b \<in> set fx) \<or> (\<exists>e. r = Rejected e \<and> Refuse n e \<in> set fx)"

lemma told_mono: "told fx n r \<Longrightarrow> set fx \<subseteq> set gx \<Longrightarrow> told gx n r"
  by (auto simp: told_def)

lemma settle_promise_simps [simp]:
  "w_gateway (settle_promise p r w) = w_gateway w" "w_pool (settle_promise p r w) = w_pool w"
  "w_keys (settle_promise p r w) = w_keys w" "awaits (settle_promise p r w) = awaits w"
  "settlement (settle_promise p r w) q = (if q = p \<and> settlement w p = None then Some r else settlement w q)"
  by (auto simp: settle_promise_def)

lemma pool_settles_simps [simp]:
  "w_gateway (pool_settles fx w) = w_gateway w" "w_pool (pool_settles fx w) = w_pool w"
  "w_keys (pool_settles fx w) = w_keys w" "awaits (pool_settles fx w) = awaits w"
  "settlement (pool_settles fx w) (KeyPromise n) = settlement w (KeyPromise n)"
  by (induction fx w rule: pool_settles.induct) simp_all

lemma pool_settles_keeps: "settlement w p \<noteq> None \<Longrightarrow> settlement (pool_settles fx w) p = settlement w p"
  by (induction fx w rule: pool_settles.induct) auto

lemma pool_settles_told:
  "settlement (pool_settles fx w) (PoolPromise n) = Some r \<Longrightarrow> settlement w (PoolPromise n) = Some r \<or> told fx n r"
  by (induction fx w rule: pool_settles.induct) (auto simp: told_def split: if_splits)

lemma pool_settles_all: "0 < settled n fx \<Longrightarrow> settlement (pool_settles fx w) (PoolPromise n) \<noteq> None"
proof (induction fx w rule: pool_settles.induct)
  case (2 m b fx w)
  let ?w = "settle_promise (PoolPromise m) (GotBytes b) w"
  have "settlement ?w (PoolPromise m) \<noteq> None" by simp
  with 2 pool_settles_keeps [of ?w "PoolPromise m" fx] show ?case by (cases "m = n") simp_all
next
  case (3 m e fx w)
  let ?w = "settle_promise (PoolPromise m) (Rejected e) w"
  have "settlement ?w (PoolPromise m) \<noteq> None" by simp
  with 3 pool_settles_keeps [of ?w "PoolPromise m" fx] show ?case by (cases "m = n") simp_all
qed simp_all

definition pool_part ::
    "('pub, 'priv) node_crypto \<Rightarrow> nat \<Rightarrow> label list \<Rightarrow> pool_effect list \<Rightarrow> ('pub, 'priv) world \<Rightarrow> bool" where
  "pool_part node k ls fx w \<longleftrightarrow>
     pool_run node (new_system k) ls fx (w_pool w) \<and>
     (\<forall>n r. settlement w (PoolPromise n) = Some r \<longrightarrow> told fx n r) \<and>
     (\<forall>n. 0 < settled n fx \<longrightarrow> settlement w (PoolPromise n) \<noteq> None)"

lemma pool_part_cong:
  "w_pool w' = w_pool w \<Longrightarrow> (\<And>n. settlement w' (PoolPromise n) = settlement w (PoolPromise n)) \<Longrightarrow>
   pool_part node k ls fx w' = pool_part node k ls fx w"
  by (simp add: pool_part_def)

lemma pool_part_calls: "pool_part node k ls fx w \<Longrightarrow> p_calls (the_pool (w_pool w)) = length (asked ls)"
  using run_accounted [of node k ls fx "w_pool w"] by (simp add: pool_part_def accounted_def)

lemma pool_event_part:
  assumes "pool_part node k ls fx w" and "pool_exec node (w_pool w) l = Some (gx, s)"
  shows "pool_part node k (ls @ [l]) (fx @ gx) (pool_event node l w)"
proof -
  let ?w = "w\<lparr>w_pool := s\<rparr>"
  have e: "pool_event node l w = pool_settles gx ?w" using assms(2) by (simp add: pool_event_def)
  have "pool_run node (new_system k) (ls @ [l]) (fx @ gx) s"
    using assms pool_run.step by (auto simp: pool_part_def pool_step_exec)
  moreover have "told (fx @ gx) n r" if "settlement (pool_settles gx ?w) (PoolPromise n) = Some r" for n r
    using pool_settles_told [OF that] assms(1) told_mono [of fx n r "fx @ gx"] told_mono [of gx n r "fx @ gx"]
    by (auto simp: pool_part_def)
  moreover have "settlement (pool_settles gx ?w) (PoolPromise n) \<noteq> None" if "0 < settled n (fx @ gx)" for n
    using that assms(1) pool_settles_all [of n gx ?w] pool_settles_keeps [of ?w "PoolPromise n" gx]
    by (cases "settled n gx") (auto simp: pool_part_def)
  ultimately show ?thesis by (simp add: e pool_part_def)
qed

lemma pool_event_none: "pool_exec node (w_pool w) l = None \<Longrightarrow> pool_event node l w = w"
  by (simp add: pool_event_def)

lemma pool_event_simps [simp]:
  "w_gateway (pool_event node l w) = w_gateway w" "w_keys (pool_event node l w) = w_keys w"
  "awaits (pool_event node l w) = awaits w"
  "settlement (pool_event node l w) (KeyPromise n) = settlement w (KeyPromise n)"
  by (simp_all add: pool_event_def split: option.split prod.split)

subsection \<open>The loader\<close>

text \<open>How the promise of a call has settled.\<close>

definition told_key :: "string \<Rightarrow> file_system \<Rightarrow> hs_reply option \<Rightarrow> loader \<Rightarrow> bool" where
  "told_key dir fs0 r l \<longleftrightarrow>
     (case ld_pc l of
        Answered a \<Rightarrow> r = Some (loader_reply a) \<and> keys_good dir fs0 (ld_id l, a)
      | _ \<Rightarrow> r = None)"

definition keys_part :: "string \<Rightarrow> file_system \<Rightarrow> ('pub, 'priv) world \<Rightarrow> bool" where
  "keys_part dir fs0 w \<longleftrightarrow>
     keys_inv dir fs0 (w_keys w) \<and>
     (\<forall>n. settlement w (KeyPromise n) \<noteq> None \<longrightarrow> n < length (snd (w_keys w))) \<and>
     (\<forall>n<length (snd (w_keys w)). told_key dir fs0 (settlement w (KeyPromise n)) (snd (w_keys w) ! n))"

text \<open>Loader calls are added, and go on; whose they are does not change.\<close>

definition extends :: "loader list \<Rightarrow> loader list \<Rightarrow> bool" where
  "extends ls ls' \<longleftrightarrow>
     length ls \<le> length ls' \<and> (\<forall>n<length ls. ld_id (ls' ! n) = ld_id (ls ! n) \<and> ld_der (ls' ! n) = ld_der (ls ! n))"

lemma extends_refl [simp]: "extends ls ls"
  by (simp add: extends_def)

lemma extends_trans: "extends a b \<Longrightarrow> extends b c \<Longrightarrow> extends a c"
  by (auto simp: extends_def)

lemma loader_step_owner:
  "ld_id (snd (loader_step dir fs l)) = ld_id l" "ld_der (snd (loader_step dir fs l)) = ld_der l"
  by (simp_all add: loader_eval split: loader_pc.split sum.split)

lemma loader_event_simps [simp]:
  "w_gateway (loader_event dir n w) = w_gateway w" "w_pool (loader_event dir n w) = w_pool w"
  "awaits (loader_event dir n w) = awaits w"
  "settlement (loader_event dir n w) (PoolPromise m) = settlement w (PoolPromise m)"
  by (simp_all add: loader_event_def Let_def split: prod.split list.split)

lemma loader_event_part:
  assumes "keys_part dir fs0 w"
  shows "keys_part dir fs0 (loader_event dir n w)" and "extends (snd (w_keys w)) (snd (w_keys (loader_event dir n w)))"
proof -
  obtain fs ls where k: "w_keys w = (fs, ls)" by fastforce
  have "keys_part dir fs0 (loader_event dir n w) \<and> extends ls (snd (w_keys (loader_event dir n w)))"
  proof (cases "n < length ls")
    case True
    obtain fs' l' where st: "loader_step dir fs (ls ! n) = (fs', l')" by fastforce
    have inv: "keys_inv dir fs0 (fs', ls[n := l'])" and good: "list_all (keys_good dir fs0) (given (ls ! n) l')"
      using keys_step_inv [of dir fs0 "(fs, ls)" "Step n"] assms True st by (simp_all add: keys_part_def k)
    have own: "ld_id l' = ld_id (ls ! n)" "ld_der l' = ld_der (ls ! n)"
      using loader_step_owner [of dir fs "ls ! n"] by (simp_all add: st)
    have w: "loader_event dir n w = (case given (ls ! n) l' of [] \<Rightarrow> w\<lparr>w_keys := (fs', ls[n := l'])\<rparr>
        | (i, r) # _ \<Rightarrow> settle_promise (KeyPromise n) (loader_reply r) (w\<lparr>w_keys := (fs', ls[n := l'])\<rparr>))"
      using True st by (simp add: loader_event_def k Let_def)
    have old: "told_key dir fs0 (settlement w (KeyPromise m)) (ls ! m)" if "m < length ls" for m
      using assms that by (simp add: keys_part_def k)
    have bound: "\<And>m. settlement w (KeyPromise m) \<noteq> None \<Longrightarrow> m < length ls" using assms by (simp add: keys_part_def k)
    have "keys_part dir fs0 (loader_event dir n w)"
    proof (cases "\<exists>a. ld_pc (ls ! n) = Answered a")
      case True
      then have "fs' = fs" "l' = ls ! n" using st by (auto simp: loader_step_def)
      with True have "loader_event dir n w = w" unfolding w by (auto simp: given_def k)
      with assms show ?thesis by simp
    next
      case False
      then have none: "settlement w (KeyPromise n) = None" using old [OF True] by (simp add: told_key_def split: loader_pc.splits)
      show ?thesis
      proof (cases "ld_pc l'")
        case (Answered a)
        with False have g: "given (ls ! n) l' = [(ld_id (ls ! n), a)]"
          by (simp add: given_def own split: loader_pc.split)
        with good have "keys_good dir fs0 (ld_id (ls ! n), a)" by simp
        with g inv old bound none True Answered own show ?thesis
          unfolding w keys_part_def by (auto simp: nth_list_update told_key_def [of _ _ _ l'])
      qed (use inv old bound none True False own in
            \<open>auto simp: w given_def keys_part_def nth_list_update told_key_def [of _ _ _ l'] split: loader_pc.splits\<close>)
    qed
    moreover have "snd (w_keys (loader_event dir n w)) = ls[n := l']" unfolding w by (simp split: list.split prod.split)
    ultimately show ?thesis using own True by (auto simp: extends_def nth_list_update)
  qed (use assms in \<open>auto simp: loader_event_def k keys_part_def\<close>)
  then show "keys_part dir fs0 (loader_event dir n w)" and "extends (snd (w_keys w)) (snd (w_keys (loader_event dir n w)))"
    by (simp_all add: k)
qed

lemma loader_call_part:
  assumes "keys_part dir fs0 w"
    and "w' = w\<lparr>w_keys := fst (keys_step dir (w_keys w) (Core_Keys.Call i der)), awaits := a\<rparr>"
  shows "keys_part dir fs0 w'" and "extends (snd (w_keys w)) (snd (w_keys w'))"
    and "length (snd (w_keys w')) = Suc (length (snd (w_keys w)))"
    and "ld_id (snd (w_keys w') ! length (snd (w_keys w))) = i"
    and "ld_der (snd (w_keys w') ! length (snd (w_keys w))) = der"
proof -
  obtain fs ls where k: "w_keys w = (fs, ls)" by fastforce
  have new: "settlement w (KeyPromise (length ls)) = None" using assms(1) by (auto simp: keys_part_def k)
  have "keys_inv dir fs0 (fst (keys_step dir (w_keys w) (Core_Keys.Call i der)))"
    using keys_step_inv(1) assms(1) by (simp add: keys_part_def)
  moreover have "told_key dir fs0 None \<lparr>ld_id = i, ld_der = der, ld_pc = AtCall\<rparr>" by (simp add: told_key_def)
  ultimately show "keys_part dir fs0 w'" using assms new
    by (auto simp: keys_part_def k nth_append less_Suc_eq)
qed (use assms(2) in \<open>cases "w_keys w"; simp add: extends_def nth_append\<close>)+

subsection \<open>Promises and questions\<close>

text \<open>The promise is that of a call which asks the question.\<close>

fun promise_for :: "call list \<Rightarrow> loader list \<Rightarrow> promise \<Rightarrow> hs_request \<Rightarrow> bool" where
  "promise_for cs ls (PoolPromise n) q \<longleftrightarrow> n < length cs \<and> pool_call q = Some (cs ! n)"
| "promise_for cs ls (KeyPromise n) q \<longleftrightarrow> n < length ls \<and> q = LoadCoreKey (ld_id (ls ! n)) (ld_der (ls ! n))"

lemma promise_for_mono: "promise_for cs ls p q \<Longrightarrow> extends ls ls' \<Longrightarrow> promise_for (cs @ ds) ls' p q"
  by (cases p) (auto simp: nth_append extends_def)

text \<open>A true answer: what the operation computes under the key that was asked for, the key that the
  operator has filed under the id; any bytes of the socket; or a failure.\<close>

fun truthful ::
    "('pub, 'priv) node_crypto \<Rightarrow> string \<Rightarrow> file_system \<Rightarrow> hs_request option \<times> hs_reply \<Rightarrow> bool" where
  "truthful node dir fs0 (None, r) \<longleftrightarrow> False"
| "truthful node dir fs0 (Some q, Rejected e) \<longleftrightarrow> True"
| "truthful node dir fs0 (Some (LoadCoreKey i der), GotKey k) \<longleftrightarrow>
     (\<forall>text. k = Some text \<longrightarrow> isValidDeviceId i \<and> readFile fs0 (canonical dir i) = Inr text)"
| "truthful node dir fs0 (Some (LoadCoreKey i der), GotBytes b) \<longleftrightarrow> False"
| "truthful node dir fs0 (Some q, GotKey k) \<longleftrightarrow> False"
| "truthful node dir fs0 (Some (PoolDecrypt pem c), GotBytes b) \<longleftrightarrow>
     (\<exists>key. load_priv node pem = Inr key \<and> rsaDecrypt (node_rsa node) key c = Inr b)"
| "truthful node dir fs0 (Some (PoolEncrypt pem m), GotBytes b) \<longleftrightarrow>
     (\<exists>key rnd. load_pub node pem = Inr key \<and> rsaEncrypt (node_rsa node) key rnd m = Inr b)"
| "truthful node dir fs0 (Some (PoolSign pem h), GotBytes b) \<longleftrightarrow>
     (\<exists>key. load_priv node pem = Inr key \<and> rsaSign (node_rsa node) key h = Inr b)"
| "truthful node dir fs0 (Some q, GotBytes b) \<longleftrightarrow> True"

lemma truthful_kind: "truthful node dir fs0 x \<Longrightarrow> kind_ok x"
  by (induction node dir fs0 x rule: truthful.induct) auto

lemma promise_truth:
  assumes "pool_part node k ls fx w" and "keys_part dir fs0 w"
    and "settlement w p = Some r" and "promise_for (Pool_Accounts.asked ls) (snd (w_keys w)) p q"
  shows "truthful node dir fs0 (Some q, r)"
proof (cases p)
  case (PoolPromise n)
  with assms have t: "told fx n r" and q: "pool_call q = Some (Pool_Accounts.asked ls ! n)"
    and run: "pool_run node (new_system k) ls fx (w_pool w)" by (auto simp: pool_part_def)
  show ?thesis
  proof (cases "\<exists>b. r = GotBytes b \<and> Fulfil n b \<in> set fx")
    case True
    then obtain b where b: "r = GotBytes b" "Fulfil n b \<in> set fx" by blast
    obtain c where c: "Pool_Accounts.asked ls ! n = c" by blast
    from run_right [OF run b(2)] obtain rnd where "serve node rnd (task_of c) = Inr b" by (auto simp: c)
    with q b(1) show ?thesis by (cases q) (fastforce simp: c serve_def bindE_Inr_iff)+
  qed (use t in \<open>cases q; auto simp: told_def\<close>)
next
  case (KeyPromise n)
  with assms(4) have n: "n < length (snd (w_keys w))"
    and q: "q = LoadCoreKey (ld_id (snd (w_keys w) ! n)) (ld_der (snd (w_keys w) ! n))" by simp_all
  from n assms(2,3) KeyPromise have "told_key dir fs0 (Some r) (snd (w_keys w) ! n)"
    by (auto simp: keys_part_def dest: spec [of _ n])
  then obtain a where "r = loader_reply a" "keys_good dir fs0 (ld_id (snd (w_keys w) ! n), a)"
    by (auto simp: told_key_def split: loader_pc.splits)
  with q show ?thesis by (cases a) (auto simp: keys_good_def)
qed

subsection \<open>The sessions\<close>

text \<open>The session of connection \<open>c\<close>.\<close>

abbreviation session_of :: "('pub, 'priv) world \<Rightarrow> nat \<Rightarrow> session" where
  "session_of w c \<equiv> c_session (conns (w_gateway w) ! c)"

text \<open>It awaits a promise exactly when its handshake is suspended at a call, and that of the call.\<close>

definition waits :: "gateway_opts \<Rightarrow> call list \<Rightarrow> ('pub, 'priv) world \<Rightarrow> nat \<Rightarrow> bool" where
  "waits opts cs w c \<longleftrightarrow>
     (case awaits w c of
        None \<Rightarrow> \<forall>q. \<not> awaits_answer (g_env opts c) (session_of w c) q
      | Some p \<Rightarrow> \<exists>q. awaits_answer (g_env opts c) (session_of w c) q \<and> promise_for cs (snd (w_keys w)) p q)"

text \<open>It has run on true answers, and its socket has brought \<open>bytes\<close>.\<close>

definition seat ::
    "('pub, 'priv) node_crypto \<Rightarrow> string \<Rightarrow> file_system \<Rightarrow> hs_env \<Rightarrow> session \<Rightarrow> effect list \<Rightarrow> bytes \<Rightarrow> bool" where
  "seat node dir fs0 env s fx bytes \<longleftrightarrow>
     (\<exists>date es. run (session_step env) (new_session date) (CallRun # es) = (s, fx) \<and> received es = bytes \<and>
        list_all (truthful node dir fs0) (exchanges env (new_session date) (CallRun # es)))"

lemma waits_mono:
  assumes "waits opts cs w c" and "extends (snd (w_keys w)) (snd (w_keys w'))"
    and "awaits w' c = awaits w c" and "task (session_of w' c) = task (session_of w c)"
  shows "waits opts (cs @ ds) w' c"
  using assms(1) promise_for_mono [OF _ assms(2), of cs _ _ ds]
  by (auto simp: waits_def assms(3) still_awaits [OF assms(4)] split: option.splits)

lemma seat_started: "seat node dir fs0 env s fx b \<Longrightarrow> task s \<noteq> NotRun"
proof -
  have *: "task s \<noteq> NotRun \<Longrightarrow> task (fst (run (session_step env) s es)) \<noteq> NotRun" for s es
  proof (induction es arbitrary: s)
    case (Cons e es)
    then have "task (fst (session_step env s e)) \<noteq> NotRun" using step_life [of s env e] by (auto simp: life_step_def)
    from Cons.IH [OF this] show ?case by (simp add: run_Cons)
  qed simp
  assume "seat node dir fs0 env s fx b"
  then obtain date es where r: "run (session_step env) (new_session date) (CallRun # es) = (s, fx)"
    by (auto simp: seat_def)
  have "task (fst (start_run env (new_session date))) \<noteq> NotRun"
    by (simp add: start_run_eq read_queue_def wake_def)
  from * [OF this, of es] r show ?thesis by (simp add: run_Cons new_session_def)
qed

lemma seat_opening: "seat node dir fs0 env s fx b \<Longrightarrow> awaits_answer env s q \<Longrightarrow> \<exists>g w. opening_at env g w s"
  using run_opening by (auto simp: seat_def awaits_answer_def)

lemma input_truthful:
  assumes "hs_input s e = Some (hs, reply)"
    and "\<And>r. e = Settle r \<Longrightarrow> \<exists>q. awaits_answer env s q \<and> truthful node dir fs0 (Some q, r)"
  shows "truthful node dir fs0 (awaited env (pc hs), reply)"
proof (cases e)
  case (Settle r)
  with assms(1) have "task s = InHandshake hs" "reply = r" by (auto split: task.splits if_splits)
  with assms(2) [OF Settle] show ?thesis by (auto simp: awaits_answer_def)
next
  case Micro
  with assms(1) have "reads_queue (pc hs)" "\<exists>r. read_reply r = Some reply"
    by (auto split: task.splits list.splits if_splits)
  moreover have "read_reply r = Some reply \<Longrightarrow> \<forall>k. reply \<noteq> GotKey k" for r by (cases r rule: read_reply.cases) auto
  ultimately show ?thesis by (cases "pc hs"; cases reply) auto
qed (use assms(1) in simp_all)

lemma seat_event:
  assumes "seat node dir fs0 env s fx b" and "session_step env s e = (s', gx)"
    and "\<And>r. e = Settle r \<Longrightarrow> \<exists>q. awaits_answer env s q \<and> truthful node dir fs0 (Some q, r)"
  shows "seat node dir fs0 env s' (fx @ gx) (b @ chunk e)"
proof -
  from assms(1) obtain date es where r: "run (session_step env) (new_session date) (CallRun # es) = (s, fx)"
    and b: "received es = b" and t: "list_all (truthful node dir fs0) (exchanges env (new_session date) (CallRun # es))"
    by (auto simp: seat_def)
  have "run (session_step env) (new_session date) (CallRun # (es @ [e])) = (s', fx @ gx)"
    using r assms(2) run_append [of "session_step env" "new_session date" "CallRun # es" "[e]"] by (simp add: run_Cons)
  moreover have "received (es @ [e]) = b @ chunk e" using b by (simp add: received_def)
  moreover have "list_all (truthful node dir fs0) (exchanges env s [e])"
    using assms(3) by (auto split: option.split intro: input_truthful)
  then have "list_all (truthful node dir fs0) (exchanges env (new_session date) (CallRun # (es @ [e])))"
    using t r exchanges_append [of env "new_session date" "CallRun # es" "[e]"] by simp
  ultimately show ?thesis unfolding seat_def by blast
qed

end
