(* ===== verification/World_Runs.thy ===== *)
theory World_Runs
  imports World_Links
begin

section \<open>Runs of the whole process\<close>

text \<open>
  The links of theory \<open>World_Links\<close> hold in every run of the process. So the handshakes of all
  sessions are answered truly, whatever the interleaving, and what is known of a handshake with true
  answers holds of every session that the gateway announces.
\<close>

subsection \<open>One call\<close>

text \<open>Both services of the process, after the labels \<open>ls\<close> of the pool.\<close>

definition services ::
    "('pub, 'priv) node_crypto \<Rightarrow> nat \<Rightarrow> string \<Rightarrow> file_system \<Rightarrow> label list \<Rightarrow> pool_effect list \<Rightarrow>
     ('pub, 'priv) world \<Rightarrow> bool" where
  "services node k dir fs0 ls fx w \<longleftrightarrow> pool_part node k ls fx w \<and> keys_part dir fs0 w"

text \<open>The labels are \<open>ls\<close> and then calls of the sessions.\<close>

definition only_calls :: "label list \<Rightarrow> label list \<Rightarrow> bool" where
  "only_calls ls ls' \<longleftrightarrow> (\<exists>cs. ls' = ls @ map Crypto_Pool.Call cs)"

lemma only_calls_refl [simp]: "only_calls ls ls"
  by (auto simp: only_calls_def intro: exI [of _ "[]"])

lemma only_calls_trans: "only_calls a b \<Longrightarrow> only_calls b c \<Longrightarrow> only_calls a c"
  by (auto simp: only_calls_def simp flip: map_append)

lemma only_calls_asked: "only_calls ls ls' \<Longrightarrow> \<exists>ds. Pool_Accounts.asked ls' = Pool_Accounts.asked ls @ ds"
  by (auto simp: only_calls_def)

lemma pool_call_made:
  assumes "services node k dir fs0 ls fx w"
    and "w' = pool_event node (Crypto_Pool.Call call) (w\<lparr>awaits := a\<rparr>)"
  shows "\<exists>fx'. services node k dir fs0 (ls @ [Crypto_Pool.Call call]) fx' w'" and "awaits w' = a"
    and "w_keys w' = w_keys w" and "w_gateway w' = w_gateway w"
proof -
  obtain gx s where e: "pool_exec node (w_pool (w\<lparr>awaits := a\<rparr>)) (Crypto_Pool.Call call) = Some (gx, s)"
    by (cases "call_pool call (the_pool (w_pool w))") simp
  have "pool_part node k ls fx (w\<lparr>awaits := a\<rparr>)" using assms(1) by (simp add: services_def pool_part_def)
  from pool_event_part [OF this e] assms(1)
  show "\<exists>fx'. services node k dir fs0 (ls @ [Crypto_Pool.Call call]) fx' w'"
    unfolding assms(2) services_def by (auto simp: keys_part_def)
qed (simp_all add: assms(2))

lemma ask_linked:
  assumes "services node k dir fs0 ls fx w" and "awaits_answer env s q"
  obtains ls' fx' p where "services node k dir fs0 ls' fx' (ask node dir c q w)" and "only_calls ls ls'"
    and "extends (snd (w_keys w)) (snd (w_keys (ask node dir c q w)))"
    and "awaits (ask node dir c q w) = (awaits w)(c \<mapsto> p)" and "w_gateway (ask node dir c q w) = w_gateway w"
    and "promise_for (Pool_Accounts.asked ls') (snd (w_keys (ask node dir c q w))) p q"
proof -
  note result = that
  have pool: thesis if "pool_call q = Some call" "\<forall>i der. q \<noteq> LoadCoreKey i der" for call
  proof -
    let ?p = "PoolPromise (length (Pool_Accounts.asked ls))"
    have "p_calls (the_pool (w_pool w)) = length (Pool_Accounts.asked ls)"
      using assms(1) pool_part_calls by (auto simp: services_def)
    with that have a: "ask node dir c q w = pool_event node (Crypto_Pool.Call call) (w\<lparr>awaits := (awaits w)(c \<mapsto> ?p)\<rparr>)"
      by (cases q) simp_all
    note m = pool_call_made [OF assms(1) a]
    from m(1) obtain fx' where "services node k dir fs0 (ls @ [Crypto_Pool.Call call]) fx' (ask node dir c q w)" ..
    then show thesis
      by (rule result [where p = ?p]) (use m(2-4) that(1) in \<open>auto simp: only_calls_def intro: exI [of _ "[call]"]\<close>)
  qed
  show thesis
  proof (cases q)
    case (LoadCoreKey i der)
    let ?n = "length (snd (w_keys w))"
    let ?w = "w\<lparr>w_keys := fst (keys_step dir (w_keys w) (Core_Keys.Call i der)), awaits := (awaits w)(c \<mapsto> KeyPromise ?n)\<rparr>"
    have a: "ask node dir c q w = loader_event dir ?n ?w" by (simp add: LoadCoreKey Let_def)
    have p: "pool_part node k ls fx w" and kp: "keys_part dir fs0 w" using assms(1) by (simp_all add: services_def)
    note call = loader_call_part [OF kp refl, where i = i and der = der and a = "(awaits w)(c \<mapsto> KeyPromise ?n)"]
    note step = loader_event_part [OF call(1), of ?n]
    have "pool_part node k ls fx (loader_event dir ?n ?w)" using p by (simp add: pool_part_def)
    with step(1) have "services node k dir fs0 ls fx (ask node dir c q w)" by (simp add: services_def a)
    moreover have "extends (snd (w_keys w)) (snd (w_keys (ask node dir c q w)))"
      using extends_trans [OF call(2) step(2)] by (simp add: a)
    moreover have "promise_for cs (snd (w_keys (ask node dir c q w))) (KeyPromise ?n) q" for cs
      unfolding a using step(2) call(3-5) by (simp add: LoadCoreKey extends_def)
    moreover have "awaits (ask node dir c q w) = (awaits w)(c \<mapsto> KeyPromise ?n)"
      "w_gateway (ask node dir c q w) = w_gateway w" unfolding a by simp_all
    ultimately show thesis using result [OF _ only_calls_refl] by blast
  qed (use assms(2) pool in \<open>auto simp: awaits_answer_def elim: asks.elims\<close>)
qed

subsection \<open>The calls of one event\<close>

text \<open>After the sessions have moved: either a session has just asked, or it awaits what it should.\<close>

definition fresh :: "gateway_opts \<Rightarrow> call list \<Rightarrow> ('pub, 'priv) world \<Rightarrow> gateway_effect list \<Rightarrow> nat \<Rightarrow> bool" where
  "fresh opts cs w out c \<longleftrightarrow>
     (\<exists>q. asks_in (heard c out) = [q] \<and> awaits_answer (g_env opts c) (session_of w c) q) \<or>
     asks_in (heard c out) = [] \<and> waits opts cs w c"

lemma fresh_skip: "asks_in (heard c [e]) = [] \<Longrightarrow> fresh opts cs w (e # out) c = fresh opts cs w out c"
proof -
  have "heard c (e # out) = heard c [e] @ heard c out" using heard_append [of c "[e]" out] by simp
  then show "asks_in (heard c [e]) = [] \<Longrightarrow> ?thesis" by (simp add: fresh_def)
qed

lemma fresh_mono:
  assumes "fresh opts cs w out c" and "extends (snd (w_keys w)) (snd (w_keys w'))"
    and "awaits w' c = awaits w c" and "w_gateway w' = w_gateway w"
  shows "fresh opts (cs @ ds) w' out c"
  using assms waits_mono [of opts cs w c w' ds] by (auto simp: fresh_def)

lemma no_call:
  assumes "\<nexists>c q. e = FromSession c (Ask q)"
  shows "make_calls node dir (e # out) w = make_calls node dir out w" and "asks_in (heard c [e]) = []"
proof -
  have "make_calls node dir (e # out) w = make_calls node dir out w \<and> asks_in (heard c [e]) = []"
  proof (cases e)
    case (FromSession d x)
    with assms show ?thesis by (cases x) simp_all
  qed simp_all
  then show "make_calls node dir (e # out) w = make_calls node dir out w" and "asks_in (heard c [e]) = []" by simp_all
qed

lemma make_calls_linked:
  assumes "services node k dir fs0 ls fx w" and "\<forall>c<n. fresh opts (Pool_Accounts.asked ls) w out c"
    and "\<forall>c\<ge>n. awaits w c = None \<and> asks_in (heard c out) = []"
  shows "\<exists>ls' fx'. services node k dir fs0 ls' fx' (make_calls node dir out w) \<and> only_calls ls ls' \<and>
           w_gateway (make_calls node dir out w) = w_gateway w \<and>
           (\<forall>c<n. waits opts (Pool_Accounts.asked ls') (make_calls node dir out w) c) \<and>
           (\<forall>c\<ge>n. awaits (make_calls node dir out w) c = None)"
  using assms
proof (induction out arbitrary: w ls fx)
  case Nil
  then show ?case by (auto simp: fresh_def intro!: exI [of _ ls])
next
  case (Cons e out)
  show ?case
  proof (cases "\<exists>c q. e = FromSession c (Ask q)")
    case True
    then obtain c q where e: "e = FromSession c (Ask q)" by blast
    with Cons.prems(3) have c: "c < n" by (cases "c < n") (auto dest: spec [of _ c])
    with Cons.prems(2) e have q: "asks_in (heard c out) = []" "awaits_answer (g_env opts c) (session_of w c) q"
      by (auto simp: fresh_def dest: spec [of _ c])
    let ?w = "ask node dir c q w"
    obtain ls1 fx1 p where a: "services node k dir fs0 ls1 fx1 ?w" "only_calls ls ls1"
      "extends (snd (w_keys w)) (snd (w_keys ?w))" "awaits ?w = (awaits w)(c \<mapsto> p)" "w_gateway ?w = w_gateway w"
      "promise_for (Pool_Accounts.asked ls1) (snd (w_keys ?w)) p q" by (rule ask_linked [OF Cons.prems(1) q(2)])
    from only_calls_asked [OF a(2)] obtain ds where ds: "Pool_Accounts.asked ls1 = Pool_Accounts.asked ls @ ds" ..
    have "fresh opts (Pool_Accounts.asked ls1) ?w out d" if "d < n" for d
    proof (cases "d = c")
      case True
      with q a(4-6) show ?thesis by (auto simp: fresh_def waits_def)
    next
      case False
      with Cons.prems(2) that e have "fresh opts (Pool_Accounts.asked ls) w out d"
        using fresh_skip [of d e opts _ w out] by auto
      from fresh_mono [OF this a(3) _ a(5), of ds] False show ?thesis by (simp add: a(4) ds)
    qed
    moreover have "\<forall>d\<ge>n. awaits ?w d = None \<and> asks_in (heard d out) = []"
      using Cons.prems(3) c e by (auto simp: a(4))
    ultimately obtain ls' fx' where "services node k dir fs0 ls' fx' (make_calls node dir out ?w)" "only_calls ls1 ls'"
      "w_gateway (make_calls node dir out ?w) = w_gateway ?w"
      "\<forall>c<n. waits opts (Pool_Accounts.asked ls') (make_calls node dir out ?w) c"
      "\<forall>c\<ge>n. awaits (make_calls node dir out ?w) c = None" using Cons.IH [OF a(1)] by blast
    with only_calls_trans [OF a(2)] a(5) e show ?thesis by auto
  next
    case False
    note n = no_call [OF False]
    have h: "asks_in (heard c (e # out)) = asks_in (heard c out)" for c
      using n(2) [of c] heard_append [of c "[e]" out] by simp
    have "\<forall>c<n. fresh opts (Pool_Accounts.asked ls) w out c" using Cons.prems(2) fresh_skip [OF n(2)] by blast
    from Cons.IH [OF Cons.prems(1) this] Cons.prems(3) show ?thesis by (simp add: n(1) h)
  qed
qed

subsection \<open>One event of the gateway\<close>

lemma disconnects_quiet:
  assumes "set evs \<subseteq> {CallDisconnect}"
  shows "task (fst (run (session_step env) s evs)) = task s \<and> asks_in (snd (run (session_step env) s evs)) = [] \<and>
         received evs = []"
  using assms
proof (induction evs arbitrary: s)
  case (Cons e evs)
  then have "e = CallDisconnect" by simp
  with Cons.IH [of "fst (disconnect s)"] Cons.prems disconnect_shuts [of s] show ?case
    by (simp add: run_Cons received_def shuts_def unasked)
qed (simp add: received_def)

lemma disconnects_seat:
  assumes "seat node dir fs0 env s fx b" and "set evs \<subseteq> {CallDisconnect}"
  shows "seat node dir fs0 env (fst (run (session_step env) s evs)) (fx @ snd (run (session_step env) s evs)) b"
  using assms
proof (induction evs arbitrary: s fx)
  case (Cons e evs)
  then have e: "e = CallDisconnect" by simp
  have "seat node dir fs0 env (fst (session_step env s e)) (fx @ snd (session_step env s e)) (b @ chunk e)"
    by (rule seat_event [OF Cons.prems(1)]) (simp_all add: e)
  with Cons.IH [of "fst (session_step env s e)" "fx @ snd (session_step env s e)"] Cons.prems(2) e
  show ?case by (simp add: run_Cons)
qed simp

text \<open>The bytes that an event brings on connection \<open>c\<close>.\<close>

fun brought_by :: "gateway_event \<Rightarrow> nat \<Rightarrow> bytes" where
  "brought_by (OnSession d now e) c = (if c = d then chunk e else [])"
| "brought_by _ c = []"

text \<open>What the event may be for a session: anything but an answer; or a true answer to what it asks.\<close>

definition may_get ::
    "('pub, 'priv) node_crypto \<Rightarrow> string \<Rightarrow> file_system \<Rightarrow> gateway_opts \<Rightarrow> call list \<Rightarrow> ('pub, 'priv) world \<Rightarrow>
     gateway_event \<Rightarrow> nat \<Rightarrow> bool" where
  "may_get node dir fs0 opts cs w e c \<longleftrightarrow>
     (\<forall>now r. e \<noteq> OnSession c now (Settle r)) \<and> waits opts cs w c \<or>
     (\<exists>now r q. e = OnSession c now (Settle r) \<and> awaits w c = None \<and>
        awaits_answer (g_env opts c) (session_of w c) q \<and> truthful node dir fs0 (Some q, r))"

lemma waits_task:
  assumes "waits opts cs w c" and "task (session_of w' c) = task (session_of w c)" and "awaits w' = awaits w"
    and "w_keys w' = w_keys w"
  shows "waits opts cs w' c"
  using waits_mono [OF assms(1), of w' "[]"] assms(2-4) by simp

lemma session_turn:
  assumes "gateway_step opts (w_gateway w) e = (g', out)" and "c < length (conns (w_gateway w))"
    and "seat node dir fs0 (g_env opts c) (session_of w c) fx b" and "may_get node dir fs0 opts cs w e c"
  shows "fresh opts cs (w\<lparr>w_gateway := g'\<rparr>) out c \<and>
         seat node dir fs0 (g_env opts c) (c_session (conns g' ! c)) (fx @ heard c out) (b @ brought_by e c)"
proof -
  let ?env = "g_env opts c" and ?s = "session_of w c" and ?w = "w\<lparr>w_gateway := g'\<rparr>"
  obtain evs where run: "run (session_step ?env) ?s evs = (session_of ?w c, heard c out)"
    and evs: "(\<exists>now ev. e = OnSession c now ev \<and> evs = [ev]) \<or>
         (\<forall>now ev. e \<noteq> OnSession c now ev) \<and> set evs \<subseteq> {CallDisconnect}"
    using gateway_sessions [OF assms(1,2)] by auto
  from evs show ?thesis
  proof (elim disjE conjE exE)
    assume none: "\<forall>now ev. e \<noteq> OnSession c now ev" and "set evs \<subseteq> {CallDisconnect}"
    note q = disconnects_quiet [OF this(2), of ?env ?s] disconnects_seat [OF assms(3) this(2)]
    from none have "brought_by e c = []" by (cases e) auto
    moreover from none assms(4) have "waits opts cs w c" by (auto simp: may_get_def)
    ultimately show ?thesis using q run waits_task [of opts cs w c ?w] by (simp add: fresh_def)
  next
    fix now ev
    assume e: "e = OnSession c now ev" and "evs = [ev]"
    with run have st: "session_step ?env ?s ev = (session_of ?w c, heard c out)" by (simp add: run_Cons prod_eq_iff)
    have "seat node dir fs0 ?env (session_of ?w c) (fx @ heard c out) (b @ chunk ev)"
      by (rule seat_event [OF assms(3) st]) (use assms(4) e in \<open>auto simp: may_get_def\<close>)
    moreover have "fresh opts cs ?w out c"
    proof (cases "\<exists>r. ev = Settle r")
      case True
      then obtain r q where r: "ev = Settle r" "awaits w c = None" "awaits_answer ?env ?s q"
        using assms(4) e by (auto simp: may_get_def)
      from settle_asks [OF r(3), of r] st r(1,2) show ?thesis by (auto simp: fresh_def waits_def)
    next
      case False
      with assms(4) e have wt: "waits opts cs w c" by (auto simp: may_get_def)
      from step_asks [OF seat_started [OF assms(3)], of ?env ev] st consider
        (asked) q where "asks_in (heard c out) = [q]" "awaits_answer ?env (session_of ?w c) q"
      | (quiet) "asks_in (heard c out) = []" "\<And>q. awaits_answer ?env (session_of ?w c) q \<Longrightarrow> task (session_of ?w c) = task ?s"
        by (auto simp: asks_once_def)
      then show ?thesis
      proof cases
        case quiet
        have "waits opts cs ?w c"
        proof (cases "awaits w c")
          case None
          with wt quiet(2) show ?thesis by (auto simp: waits_def dest: still_awaits)
        next
          case (Some p)
          with wt obtain q where "awaits_answer ?env ?s q" by (auto simp: waits_def)
          moreover from seat_opening [OF assms(3) this] obtain g v where "opening_at ?env g v ?s" by blast
          ultimately have "task (session_of ?w c) = task ?s" using awaiting_stays(1) [of ?env g v ?s q ev] False st by auto
          with waits_task [OF wt, of ?w] show ?thesis by simp
        qed
        with quiet(1) show ?thesis by (simp add: fresh_def)
      qed (auto simp: fresh_def)
    qed
    ultimately show ?thesis using e by simp
  qed
qed

subsection \<open>The invariant of the process\<close>

definition linked ::
    "('pub, 'priv) node_crypto \<Rightarrow> nat \<Rightarrow> string \<Rightarrow> file_system \<Rightarrow> gateway_opts \<Rightarrow> (nat \<Rightarrow> bytes) \<Rightarrow> label list \<Rightarrow>
     pool_effect list \<Rightarrow> ('pub, 'priv) world \<Rightarrow> gateway_effect list \<Rightarrow> bool" where
  "linked node k dir fs0 opts got ls fx w out \<longleftrightarrow>
     services node k dir fs0 ls fx w \<and>
     (\<forall>c<length (conns (w_gateway w)).
        waits opts (Pool_Accounts.asked ls) w c \<and>
        seat node dir fs0 (g_env opts c) (session_of w c) (heard c out) (got c)) \<and>
     (\<forall>c\<ge>length (conns (w_gateway w)). awaits w c = None \<and> heard c out = [] \<and> got c = [])"

text \<open>What an event of the process brings on the socket of connection \<open>c\<close>, and what a run brings.\<close>

fun brought :: "('pub, 'priv) world \<Rightarrow> world_event \<Rightarrow> nat \<Rightarrow> bytes" where
  "brought w (OfGateway e) c = (if c < length (conns (w_gateway w)) then brought_by e c else [])"
| "brought w _ c = []"

fun socket_bytes ::
    "('pub, 'priv) node_crypto \<Rightarrow> string \<Rightarrow> gateway_opts \<Rightarrow> ('pub, 'priv) world \<Rightarrow> world_event list \<Rightarrow> nat \<Rightarrow> bytes" where
  "socket_bytes node dir opts w [] c = []"
| "socket_bytes node dir opts w (e # es) c =
     brought w e c @ socket_bytes node dir opts (fst (world_step node dir opts w e)) es c"

lemma accepted_seat:
  assumes "run (session_step env) (new_session date) [CallRun] = (s, fx)"
  shows "seat node dir fs0 env s fx []" and "asks_in fx = []" and "\<not> awaits_answer env s q"
proof -
  from assms have s: "s = fst (start_run env (new_session date))" "fx = snd (start_run env (new_session date))"
    by (auto simp: run_Cons new_session_def)
  then show "asks_in fx = []" and "\<not> awaits_answer env s q"
    by (simp_all add: start_run_eq awaits_answer_def hs_start_def read_queue_def wake_def)
  have "exchanges env (new_session date) [CallRun] = []" by simp
  with assms show "seat node dir fs0 env s fx []"
    unfolding seat_def by (intro exI [of _ date] exI [of _ "[]"]) (simp add: received_def)
qed

lemma gateway_runs_linked:
  assumes "services node k dir fs0 ls fx w"
    and "\<forall>c<length (conns (w_gateway w)). may_get node dir fs0 opts (Pool_Accounts.asked ls) w e c \<and>
           seat node dir fs0 (g_env opts c) (session_of w c) (heard c out) (got c)"
    and "\<forall>c\<ge>length (conns (w_gateway w)). awaits w c = None \<and> heard c out = [] \<and> got c = []"
    and "gateway_runs node dir opts e w = (w', o1)"
  shows "\<exists>ls' fx'. only_calls ls ls' \<and>
           linked node k dir fs0 opts (\<lambda>c. got c @ (if c < length (conns (w_gateway w)) then brought_by e c else [])) ls' fx' w' (out @ o1)"
proof -
  obtain g' where g: "gateway_step opts (w_gateway w) e = (g', o1)" "w' = make_calls node dir o1 (w\<lparr>w_gateway := g'\<rparr>)"
    using assms(4) by (auto simp: gateway_runs_def split: prod.splits)
  let ?w = "w\<lparr>w_gateway := g'\<rparr>" and ?n = "length (conns (w_gateway w))" and ?cs = "Pool_Accounts.asked ls"
  let ?got = "\<lambda>c. got c @ (if c < ?n then brought_by e c else [])"
  have serv: "services node k dir fs0 ls fx ?w" using assms(1) by (simp add: services_def pool_part_def keys_part_def)
  have new: "(length (conns g') = ?n \<and> (\<forall>c\<ge>?n. heard c o1 = [])) \<or>
      (length (conns g') = Suc ?n \<and> (\<forall>c>?n. heard c o1 = []) \<and>
       (\<exists>date. run (session_step (g_env opts ?n)) (new_session date) [CallRun] = (c_session (conns g' ! ?n), heard ?n o1)))"
    using gateway_conns [OF g(1)] by blast
  have old: "fresh opts ?cs ?w o1 c \<and> seat node dir fs0 (g_env opts c) (session_of ?w c) (heard c (out @ o1)) (?got c)"
    if "c < ?n" for c
  proof -
    from assms(2) that have "may_get node dir fs0 opts ?cs w e c"
      "seat node dir fs0 (g_env opts c) (session_of w c) (heard c out) (got c)" by simp_all
    from session_turn [OF g(1) that this(2,1)] that show ?thesis by simp
  qed
  have "fresh opts ?cs ?w o1 c \<and> seat node dir fs0 (g_env opts c) (session_of ?w c) (heard c (out @ o1)) (?got c)"
    if "c < length (conns g')" for c
  proof (cases "c < ?n")
    case False
    with that new obtain date where c: "c = ?n"
      and r: "run (session_step (g_env opts c)) (new_session date) [CallRun] = (c_session (conns g' ! c), heard c o1)" by auto
    note a = accepted_seat(1) [OF r, of node dir fs0] accepted_seat(2,3) [OF r]
    have "awaits w c = None" "heard c out = []" "got c = []" using assms(3) c by simp_all
    with a show ?thesis by (simp add: fresh_def waits_def c)
  qed (use old in blast)
  moreover have "awaits ?w c = None \<and> asks_in (heard c o1) = [] \<and> heard c (out @ o1) = [] \<and> ?got c = []"
    if "length (conns g') \<le> c" for c
    using that new assms(3) by auto
  ultimately obtain ls' fx' where m: "services node k dir fs0 ls' fx' w'" "only_calls ls ls'" "w_gateway w' = g'"
    "\<forall>c<length (conns g'). waits opts (Pool_Accounts.asked ls') w' c" "\<forall>c\<ge>length (conns g'). awaits w' c = None"
    and rest: "\<forall>c<length (conns g'). seat node dir fs0 (g_env opts c) (session_of ?w c) (heard c (out @ o1)) (?got c)"
      "\<forall>c\<ge>length (conns g'). heard c (out @ o1) = [] \<and> ?got c = []"
    using make_calls_linked [OF serv, of "length (conns g')" opts o1] unfolding g(2) by auto
  then show ?thesis unfolding linked_def by (intro exI [of _ ls'] exI [of _ fx'] conjI m(1,2)) auto
qed

text \<open>The labels of the pool are those of the events, and calls.\<close>

definition labelled :: "label list \<Rightarrow> world_event \<Rightarrow> label list \<Rightarrow> bool" where
  "labelled ls e ls' \<longleftrightarrow> only_calls ls ls' \<or> (\<exists>l. e = OfPool l \<and> ls' = ls @ [l])"

lemma services_linked:
  assumes "linked node k dir fs0 opts got ls fx w out" and "services node k dir fs0 ls' fx' w'"
    and "w_gateway w' = w_gateway w" and "awaits w' = awaits w" and "extends (snd (w_keys w)) (snd (w_keys w'))"
    and "Pool_Accounts.asked ls' = Pool_Accounts.asked ls @ ds"
  shows "linked node k dir fs0 opts got ls' fx' w' out"
  using assms waits_mono [of opts "Pool_Accounts.asked ls" w _ w' ds] by (simp add: linked_def)

lemma asked_one: "\<exists>ds. Pool_Accounts.asked (ls @ [l]) = Pool_Accounts.asked ls @ ds"
  by (cases l) simp_all

lemma world_step_linked:
  assumes "linked node k dir fs0 opts got ls fx w out" and "world_step node dir opts w e = (w', o1)"
  shows "\<exists>ls' fx'. labelled ls e ls' \<and> linked node k dir fs0 opts (\<lambda>c. got c @ brought w e c) ls' fx' w' (out @ o1)"
proof -
  from assms(1) have serv: "services node k dir fs0 ls fx w" by (simp add: linked_def)
  then have parts: "pool_part node k ls fx w" "keys_part dir fs0 w" by (simp_all add: services_def)
  have idle: "?thesis" if "w' = w" "o1 = []" "\<And>c. brought w e c = []"
    using assms(1) that by (auto simp: labelled_def intro!: exI [of _ ls] exI [of _ fx])
  show ?thesis
  proof (cases e)
    case (OfPool l)
    show ?thesis
    proof (cases "pool_exec node (w_pool w) l")
      case None
      with assms(2) OfPool show ?thesis by (intro idle) (simp_all add: pool_event_none)
    next
      case (Some r)
      then obtain gx s where r: "pool_exec node (w_pool w) l = Some (gx, s)" by (cases r) simp
      have w': "w' = pool_event node l w" "o1 = []" using assms(2) OfPool by auto
      have "services node k dir fs0 (ls @ [l]) (fx @ gx) w'"
        using pool_event_part [OF parts(1) r] parts(2) by (simp add: services_def w' keys_part_def)
      from asked_one obtain ds where "Pool_Accounts.asked (ls @ [l]) = Pool_Accounts.asked ls @ ds" by blast
      from services_linked [OF assms(1) _ _ _ _ this, of "fx @ gx" w'] \<open>services _ _ _ _ (ls @ [l]) _ _\<close> OfPool w'
      show ?thesis by (auto simp: labelled_def)
    qed
  next
    case (OfLoader n)
    have w': "w' = loader_event dir n w" "o1 = []" using assms(2) OfLoader by auto
    note l = loader_event_part [OF parts(2), of n]
    have "services node k dir fs0 ls fx w'" using parts(1) l(1) by (simp add: services_def w' pool_part_def)
    from services_linked [OF assms(1) this] l(2) OfLoader w' show ?thesis
      by (intro exI [of _ ls] exI [of _ fx]) (simp add: labelled_def)
  next
    case (OfGateway x)
    show ?thesis
    proof (cases "answers_session x")
      case True
      then obtain c now r where "x = OnSession c now (Settle r)" by (cases x rule: answers_session.cases) auto
      with assms(2) OfGateway show ?thesis by (intro idle) auto
    next
      case False
      then have "\<forall>c now r. x \<noteq> OnSession c now (Settle r)" by auto
      with assms(1) have "\<forall>c<length (conns (w_gateway w)). may_get node dir fs0 opts (Pool_Accounts.asked ls) w x c \<and>
           seat node dir fs0 (g_env opts c) (session_of w c) (heard c out) (got c)"
        by (auto simp: linked_def may_get_def)
      moreover have "gateway_runs node dir opts x w = (w', o1)" using assms(2) OfGateway False by simp
      ultimately show ?thesis
        using gateway_runs_linked [OF serv, of opts x out got w' o1] assms(1) OfGateway
        by (auto simp: linked_def labelled_def)
    qed
  next
    case (Continue c now)
    show ?thesis
    proof (cases "\<exists>p r. awaits w c = Some p \<and> settlement w p = Some r")
      case True
      then obtain p r where p: "awaits w c = Some p" "settlement w p = Some r" by blast
      let ?w = "w\<lparr>awaits := (awaits w)(c := None)\<rparr>" and ?x = "OnSession c now (Settle r)"
      have c: "c < length (conns (w_gateway w))" using assms(1) p(1) by (cases "c < length (conns (w_gateway w))") (auto simp: linked_def)
      from assms(1) c have "waits opts (Pool_Accounts.asked ls) w c" by (simp add: linked_def)
      with p(1) obtain q where q: "awaits_answer (g_env opts c) (session_of w c) q"
        "promise_for (Pool_Accounts.asked ls) (snd (w_keys w)) p q" by (auto simp: waits_def)
      have "truthful node dir fs0 (Some q, r)" by (rule promise_truth [OF parts p(2) q(2)])
      with q(1) have "may_get node dir fs0 opts (Pool_Accounts.asked ls) ?w ?x c" by (auto simp: may_get_def)
      moreover have "may_get node dir fs0 opts (Pool_Accounts.asked ls) ?w ?x d" if "d < length (conns (w_gateway w))" "d \<noteq> c" for d
        using waits_mono [of opts "Pool_Accounts.asked ls" w d ?w "[]"] assms(1) that by (simp add: linked_def may_get_def)
      ultimately have "may_get node dir fs0 opts (Pool_Accounts.asked ls) ?w ?x d" if "d < length (conns (w_gateway w))" for d
        using that by (cases "d = c") simp_all
      then have "\<forall>d<length (conns (w_gateway ?w)). may_get node dir fs0 opts (Pool_Accounts.asked ls) ?w ?x d \<and>
           seat node dir fs0 (g_env opts d) (session_of ?w d) (heard d out) (got d)"
        using assms(1) by (simp add: linked_def)
      moreover have "services node k dir fs0 ls fx ?w" using parts by (simp add: services_def pool_part_def keys_part_def)
      moreover have "gateway_runs node dir opts ?x ?w = (w', o1)" using assms(2) Continue p by simp
      moreover have "\<forall>d\<ge>length (conns (w_gateway ?w)). awaits ?w d = None \<and> heard d out = [] \<and> got d = []"
        using assms(1) by (simp add: linked_def)
      ultimately obtain ls' fx' where "only_calls ls ls'" "linked node k dir fs0 opts
          (\<lambda>d. got d @ (if d < length (conns (w_gateway ?w)) then brought_by ?x d else [])) ls' fx' w' (out @ o1)"
        using gateway_runs_linked [of node k dir fs0 ls fx ?w opts ?x out got w' o1] by blast
      moreover have "(\<lambda>d. got d @ (if d < length (conns (w_gateway ?w)) then brought_by ?x d else [])) =
          (\<lambda>d. got d @ brought w e d)" by (auto simp: Continue)
      ultimately show ?thesis by (auto simp: labelled_def)
    qed (use assms(2) Continue in \<open>intro idle; auto split: option.splits\<close>)
  qed
qed

lemma new_world_linked: "linked node k dir fs0 opts (\<lambda>_. []) [] [] (new_world k fs0) []"
  by (simp add: linked_def services_def pool_part_def keys_part_def new_world_def new_gateway_def pool_run.start keys_inv_def)

text \<open>Where the labels of the pool come from.\<close>

definition known :: "world_event list \<Rightarrow> label list \<Rightarrow> bool" where
  "known es ls \<longleftrightarrow> (\<forall>l\<in>set ls. (\<exists>c. l = Crypto_Pool.Call c) \<or> OfPool l \<in> set es)"

lemma known_step: "known es0 ls \<Longrightarrow> labelled ls e ls' \<Longrightarrow> known (es0 @ [e]) ls'"
proof -
  assume k: "known es0 ls" and "labelled ls e ls'"
  then consider cs where "ls' = ls @ map Crypto_Pool.Call cs" | l where "e = OfPool l" "ls' = ls @ [l]"
    by (auto simp: labelled_def only_calls_def)
  then show "known (es0 @ [e]) ls'" using k by cases (auto simp: known_def)
qed

lemma world_run_linked:
  assumes "linked node k dir fs0 opts got ls fx w out" and "known es0 ls"
  shows "\<exists>ls' fx'. known (es0 @ es) ls' \<and>
           linked node k dir fs0 opts (\<lambda>c. got c @ socket_bytes node dir opts w es c) ls' fx'
             (fst (run (world_step node dir opts) w es)) (out @ snd (run (world_step node dir opts) w es))"
  using assms
proof (induction es arbitrary: got ls fx w out es0)
  case (Cons e es)
  obtain w1 o1 where s: "world_step node dir opts w e = (w1, o1)" by fastforce
  from world_step_linked [OF Cons.prems(1) s] obtain ls1 fx1 where "labelled ls e ls1"
    "linked node k dir fs0 opts (\<lambda>c. got c @ brought w e c) ls1 fx1 w1 (out @ o1)" by blast
  from Cons.IH [OF this(2) known_step [OF Cons.prems(2) this(1)]] s show ?case by (simp add: run_Cons)
qed auto

lemma world_linked:
  assumes "run (world_step node dir opts) (new_world k fs0) es = (w, out)"
  obtains ls fx where "known es ls"
    and "linked node k dir fs0 opts (socket_bytes node dir opts (new_world k fs0) es) ls fx w out"
  using world_run_linked [OF new_world_linked [of node k dir fs0 opts], of "[]" es] assms by (auto simp: known_def)

end
