(* ===== verification/Pool_Schedule.thy ===== *)
theory Pool_Schedule
  imports Pool_Answers "HOL-Library.Multiset"
begin

section \<open>The order of the tasks and the load of the workers\<close>

text \<open>
  The invariant \<open>scheduled\<close> of the runs of the pool: tasks are posts in the order of their ids,
  a worker has at most one, an idle worker none, nobody waits while a worker is idle; and the ids in
  the queue, the inboxes and the outboxes (\<open>flight\<close>) are ids of the pending map, each once.
\<close>

fun posts :: "pool_effect list \<Rightarrow> task_msg list" where
  "posts [] = []"
| "posts (PostMessage w m # fx) = m # posts fx"
| "posts (e # fx) = posts fx"

lemma posts_append [simp]: "posts (fx @ gx) = posts fx @ posts gx"
  by (induction fx rule: posts.induct) simp_all

lemma posts_none [simp]:
  "posts (map Terminate ws) = []" "posts (map (\<lambda>(i, n). Refuse n e) xs) = []"
  by (induction ws, simp_all) (induction xs, auto)

definition load :: "('pub, 'priv) pool_system \<Rightarrow> nat \<Rightarrow> nat" where
  "load s w = length (inbox s w) + length (outbox s w)"

definition cargo :: "('pub, 'priv) pool_system \<Rightarrow> nat \<Rightarrow> nat multiset" where
  "cargo s w = mset (map m_id (inbox s w)) + mset (map reply_id (outbox s w))"

definition flight :: "nat \<Rightarrow> ('pub, 'priv) pool_system \<Rightarrow> nat multiset" where
  "flight k s = mset (map m_id (p_queue (the_pool s))) + (\<Sum>w<k. cargo s w)"

lemma size_cargo: "size (cargo s w) = load s w"
  by (simp add: cargo_def load_def)

lemma sum_upd:
  fixes f g :: "nat \<Rightarrow> 'a :: comm_monoid_add"
  assumes "v < k" and "\<And>w. w \<noteq> v \<Longrightarrow> f w = g w"
  shows "(\<Sum>w<k. f w) + g v = (\<Sum>w<k. g w) + f v"
proof -
  have "(\<Sum>w\<in>{..<k} - {v}. f w) = (\<Sum>w\<in>{..<k} - {v}. g w)" using assms(2) by (intro sum.cong) auto
  with assms(1) show ?thesis
    by (simp add: sum.remove [of "{..<k}" v f] sum.remove [of "{..<k}" v g] algebra_simps)
qed

subsection \<open>Order\<close>

text \<open>The task of the call with number \<open>i\<close>, as it is sent to a worker.\<close>

definition numbered :: "call list \<Rightarrow> nat \<Rightarrow> task_msg" where
  "numbered cs i = (task_of (cs ! i))\<lparr>m_id := Suc i\<rparr>"

definition in_order :: "call list \<Rightarrow> pool_effect list \<Rightarrow> pool \<Rightarrow> bool" where
  "in_order cs fx p \<longleftrightarrow>
     (\<exists>rest. posts fx @ p_queue p @ rest = map (numbered cs) [0..<p_nextId p - 1] \<and> (\<not> p_closed p \<longrightarrow> rest = [])) \<and>
     (p_closed p \<longrightarrow> p_queue p = []) \<and> (p_queue p \<noteq> [] \<longrightarrow> p_idle p = []) \<and>
     1 \<le> p_nextId p \<and> p_nextId p - 1 \<le> length cs \<and> (\<not> p_closed p \<longrightarrow> p_nextId p = Suc (length cs))"

lemma numbered_append: "n \<le> length cs \<Longrightarrow> map (numbered (cs @ ds)) [0..<n] = map (numbered cs) [0..<n]"
  by (simp add: numbered_def nth_append)

lemma order_release:
  assumes "in_order cs fx p" and "p_idle p \<noteq> [] \<longrightarrow> p_queue p = []"
  shows "in_order cs (fx @ snd (release w p)) (fst (release w p))"
  using assms by (auto simp: in_order_def release_def split: list.split)

lemma order_dispatch:
  assumes "in_order cs fx p"
  shows "in_order (cs @ [c]) (fx @ snd (pool_dispatch (task_of c) p)) (fst (pool_dispatch (task_of c) p))"
proof (cases "p_closed p")
  case True
  with assms show ?thesis by (auto simp: in_order_def pool_dispatch_def Let_def numbered_append)
next
  case False
  let ?m = "(task_of c)\<lparr>m_id := p_nextId p\<rparr>"
  from False assms have o: "posts fx @ p_queue p = map (numbered cs) [0..<length cs]" "p_nextId p = Suc (length cs)"
    "p_queue p \<noteq> [] \<longrightarrow> p_idle p = []"
    by (auto simp: in_order_def)
  have "numbered (cs @ [c]) (length cs) = ?m" by (simp add: numbered_def o(2))
  with o(1) have "posts fx @ p_queue p @ [?m] = map (numbered (cs @ [c])) [0..<Suc (length cs)]"
    by (simp add: numbered_append)
  with False o(2,3) show ?thesis
    by (cases "p_idle p = []") (auto simp: in_order_def pool_dispatch_def Let_def)
qed

lemma order_settled:
  "in_order cs (fx @ [e]) p = in_order cs fx p" if "posts [e] = []"
  using that by (simp add: in_order_def)

lemma order_message:
  assumes "in_order cs fx p"
  shows "in_order cs (fx @ snd (pool_message w r p)) (fst (pool_message w r p))"
proof (cases "map_of (p_pending p) (reply_id r)")
  case (Some n)
  define p1 where "p1 = p\<lparr>p_pending := AList.delete (reply_id r) (p_pending p)\<rparr>"
  have 1: "in_order cs (fx @ [e]) p1" if "posts [e] = []" for e
    using assms that by (simp add: in_order_def p1_def)
  have "p_idle p1 \<noteq> [] \<longrightarrow> p_queue p1 = []" using assms by (auto simp: in_order_def p1_def)
  note rel = order_release [OF 1 this, of _ w]
  note eq = pool_message_Some [OF Some, folded p1_def]
  show ?thesis
  proof (cases r)
    case (Result i x)
    with rel [of "Fulfil n x"] show ?thesis unfolding eq by simp
  next
    case (Failure i e)
    with rel [of "Refuse n (Error e)"] 1 [of "Uncaught (NodeError ''TypeError'')"] show ?thesis unfolding eq by simp
  qed
qed (use assms in \<open>simp add: pool_message.simps\<close>)

lemma order_close:
  "in_order cs fx p \<Longrightarrow> in_order cs (fx @ snd (pool_close p)) (fst (pool_close p))"
  "in_order cs fx p \<Longrightarrow> in_order cs (fx @ snd (pool_closed p)) (fst (pool_closed p))"
  by (auto simp: in_order_def pool_close_def pool_closed_def)

lemma step_order:
  assumes "pool_step node s l gx s'" and "in_order cs fx (the_pool s)"
  shows "in_order (cs @ asked [l]) (fx @ gx) (the_pool s')"
  using assms(1)
proof cases
  case (call c p)
  with order_dispatch [OF assms(2), of c] show ?thesis by (simp add: call_pool_task)
next
  case (deliver w r rs p)
  with order_message [OF assms(2), of w r] show ?thesis by simp
next
  case (close p)
  with order_close(1) [OF assms(2)] show ?thesis by simp
next
  case (close_done p)
  with order_close(2) [OF assms(2)] show ?thesis by simp
next
  case (die w e)
  with order_settled [of "PoolError e" cs fx] assms(2) show ?thesis by simp
qed (use assms(2) in simp_all)

lemma run_order: "pool_run node (new_system k) ls fx s \<Longrightarrow> in_order (asked ls) fx (the_pool s)"
  by (induction rule: pool_run.induct) (simp_all only: asked_append step_order, simp add: new_system_pool in_order_def)

subsection \<open>Load\<close>

fun is_die :: "label \<Rightarrow> bool" where
  "is_die (Die w e) \<longleftrightarrow> True"
| "is_die _ \<longleftrightarrow> False"

definition healthy :: "label list \<Rightarrow> bool" where
  "healthy ls \<longleftrightarrow> list_all (\<lambda>l. \<not> is_die l) ls"

text \<open>The idle stack and the loads; what the pending map owes; and who must be busy.\<close>

definition loads_ok :: "nat \<Rightarrow> ('pub, 'priv) pool_system \<Rightarrow> bool" where
  "loads_ok k s \<longleftrightarrow>
     distinct (p_idle (the_pool s)) \<and> set (p_idle (the_pool s)) \<subseteq> {..<k} \<and>
     (\<forall>w. load s w \<le> 1) \<and> (\<forall>w. w \<in> set (p_idle (the_pool s)) \<or> k \<le> w \<longrightarrow> load s w = 0)"

definition keys :: "pool \<Rightarrow> nat multiset" where
  "keys p = mset (map fst (p_pending p))"

definition busy_ok :: "nat \<Rightarrow> ('pub, 'priv) pool_system \<Rightarrow> bool" where
  "busy_ok k s \<longleftrightarrow> (\<forall>w<k. alive s w \<and> w \<notin> set (p_idle (the_pool s)) \<longrightarrow> load s w = 1)"

definition scheduled :: "nat \<Rightarrow> label list \<Rightarrow> pool_effect list \<Rightarrow> ('pub, 'priv) pool_system \<Rightarrow> bool" where
  "scheduled k ls fx s \<longleftrightarrow>
     loads_ok k s \<and>
     (\<not> p_closed (the_pool s) \<longrightarrow>
        p_workers (the_pool s) = [0..<k] \<and>
        flight k s \<subseteq># keys (the_pool s) \<and>
        (healthy ls \<longrightarrow> flight k s = keys (the_pool s) \<and> (\<forall>w<k. alive s w)) \<and>
        (calm fx \<longrightarrow> busy_ok k s))"

lemma cargo_mem:
  "m \<in> set (inbox s w) \<Longrightarrow> w < k \<Longrightarrow> m_id m \<in># flight k s"
  "r \<in> set (outbox s w) \<Longrightarrow> w < k \<Longrightarrow> reply_id r \<in># flight k s"
  by (auto simp: flight_def cargo_def set_mset_sum)

lemma keys_mem: "i \<in># keys p \<longleftrightarrow> map_of (p_pending p) i \<noteq> None"
  by (simp add: keys_def map_of_eq_None_iff image_iff)

lemma keys_delete:
  fixes xs :: "(nat \<times> nat) list"
  assumes "distinct (map fst xs)" and "i \<in> fst ` set xs"
  shows "mset (map fst xs) = add_mset i (mset (map fst (AList.delete i xs)))"
proof -
  have "filter (\<lambda>x. x \<noteq> i) ys = remove1 i ys" if "distinct ys" for ys :: "nat list"
    using that by (auto simp: distinct_remove1_removeAll removeAll_filter_not_eq intro!: filter_cong)
  then have "map fst (AList.delete i xs) = remove1 i (map fst xs)"
    using assms(1) by (simp add: delete_filter_keys eq_commute)
  then show ?thesis using assms(2) by simp
qed

subsection \<open>One step\<close>

text \<open>A step that changes at most the boxes of one worker.\<close>

lemma flight_upd:
  assumes "v < k" and "\<And>w. w \<noteq> v \<Longrightarrow> cargo s' w = cargo s w"
  shows "(\<Sum>w<k. cargo s' w) + cargo s v = (\<Sum>w<k. cargo s w) + cargo s' v"
  using sum_upd [OF assms] .

lemma subset_add_mset: "A \<subseteq># B \<Longrightarrow> A \<subseteq># add_mset x B"
  by (simp add: subset_mset.le_iff_add) (metis union_mset_add_mset_right)

lemma scheduled_serve:
  assumes "scheduled k ls fx s" and "inbox s w = m # ms" and "alive s w"
    and "worker_message node (memory s w) (rnd, m) = (mem, rs)" and "worker_ok node (memory s w)"
  shows "scheduled k (ls @ [Serve w rnd]) (fx @ []) (s\<lparr>inbox := (inbox s)(w := ms),
           memory := (memory s)(w := mem), outbox := (outbox s)(w := outbox s w @ rs)\<rparr>)"
proof -
  let ?s = "s\<lparr>inbox := (inbox s)(w := ms), memory := (memory s)(w := mem), outbox := (outbox s)(w := outbox s w @ rs)\<rparr>"
  have rs: "rs = [reply_of (m_id m) (serve node rnd m)]"
    using worker_message_serves(1) [OF assms(5), of "(rnd, m)"] assms(4) by simp
  have id: "reply_id (reply_of i x) = i" for i x by (simp add: reply_of_def split: sum.split)
  have same: "load ?s v = load s v" "cargo ?s v = cargo s v" for v
    using assms(2) by (auto simp: load_def cargo_def rs id)
  have "loads_ok k ?s = loads_ok k s" "flight k ?s = flight k s" "busy_ok k ?s = busy_ok k s"
    unfolding loads_ok_def flight_def busy_ok_def same by simp_all
  with assms(1) show ?thesis by (simp add: scheduled_def healthy_def)
qed

lemma scheduled_die:
  assumes "scheduled k ls fx s"
  shows "scheduled k (ls @ [Die w e]) (fx @ [PoolError e])
           (s\<lparr>alive := (alive s)(w := False), inbox := (inbox s)(w := [])\<rparr>)"
proof -
  let ?s = "s\<lparr>alive := (alive s)(w := False), inbox := (inbox s)(w := [])\<rparr>"
  have l: "load ?s v \<le> load s v" "cargo ?s v \<subseteq># cargo s v" for v by (auto simp: load_def cargo_def)
  have z: "load s v = 0 \<Longrightarrow> load ?s v = 0" and o: "load s v \<le> 1 \<Longrightarrow> load ?s v \<le> 1" for v
    using l(1) [of v] by simp_all
  have l2: "v \<noteq> w \<Longrightarrow> load ?s v = load s v" for v by (simp add: load_def)
  have "(\<Sum>v<n. cargo ?s v) \<subseteq># (\<Sum>v<n. cargo s v)" for n
  proof (induction n)
    case (Suc n)
    then show ?case
      unfolding sum.lessThan_Suc by (intro subset_mset.add_mono l)
  qed simp
  then have "flight k ?s \<subseteq># flight k s" by (simp add: flight_def)
  moreover have "loads_ok k ?s" if "loads_ok k s"
    using that z o by (simp add: loads_ok_def)
  moreover have "busy_ok k ?s" if "busy_ok k s" using that l2 by (simp add: busy_ok_def)
  ultimately show ?thesis using assms
    by (auto simp: scheduled_def healthy_def intro: subset_mset.order_trans)
qed

text \<open>A message is posted to a worker that has nothing to do and is not listed as idle.\<close>

lemma schedule_post:
  fixes m :: task_msg
  assumes "loads_ok k s" and "load s w = 0" and "w < k" and "w \<notin> set (p_idle (the_pool s))"
  defines "s' \<equiv> deliver_posts [PostMessage w m] s"
  shows "loads_ok k s'" and "flight k s' = flight k s + (if alive s w then {#m_id m#} else {#})"
    and "(\<And>v. v < k \<Longrightarrow> v \<noteq> w \<Longrightarrow> alive s v \<Longrightarrow> v \<notin> set (p_idle (the_pool s)) \<Longrightarrow> load s v = 1) \<Longrightarrow> busy_ok k s'"
proof -
  have other: "v \<noteq> w \<Longrightarrow> load s' v = load s v" "v \<noteq> w \<Longrightarrow> cargo s' v = cargo s v" for v
    by (simp_all add: s'_def load_def cargo_def)
  have own: "load s' w = (if alive s w then 1 else 0)"
    "cargo s' w = cargo s w + (if alive s w then {#m_id m#} else {#})"
    using assms(2) by (simp_all add: s'_def load_def cargo_def)
  have pool: "the_pool s' = the_pool s" "alive s' = alive s" by (simp_all add: s'_def)
  have "load s' v \<le> 1" for v using other(1) [of v] own(1) assms(1) by (cases "v = w") (auto simp: loads_ok_def)
  moreover have "load s' v = 0" if "v \<in> set (p_idle (the_pool s)) \<or> k \<le> v" for v
  proof -
    have "v \<noteq> w" using that assms(3,4) by auto
    with that other(1) [of v] assms(1) show ?thesis by (auto simp: loads_ok_def)
  qed
  ultimately show "loads_ok k s'" using assms(1) by (simp add: loads_ok_def pool)
  show "flight k s' = flight k s + (if alive s w then {#m_id m#} else {#})"
    using flight_upd [OF assms(3), of s' s] other(2) by (simp add: flight_def own(2) pool)
  show "busy_ok k s'"
    if busy: "\<And>v. v < k \<Longrightarrow> v \<noteq> w \<Longrightarrow> alive s v \<Longrightarrow> v \<notin> set (p_idle (the_pool s)) \<Longrightarrow> load s v = 1"
    unfolding busy_ok_def
  proof (intro allI impI)
    fix v assume "v < k" and "alive s' v \<and> v \<notin> set (p_idle (the_pool s'))"
    with busy own(1) other(1) [of v] show "load s' v = 1" by (cases "v = w") (simp_all add: pool)
  qed
qed

lemma scheduled_call:
  assumes "scheduled k ls fx s" and "books_ok (the_pool s)" and "in_order cs fx (the_pool s)"
    and "call_pool c (the_pool s) = (p, gx)"
  shows "scheduled k (ls @ [Call c]) (fx @ gx) (deliver_posts gx (s\<lparr>the_pool := p\<rparr>))"
proof (cases "p_closed (the_pool s)")
  case True
  with assms(1,4) show ?thesis
    by (auto simp: call_pool_task pool_dispatch_def Let_def scheduled_def loads_ok_def load_def)
next
  case False
  let ?q = "the_pool s" and ?s = "deliver_posts gx (s\<lparr>the_pool := p\<rparr>)" and ?i = "p_nextId (the_pool s)"
  let ?m = "(task_of c)\<lparr>m_id := p_nextId (the_pool s)\<rparr>"
  have new: "?i \<notin> fst ` set (p_pending ?q)" using assms(2) by (auto simp: books_ok_def)
  have p: "p = fst (pool_dispatch (task_of c) ?q)" and gx: "gx = snd (pool_dispatch (task_of c) ?q)"
    using assms(4) by (simp_all add: call_pool_task)
  have keys: "keys p = add_mset ?i (keys ?q)"
    using False by (simp add: p keys_def dispatch_fields books_new [OF new])
  have fixed: "\<not> p_closed p" "p_workers p = p_workers ?q" "calm gx" "healthy (ls @ [Call c]) = healthy ls"
    using False by (simp_all add: p gx pool_dispatch_def Let_def healthy_def)
  show ?thesis
  proof (cases "p_idle ?q = []")
    case True
    then have "gx = []" and q: "p_queue p = p_queue ?q @ [?m]" and i: "p_idle p = p_idle ?q"
      using False by (simp_all add: p gx pool_dispatch_def Let_def)
    then have same: "load ?s v = load s v" "cargo ?s v = cargo s v" for v by (simp_all add: load_def cargo_def)
    have "flight k ?s = add_mset ?i (flight k s)" unfolding flight_def same by (simp add: q)
    moreover have "loads_ok k ?s = loads_ok k s" "busy_ok k ?s = busy_ok k s"
      unfolding loads_ok_def busy_ok_def same by (simp_all add: i)
    ultimately show ?thesis using assms(1) False fixed keys by (simp add: scheduled_def)
  next
    case idle: False
    then obtain ws w0 where dec: "p_idle ?q = ws @ [w0]" by (meson rev_exhaust)
    have gx: "gx = [PostMessage w0 ?m]" and q: "p_queue p = p_queue ?q" and i: "p_idle p = ws"
      using False by (simp_all add: p gx pool_dispatch_def Let_def dec)
    let ?s1 = "s\<lparr>the_pool := p\<rparr>"
    have same: "load ?s1 v = load s v" "cargo ?s1 v = cargo s v" for v by (simp_all add: load_def cargo_def)
    have fl: "flight k ?s1 = flight k s" unfolding flight_def same by (simp add: q)
    have "loads_ok k s" using assms(1) by (simp add: scheduled_def)
    then have w: "w0 < k" "load s w0 = 0" "w0 \<notin> set ws" and l1: "loads_ok k ?s1"
      unfolding loads_ok_def same by (auto simp: dec i)
    note post = schedule_post [OF l1 _ w(1), of ?m]
    have "loads_ok k ?s" "flight k ?s = flight k s + (if alive s w0 then {#?i#} else {#})"
      using post(1,2) w(2,3) by (simp_all add: gx same fl i)
    moreover have "busy_ok k ?s" if "busy_ok k s"
      using post(3) w(2,3) that by (simp add: gx same i busy_ok_def dec)
    ultimately show ?thesis using assms(1) False fixed keys w(1)
      by (auto simp: scheduled_def intro: subset_add_mset)
  qed
qed

text \<open>A worker that has delivered its reply is put to use again.\<close>

lemma schedule_release:
  assumes "loads_ok k s" and "load s w = 0" and "w < k" and "w \<notin> set (p_idle (the_pool s))"
    and "release w (the_pool s) = (p, gx)"
  defines "s' \<equiv> deliver_posts gx (s\<lparr>the_pool := p\<rparr>)"
  shows "loads_ok k s'" and "flight k s' \<subseteq># flight k s" and "alive s w \<Longrightarrow> flight k s' = flight k s"
    and "(\<And>v. v < k \<Longrightarrow> v \<noteq> w \<Longrightarrow> alive s v \<Longrightarrow> v \<notin> set (p_idle (the_pool s)) \<Longrightarrow> load s v = 1) \<Longrightarrow> busy_ok k s'"
proof -
  let ?q = "the_pool s"
  have "loads_ok k s' \<and> flight k s' \<subseteq># flight k s \<and> (alive s w \<longrightarrow> flight k s' = flight k s) \<and>
    ((\<forall>v<k. v \<noteq> w \<and> alive s v \<and> v \<notin> set (p_idle (the_pool s)) \<longrightarrow> load s v = 1) \<longrightarrow> busy_ok k s')"
  proof (cases "p_queue ?q")
    case Nil
    with assms(5) have p: "p = ?q\<lparr>p_idle := p_idle ?q @ [w]\<rparr>" and gx: "gx = []" by (simp_all add: release_def)
    have same: "load s' v = load s v" "cargo s' v = cargo s v" for v by (simp_all add: s'_def gx load_def cargo_def)
    have "loads_ok k s'" using assms(1-4) unfolding loads_ok_def same by (auto simp: s'_def p)
    moreover have "flight k s' = flight k s" unfolding flight_def same by (simp add: s'_def p)
    ultimately show ?thesis unfolding busy_ok_def same by (auto simp: s'_def p)
  next
    case (Cons m ms)
    with assms(5) have p: "p = ?q\<lparr>p_queue := ms\<rparr>" and gx: "gx = [PostMessage w m]" by (simp_all add: release_def)
    let ?s1 = "s\<lparr>the_pool := p\<rparr>"
    have same: "load ?s1 v = load s v" "cargo ?s1 v = cargo s v" for v by (simp_all add: load_def cargo_def)
    have l1: "loads_ok k ?s1" using assms(1) unfolding loads_ok_def same by (simp add: p)
    have fl: "flight k s = add_mset (m_id m) (flight k ?s1)" unfolding flight_def same by (simp add: p Cons)
    have pre: "load ?s1 w = 0" "w \<notin> set (p_idle (the_pool ?s1))" "alive ?s1 = alive s"
      using assms(2,4) unfolding same by (simp_all add: p)
    have s': "deliver_posts [PostMessage w m] ?s1 = s'" by (simp only: s'_def gx)
    note post = schedule_post [OF l1 pre(1) assms(3) pre(2), of m, unfolded s' pre(3)]
    have "busy_ok k s'" if "\<forall>v<k. v \<noteq> w \<and> alive s v \<and> v \<notin> set (p_idle (the_pool s)) \<longrightarrow> load s v = 1"
      by (rule post(3), unfold same) (use that in \<open>simp add: p\<close>)
    moreover note post(1,2)
    ultimately show ?thesis using fl by (auto intro: subset_add_mset)
  qed
  then show "loads_ok k s'" and "flight k s' \<subseteq># flight k s" and "alive s w \<Longrightarrow> flight k s' = flight k s"
    and "(\<And>v. v < k \<Longrightarrow> v \<noteq> w \<Longrightarrow> alive s v \<Longrightarrow> v \<notin> set (p_idle (the_pool s)) \<Longrightarrow> load s v = 1) \<Longrightarrow> busy_ok k s'"
    by blast+
qed

lemma no_post: "posts [e] = [] \<Longrightarrow> deliver_posts (e # fx) s = deliver_posts fx s"
  by (cases e) simp_all

lemma message_release:
  assumes "map_of (p_pending q) (reply_id r) = Some n" and "pool_message w r q = (p, gx)"
  defines "q1 \<equiv> q\<lparr>p_pending := AList.delete (reply_id r) (p_pending q)\<rparr>"
  obtains (settle) e hx where "release w q1 = (p, hx)" and "gx = e # hx" and "posts [e] = []" and "\<not> is_uncaught e"
  | (throw) e where "p = q1" and "gx = [Uncaught e]"
proof (cases "release w q1")
  case (Pair p2 hx)
  from assms(2) have "(p, gx) =
     (case r of Result i x \<Rightarrow> (p2, Fulfil n x # hx)
      | Failure i e \<Rightarrow> if e \<noteq> [] then (p2, Refuse n (Error e) # hx) else (q1, [Uncaught (NodeError ''TypeError'')]))"
    unfolding pool_message_Some [OF assms(1), folded q1_def] Pair by (cases r) (auto split: if_splits)
  then show thesis
    using settle [of hx] throw Pair by (auto split: reply.splits if_splits)
qed

text \<open>Taking a worker's reply out of its outbox leaves it with nothing to do.\<close>

lemma schedule_take:
  assumes "loads_ok k s" and "outbox s w = r # rs"
  defines "s1 \<equiv> s\<lparr>outbox := (outbox s)(w := rs)\<rparr>"
  shows "w < k" and "w \<notin> set (p_idle (the_pool s))" and "load s1 w = 0" and "v \<noteq> w \<Longrightarrow> load s1 v = load s v"
    and "flight k s = add_mset (reply_id r) (flight k s1)" and "loads_ok k s1"
proof -
  have "load s w \<noteq> 0" by (simp add: load_def assms(2))
  with assms(1) have "\<not> (w \<in> set (p_idle (the_pool s)) \<or> k \<le> w)" and "load s w \<le> 1"
    unfolding loads_ok_def by auto
  then show w: "w < k" "w \<notin> set (p_idle (the_pool s))" and "load s1 w = 0"
    by (simp_all add: s1_def load_def assms(2))
  from \<open>load s w \<le> 1\<close> have own: "load s1 w = 0" "cargo s1 w = {#}" "cargo s w = {#reply_id r#}"
    by (simp_all add: s1_def load_def cargo_def assms(2))
  have other: "v \<noteq> w \<Longrightarrow> load s1 v = load s v" "v \<noteq> w \<Longrightarrow> cargo s1 v = cargo s v" for v
    by (simp_all add: s1_def load_def cargo_def)
  then show "v \<noteq> w \<Longrightarrow> load s1 v = load s v" by simp
  have pool: "the_pool s1 = the_pool s" by (simp add: s1_def)
  show "flight k s = add_mset (reply_id r) (flight k s1)"
    using flight_upd [OF w(1), of s1 s] other(2) pool by (simp add: flight_def own)
  have "load s1 v \<le> load s v" for v using other(1) [of v] own(1) by (cases "v = w") auto
  then have "load s1 v \<le> 1" "load s v = 0 \<Longrightarrow> load s1 v = 0" for v
    using assms(1) by (simp_all add: loads_ok_def) (meson le_trans, metis le_zero_eq)
  with assms(1) show "loads_ok k s1" by (simp add: loads_ok_def s1_def)
qed

lemma scheduled_deliver:
  assumes "scheduled k ls fx s" and "books_ok (the_pool s)" and "in_order cs fx (the_pool s)"
    and "outbox s w = r # rs" and "pool_message w r (the_pool s) = (p, gx)"
  shows "scheduled k (ls @ [Deliver w]) (fx @ gx) (deliver_posts gx (s\<lparr>the_pool := p, outbox := (outbox s)(w := rs)\<rparr>))"
proof -
  let ?q = "the_pool s"
  define s1 where "s1 = s\<lparr>outbox := (outbox s)(w := rs)\<rparr>"
  have loads: "loads_ok k s" using assms(1) by (simp add: scheduled_def)
  note w = schedule_take(1,2) [OF loads assms(4)] and own = schedule_take(3) [OF loads assms(4), folded s1_def]
    and other = schedule_take(4) [OF loads assms(4), folded s1_def]
    and fl = schedule_take(5) [OF loads assms(4), folded s1_def]
    and loads1 = schedule_take(6) [OF loads assms(4), folded s1_def]
  show ?thesis
  proof (cases "map_of (p_pending ?q) (reply_id r)")
    case None
    have "p_closed ?q"
    proof (rule ccontr)
      assume "\<not> p_closed ?q"
      with assms(1) fl have "add_mset (reply_id r) (flight k s1) \<subseteq># keys ?q" by (simp add: scheduled_def)
      with None show False using keys_mem [of "reply_id r" ?q] by (auto dest: mset_subset_eqD)
    qed
    moreover have "p = ?q" "gx = []" using None assms(5) by (simp_all add: pool_message.simps)
    moreover from this have "s\<lparr>the_pool := p, outbox := (outbox s)(w := rs)\<rparr> = s1" by (simp add: s1_def)
    moreover have "the_pool s1 = ?q" by (simp add: s1_def)
    ultimately show ?thesis using loads1 by (simp add: scheduled_def)
  next
    case (Some n)
    define q1 where "q1 = ?q\<lparr>p_pending := AList.delete (reply_id r) (p_pending ?q)\<rparr>"
    define s2 where "s2 = s1\<lparr>the_pool := q1\<rparr>"
    have keys: "keys ?q = add_mset (reply_id r) (keys q1)"
      using keys_delete [of "p_pending ?q" "reply_id r"] assms(2) map_of_SomeD [OF Some]
      by (force simp: keys_def q1_def books_ok_def)
    have same: "load s2 v = load s1 v" "cargo s2 v = cargo s1 v" for v by (simp_all add: s2_def load_def cargo_def)
    have fl2: "flight k s2 = flight k s1" unfolding flight_def same by (simp add: s2_def q1_def s1_def)
    have loads2: "loads_ok k s2" using loads1 unfolding loads_ok_def same by (simp add: s2_def q1_def s1_def)
    have pool2: "the_pool s2 = q1" "p_idle q1 = p_idle ?q" "p_closed q1 = p_closed ?q"
      "p_workers q1 = p_workers ?q" "alive s2 = alive s" by (simp_all add: s2_def q1_def s1_def)
    have target: "s\<lparr>the_pool := p', outbox := (outbox s)(w := rs)\<rparr> = s2\<lparr>the_pool := p'\<rparr>" for p'
      by (simp add: s2_def s1_def)
    have h: "healthy (ls @ [Deliver w]) = healthy ls" by (simp add: healthy_def)
    from Some assms(5) show ?thesis
    proof (cases rule: message_release)
      case (throw e)
      then show ?thesis
        using loads2 assms(1) pool2 keys fl fl2 unfolding target
        by (simp add: h scheduled_def q1_def [symmetric] s2_def)
    next
      case (settle e hx)
      have "w \<notin> set (p_idle (the_pool s2))" using w pool2 by simp
      note rel = schedule_release [OF loads2 _ w(1) this, of p hx]
      have r: "release w (the_pool s2) = (p, hx)" using settle(1) by (simp add: pool2 q1_def)
      have "load s2 w = 0" using own by (simp add: same)
      note rel = rel [OF this r]
      have p: "p_pending p = p_pending q1" "p_closed p = p_closed ?q" "p_workers p = p_workers ?q"
        using r by (auto simp: pool2 release_def split: list.splits)
      then have k: "keys p = keys q1" by (simp add: keys_def)
      have busy: "busy_ok k (deliver_posts hx (s2\<lparr>the_pool := p\<rparr>))" if "busy_ok k s"
        by (rule rel(4)) (use that other in \<open>simp_all add: pool2 same busy_ok_def\<close>)
      show ?thesis
        using rel(1-3) busy assms(1) w(1) fl keys unfolding target settle(2) no_post [OF settle(3)]
        by (auto simp: h scheduled_def settle(4) p k pool2 fl2 intro: subset_mset.order_trans)
    qed
  qed
qed

lemma step_scheduled:
  assumes "pool_step node s l gx s'" and "scheduled k ls fx s" and "books_ok (the_pool s)"
    and "in_order cs fx (the_pool s)" and "\<And>w. worker_ok node (memory s w)"
    and "terminating s \<longrightarrow> p_closed (the_pool s)"
  shows "scheduled k (ls @ [l]) (fx @ gx) s'"
  using assms(1)
proof cases
  case (call c p)
  then show ?thesis using scheduled_call [OF assms(2-4)] by simp
next
  case (serve w m ms rnd mem rs)
  then show ?thesis using scheduled_serve [OF assms(2) _ _ _ assms(5)] by simp
next
  case (deliver w r rs p)
  then show ?thesis using scheduled_deliver [OF assms(2-4)] by simp
next
  case (die w e)
  then show ?thesis using scheduled_die [OF assms(2)] by simp
next
  case (close p)
  then have "p = fst (pool_close (the_pool s))" by simp
  with assms(2) close show ?thesis
    by (auto simp: scheduled_def loads_ok_def load_def pool_close_def)
next
  case (close_done p)
  then have p: "p = fst (pool_closed (the_pool s))" and cl: "p_closed (the_pool s)" using assms(6) by simp_all
  have le: "load s' w \<le> load s w" for w by (simp add: close_done(2) load_def)
  have "load s' w \<le> 1" "load s w = 0 \<Longrightarrow> load s' w = 0" for w
    using le [of w] assms(2) by (simp_all add: scheduled_def loads_ok_def) (meson le_trans)
  with assms(2) cl show ?thesis
    by (auto simp: scheduled_def loads_ok_def close_done(2) p pool_closed_def)
qed

lemma new_system_boxes:
  "load (new_system k) w = 0" "cargo (new_system k) w = {#}" "alive (new_system k) w \<longleftrightarrow> w < k"
  by (simp_all add: load_def cargo_def) (simp_all add: new_system_def)

lemma run_scheduled: "pool_run node (new_system k) ls fx s \<Longrightarrow> scheduled k ls fx s"
proof (induction rule: pool_run.induct)
  case start
  show ?case
    by (auto simp: scheduled_def loads_ok_def busy_ok_def keys_def flight_def new_system_pool new_system_boxes)
next
  case (step ls fx s l gx s')
  show ?case
    using step_scheduled [OF step.hyps(2) step.IH] run_accounted [OF step.hyps(1)]
      run_order [OF step.hyps(1)] run_routed [OF step.hyps(1)] run_closed [OF step.hyps(1)]
    by (simp add: accounted_def routed_def)
qed

subsection \<open>What the pool promises\<close>

text \<open>C23. First come, first served: the tasks that have been handed to workers are those of the first
  calls, each once, under the ids 1, 2, 3 and so on, whatever workers were free; and while the pool
  is open, the tasks that wait in the queue are those of the calls after them, in order, so that
  every call has been started or waits.
\<close>

theorem pool_fifo:
  assumes "pool_run node (new_system k) ls fx s"
  shows "posts fx = map (numbered (asked ls)) [0..<length (posts fx)] \<and>
         (\<not> p_closed (the_pool s) \<longrightarrow>
            posts fx @ p_queue (the_pool s) = map (numbered (asked ls)) [0..<length (asked ls)])"
proof -
  let ?n = "p_nextId (the_pool s) - 1"
  from run_order [OF assms] obtain rest where r:
      "posts fx @ p_queue (the_pool s) @ rest = map (numbered (asked ls)) [0..<?n]"
    and o: "\<not> p_closed (the_pool s) \<Longrightarrow> rest = [] \<and> p_nextId (the_pool s) = Suc (length (asked ls))"
    by (auto simp: in_order_def)
  have "length (posts fx) \<le> ?n" using arg_cong [OF r, of length] by simp
  moreover have "posts fx = take (length (posts fx)) (map (numbered (asked ls)) [0..<?n])"
    unfolding r [symmetric] by simp
  ultimately have "posts fx = map (numbered (asked ls)) [0..<length (posts fx)]"
    by (simp add: take_map)
  with r o show ?thesis by auto
qed

text \<open>Two calls to a pool of one worker, for the witnesses.\<close>

definition two_calls :: "label list" where
  "two_calls = [Call (Sign ''k'' [5]), Call (Sign ''k'' [6])]"

lemma two_calls_run:
  "\<exists>s. pool_run toy_node (new_system 1) two_calls
         [PostMessage 0 \<lparr>m_id = 1, m_op = ''sign'', m_keyPem = ''k'', m_data = [5], m_extra = None\<rparr>] s \<and>
       \<not> p_closed (the_pool s) \<and> alive s 0 \<and>
       p_queue (the_pool s) = [\<lparr>m_id = 2, m_op = ''sign'', m_keyPem = ''k'', m_data = [6], m_extra = None\<rparr>] \<and>
       inbox s 0 = [\<lparr>m_id = 1, m_op = ''sign'', m_keyPem = ''k'', m_data = [5], m_extra = None\<rparr>] \<and>
       p_pending (the_pool s) = [(1, 0), (2, 1)] \<and> stats (the_pool s) = \<lparr>s_workers = 1, s_idle = 0, s_queued = 1, s_inflight = 2\<rparr>"
proof -
  have "\<exists>s. pool_execs toy_node (new_system 1) two_calls =
      Some ([PostMessage 0 \<lparr>m_id = 1, m_op = ''sign'', m_keyPem = ''k'', m_data = [5], m_extra = None\<rparr>], s) \<and>
       \<not> p_closed (the_pool s) \<and> alive s 0 \<and>
       p_queue (the_pool s) = [\<lparr>m_id = 2, m_op = ''sign'', m_keyPem = ''k'', m_data = [6], m_extra = None\<rparr>] \<and>
       inbox s 0 = [\<lparr>m_id = 1, m_op = ''sign'', m_keyPem = ''k'', m_data = [5], m_extra = None\<rparr>] \<and>
       p_pending (the_pool s) = [(1, 0), (2, 1)] \<and> stats (the_pool s) = \<lparr>s_workers = 1, s_idle = 0, s_queued = 1, s_inflight = 2\<rparr>"
    by (simp add: pool_eval two_calls_def stats_def)
  then show ?thesis using pool_run_execs by blast
qed

theorem pool_fifo_witness:
  "\<exists>s :: (unit, unit) pool_system. \<not> p_closed (the_pool s) \<and>
     p_queue (the_pool s) = [numbered (asked two_calls) 1]"
proof -
  obtain s where r: "pool_run toy_node (new_system 1) two_calls
         [PostMessage 0 \<lparr>m_id = 1, m_op = ''sign'', m_keyPem = ''k'', m_data = [5], m_extra = None\<rparr>] s"
    and o: "\<not> p_closed (the_pool s)"
    using two_calls_run by blast
  have "length (asked two_calls) = 2" by (simp add: two_calls_def)
  with pool_fifo [OF r] o have "p_queue (the_pool s) = [numbered (asked two_calls) 1]"
    by (simp add: upt_rec)
  with o show ?thesis by blast
qed

text \<open>C24. Bounded by design: a worker never has more than one task, posted or answered and not yet
  taken from it, so never more than \<open>size\<close> tasks are out; and no task waits in the queue while a
  worker of the open pool that is still alive has nothing to do.
\<close>

theorem pool_load:
  assumes "pool_run node (new_system k) ls fx s"
  shows "load s w \<le> 1 \<and> (\<Sum>w<k. load s w) \<le> k \<and>
         (p_queue (the_pool s) \<noteq> [] \<and> calm fx \<longrightarrow> (\<forall>w<k. alive s w \<longrightarrow> load s w = 1))"
proof -
  note sch = run_scheduled [OF assms] and ord = run_order [OF assms]
  have le: "load s w \<le> 1" for w using sch by (simp add: scheduled_def loads_ok_def)
  have "(\<Sum>w<k. load s w) \<le> (\<Sum>w<k. 1)" by (intro sum_mono le)
  moreover have "load s w = 1"
    if "p_queue (the_pool s) \<noteq> []" "calm fx" "w < k" "alive s w" for w
  proof -
    from that(1) ord have "\<not> p_closed (the_pool s)" and "p_idle (the_pool s) = []" by (auto simp: in_order_def)
    with sch that(2-4) show ?thesis by (simp add: scheduled_def busy_ok_def)
  qed
  ultimately show ?thesis using le by simp
qed

theorem pool_load_witness:
  "\<exists>s. p_queue (the_pool s) \<noteq> [] \<and> load (s :: (unit, unit) pool_system) 0 = 1"
proof -
  obtain s where r: "pool_run toy_node (new_system 1) two_calls
         [PostMessage 0 \<lparr>m_id = 1, m_op = ''sign'', m_keyPem = ''k'', m_data = [5], m_extra = None\<rparr>] s"
    and o: "p_queue (the_pool s) \<noteq> []" "alive s 0"
    using two_calls_run by fastforce
  from pool_load [OF r, of 0] o show ?thesis by (intro exI [of _ s]) simp
qed

text \<open>The number of workers with a task.\<close>

definition busy :: "nat \<Rightarrow> ('pub, 'priv) pool_system \<Rightarrow> nat" where
  "busy k s = card {w. w < k \<and> load s w = 1}"

lemma sum_load:
  fixes f :: "nat \<Rightarrow> nat"
  assumes "\<And>w. f w \<le> 1"
  shows "(\<Sum>w<k. f w) = card {w. w < k \<and> f w = 1}"
proof -
  have "(\<Sum>w<k. f w) = (\<Sum>w<k. if f w = 1 then 1 else 0)"
    using assms by (intro sum.cong) (auto simp: le_Suc_eq)
  also have "\<dots> = card {w. w < k \<and> f w = 1}" by (simp add: sum.If_cases lessThan_def Int_def)
  finally show ?thesis .
qed

text \<open>What \<open>stats\<close> reports of an open pool in which no worker has died and no exception escaped:
  all workers; as idle those that have no task; the tasks waiting; and as \<open>inflight\<close> the tasks of
  the busy workers and the waiting ones together, so not only the tasks dispatched to workers.
\<close>

theorem pool_stats_meaning:
  assumes "pool_run node (new_system k) ls fx s"
    and "\<not> p_closed (the_pool s)" and "healthy ls" and "calm fx"
  shows "stats (the_pool s) =
    \<lparr>s_workers = k, s_idle = k - busy k s, s_queued = length (p_queue (the_pool s)),
     s_inflight = busy k s + length (p_queue (the_pool s))\<rparr>"
proof -
  let ?p = "the_pool s"
  note sch = run_scheduled [OF assms(1)]
  have loads: "loads_ok k s" and fl: "flight k s = keys ?p" and b: "busy_ok k s" and al: "\<forall>w<k. alive s w"
    and ws: "p_workers ?p = [0..<k]"
    using sch assms(2-4) by (simp_all add: scheduled_def)
  have le: "load s w \<le> 1" for w using loads by (simp add: loads_ok_def)
  have sum: "(\<Sum>w<n. size (cargo s w)) = (\<Sum>w<n. load s w)" for n by (simp add: size_cargo)
  have "size (\<Sum>w<n. cargo s w) = (\<Sum>w<n. size (cargo s w))" for n by (induction n) simp_all
  then have "size (flight k s) = length (p_queue ?p) + busy k s"
    using sum_load [of "load s" k] le by (simp add: flight_def sum busy_def)
  with fl have "length (p_pending ?p) = length (p_queue ?p) + busy k s" by (simp add: keys_def)
  moreover have "set (p_idle ?p) = {..<k} - {w. w < k \<and> load s w = 1}"
    using loads b al by (force simp: loads_ok_def busy_ok_def)
  then have "length (p_idle ?p) = k - busy k s"
  proof -
    have "length (p_idle ?p) = card (set (p_idle ?p))"
      using loads by (simp add: loads_ok_def distinct_card)
    also have "\<dots> = k - busy k s"
      unfolding \<open>set (p_idle ?p) = _\<close> busy_def by (subst card_Diff_subset) auto
    finally show ?thesis .
  qed
  ultimately show ?thesis by (simp add: stats_def ws)
qed

theorem pool_stats_meaning_witness:
  "\<exists>s. stats (the_pool s) = \<lparr>s_workers = 1, s_idle = 0, s_queued = 1, s_inflight = 2\<rparr> \<and>
       busy 1 (s :: (unit, unit) pool_system) = 1"
proof -
  obtain s where r: "pool_run toy_node (new_system 1) two_calls
         [PostMessage 0 \<lparr>m_id = 1, m_op = ''sign'', m_keyPem = ''k'', m_data = [5], m_extra = None\<rparr>] s"
    and o: "\<not> p_closed (the_pool s)"
    and st: "stats (the_pool s) = \<lparr>s_workers = 1, s_idle = 0, s_queued = 1, s_inflight = 2\<rparr>"
    and q: "length (p_queue (the_pool s)) = 1"
    using two_calls_run by force
  have "healthy two_calls" by (simp add: healthy_def two_calls_def)
  from pool_stats_meaning [OF r o this] st q have "busy 1 s = 1" by simp
  with st show ?thesis by blast
qed

end
