(* ===== verification/Pool_Progress.thy ===== *)
theory Pool_Progress
  imports Pool_Schedule
begin

section \<open>Progress of the pool, and where it stops\<close>

text \<open>
  The workers' steps (serving a message, delivering a reply) terminate, with a bound, and end with
  every call settled, as long as no worker dies. What a dying worker had is lost: its call stays
  unsettled until the pool is closed.
\<close>

subsection \<open>Work terminates\<close>

fun is_work :: "label \<Rightarrow> bool" where
  "is_work (Serve w rnd) \<longleftrightarrow> True"
| "is_work (Deliver w) \<longleftrightarrow> True"
| "is_work _ \<longleftrightarrow> False"

definition todo_of :: "('pub, 'priv) pool_system \<Rightarrow> nat \<Rightarrow> nat" where
  "todo_of s w = 2 * length (inbox s w) + length (outbox s w)"

definition work :: "nat \<Rightarrow> ('pub, 'priv) pool_system \<Rightarrow> nat" where
  "work k s = 3 * length (p_queue (the_pool s)) + (\<Sum>w<k. todo_of s w)"

lemma loads_less: "loads_ok k s \<Longrightarrow> load s w \<noteq> 0 \<Longrightarrow> w < k"
  by (meson loads_ok_def not_less)

lemma release_work:
  assumes "w < k" and "release w (the_pool s) = (p, hx)"
  shows "work k (deliver_posts hx (s\<lparr>the_pool := p\<rparr>)) \<le> work k s"
proof (cases "p_queue (the_pool s)")
  case Nil
  with assms(2) show ?thesis by (auto simp: release_def work_def todo_of_def)
next
  case (Cons m ms)
  let ?s = "deliver_posts hx (s\<lparr>the_pool := p\<rparr>)"
  have hx: "hx = [PostMessage w m]" and p: "p_queue p = ms" using assms(2) Cons by (auto simp: release_def)
  have "todo_of ?s v = todo_of s v" if "v \<noteq> w" for v using that by (simp add: hx todo_of_def)
  moreover have "todo_of ?s w \<le> todo_of s w + 2" by (simp add: hx todo_of_def)
  ultimately show ?thesis
    using sum_upd [OF assms(1), of "todo_of ?s" "todo_of s"] Cons by (simp add: work_def p)
qed

lemma work_decreases:
  assumes "pool_step node s l gx s'" and "is_work l" and "loads_ok k s"
  shows "work k s' < work k s"
  using assms(1)
proof cases
  case (serve w m ms rnd mem rs)
  have w: "w < k" by (rule loads_less [OF assms(3)]) (simp add: load_def serve)
  have "length rs = 1" using serve(6) by (auto simp: worker_message_def split_beta)
  then have "todo_of s' w < todo_of s w" by (simp add: todo_of_def serve)
  moreover have "todo_of s' v = todo_of s v" if "v \<noteq> w" for v using that by (simp add: todo_of_def serve)
  ultimately show ?thesis
    using sum_upd [OF w, of "todo_of s'" "todo_of s"] by (simp add: work_def serve)
next
  case (deliver w r rs p)
  have w: "w < k" by (rule loads_less [OF assms(3)]) (simp add: load_def deliver)
  define s1 where "s1 = s\<lparr>outbox := (outbox s)(w := rs)\<rparr>"
  have "todo_of s1 w < todo_of s w" by (simp add: todo_of_def s1_def deliver)
  moreover have "todo_of s1 v = todo_of s v" if "v \<noteq> w" for v using that by (simp add: todo_of_def s1_def)
  ultimately have less: "work k s1 < work k s"
    using sum_upd [OF w, of "todo_of s1" "todo_of s"] by (simp add: work_def s1_def)
  have any: "work k (s1\<lparr>the_pool := q\<rparr>) = work k s1" if "p_queue q = p_queue (the_pool s)" for q
    using that by (simp add: work_def todo_of_def s1_def)
  have "s\<lparr>the_pool := p, outbox := (outbox s)(w := rs)\<rparr> = s1\<lparr>the_pool := p\<rparr>" by (simp add: s1_def)
  then have s': "s' = deliver_posts gx (s1\<lparr>the_pool := p\<rparr>)" using deliver(2) by simp
  show ?thesis
  proof (cases "map_of (p_pending (the_pool s)) (reply_id r)")
    case None
    then have "p = the_pool s" "gx = []" using deliver by (simp_all add: pool_message.simps)
    then show ?thesis using less any [of "the_pool s"] by (simp add: s')
  next
    case (Some n)
    from Some deliver(4) show ?thesis
    proof (cases rule: message_release)
      case (settle e hx)
      let ?q = "the_pool s\<lparr>p_pending := AList.delete (reply_id r) (p_pending (the_pool s))\<rparr>"
      have "work k (deliver_posts hx (s1\<lparr>the_pool := ?q\<rparr>\<lparr>the_pool := p\<rparr>)) \<le> work k (s1\<lparr>the_pool := ?q\<rparr>)"
        by (rule release_work [OF w]) (use settle(1) in simp)
      then have "work k (deliver_posts hx (s1\<lparr>the_pool := p\<rparr>)) \<le> work k s1" by (simp add: any)
      with less show ?thesis by (simp add: s' settle(2) no_post [OF settle(3)])
    next
      case (throw e)
      then show ?thesis using less by (simp add: s' any)
    qed
  qed
qed (use assms(2) in simp_all)

subsection \<open>A node whose errors say something never makes the reply handler throw\<close>

definition informative :: "('pub, 'priv) node_crypto \<Rightarrow> bool" where
  "informative node \<longleftrightarrow> (\<forall>rnd m e. serve node rnd m = Inl e \<longrightarrow> message e \<noteq> [])"

lemma calm_message:
  assumes "informative node" and "\<And>n. map_of (p_pending p) (reply_id r) = Some n \<Longrightarrow> answers node cs n r"
  shows "calm (snd (pool_message w r p))"
proof (cases "map_of (p_pending p) (reply_id r)")
  case (Some n)
  from assms(2) [OF this] obtain rnd where "r = reply_of (reply_id r) (serve node rnd (task_of (cs ! n)))"
    by (auto simp: answers_def)
  moreover have "message e \<noteq> []" if "serve node rnd (task_of (cs ! n)) = Inl e" for e
    using assms(1) that by (auto simp: informative_def)
  ultimately have "(\<exists>x. r = Result (reply_id r) x) \<or> (\<exists>e. r = Failure (reply_id r) e \<and> e \<noteq> [])"
    by (cases "serve node rnd (task_of (cs ! n))") (auto simp: reply_of_def)
  then show ?thesis
    unfolding pool_message_Some [OF Some] by (cases r) (auto simp: release_pool)
qed (simp add: pool_message.simps)

lemma calm_dispatch: "calm (snd (call_pool c p))"
  by (simp add: call_pool_task dispatch_fields)

lemma calm_close: "calm (snd (pool_close p))" "calm (snd (pool_closed p))"
proof -
  have "calm (map Terminate ws)" and "calm (map (\<lambda>(i, n). Refuse n e) xs)" for ws e and xs :: "(nat \<times> nat) list"
    by (induction ws, simp_all) (induction xs, auto)
  then show "calm (snd (pool_close p))" "calm (snd (pool_closed p))"
    by (simp_all add: pool_close_def pool_closed_def)
qed

lemma run_calm: "pool_run node (new_system k) ls fx s \<Longrightarrow> informative node \<Longrightarrow> calm fx"
proof (induction rule: pool_run.induct)
  case (step ls fx s l gx s')
  have "calm gx"
    using step.hyps(2)
  proof cases
    case (call c p)
    then show ?thesis using calm_dispatch [of c "the_pool s"] by simp
  next
    case (deliver w r rs p)
    have "r \<in> set (outbox s w)" by (simp add: deliver)
    then have "calm (snd (pool_message w r (the_pool s)))"
      using run_routed [OF step.hyps(1)] by (intro calm_message [OF step.prems, where cs = "asked ls"]) (simp add: routed_def)
    then show ?thesis by (simp add: deliver)
  next
    case (close p)
    then show ?thesis using calm_close(1) [of "the_pool s"] by simp
  next
    case (close_done p)
    then show ?thesis using calm_close(2) [of "the_pool s"] by simp
  qed simp_all
  with step show ?case by simp
qed simp

subsection \<open>The pool drains\<close>

lemma pool_run_append:
  assumes "pool_run node s0 ls fx s" and "pool_run node s ms gx s'"
  shows "pool_run node s0 (ls @ ms) (fx @ gx) s'"
  using assms(2)
proof (induction rule: pool_run.induct)
  case (step ms gx t l hx t')
  from pool_run.step [OF step.IH step.hyps(2)] show ?case by simp
qed (use assms(1) in simp)

lemma run_open: "pool_run node (new_system k) ls fx s \<Longrightarrow> Close \<notin> set ls \<Longrightarrow> \<not> p_closed (the_pool s)"
proof (induction rule: pool_run.induct)
  case start
  show ?case by (simp add: new_system_pool)
next
  case (step ls fx s l gx s')
  from step.hyps(2) show ?case
  proof cases
    case (call c p)
    with step pool_flags(2) [of c "the_pool s"] show ?thesis by simp
  next
    case (deliver w r rs p)
    with step pool_flags(1) [of w r "the_pool s"] show ?thesis by simp
  next
    case (close p)
    with step.prems show ?thesis by simp
  next
    case (close_done p)
    with step pool_flags(4) [of "the_pool s"] show ?thesis by simp
  qed (use step in simp_all)
qed

lemma work_bound:
  assumes "pool_run node s ws gx s'" and "list_all is_work ws"
    and "pool_run node (new_system k) ls fx s"
  shows "length ws + work k s' \<le> work k s"
  using assms
proof (induction rule: pool_run.induct)
  case (step ws gx t l hx t')
  have "loads_ok k t"
    using run_scheduled [OF pool_run_append [OF assms(3) step.hyps(1)]] by (simp add: scheduled_def)
  with work_decreases [OF step.hyps(2)] step show ?case by fastforce
qed simp

lemma work_pending:
  assumes "pool_run node (new_system k) ls fx s" and "healthy ls" and "Close \<notin> set ls"
  shows "work k s \<le> 3 * length (p_pending (the_pool s))"
proof -
  have fl: "flight k s = keys (the_pool s)"
    using run_scheduled [OF assms(1)] run_open [OF assms(1,3)] assms(2) by (simp add: scheduled_def)
  have "size (\<Sum>w<n. cargo s w) = (\<Sum>w<n. load s w)" for n by (induction n) (simp_all add: size_cargo)
  with fl have n: "length (p_pending (the_pool s)) = length (p_queue (the_pool s)) + (\<Sum>w<k. load s w)"
    by (metis flight_def keys_def length_map size_mset size_union)
  have "(\<Sum>w<k. todo_of s w) \<le> (\<Sum>w<k. 3 * load s w)" by (intro sum_mono) (simp add: todo_of_def load_def)
  then have "(\<Sum>w<k. todo_of s w) \<le> 3 * (\<Sum>w<k. load s w)" by (simp add: sum_distrib_left)
  with n show ?thesis by (simp add: work_def)
qed

lemma stuck_loads:
  assumes "\<And>l hx t. is_work l \<Longrightarrow> \<not> pool_step node s l hx t" and "alive s w"
  shows "load s w = 0"
proof -
  have "outbox s w = []"
    using assms(1) [of "Deliver w"] by (cases "outbox s w"; cases "pool_message w (hd (outbox s w)) (the_pool s)")
      (auto simp: pool_step_simps)
  moreover have "inbox s w = []"
    using assms(1) [of "Serve w []"] assms(2)
    by (cases "inbox s w"; cases "worker_message node (memory s w) ([], hd (inbox s w))") (auto simp: pool_step_simps)
  ultimately show ?thesis by (simp add: load_def)
qed

lemma stuck_settled:
  assumes "informative node" and "0 < k" and run: "pool_run node (new_system k) ls fx s"
    and "healthy ls" and "Close \<notin> set ls" and stuck: "\<forall>l hx t. is_work l \<longrightarrow> \<not> pool_step node s l hx t"
  shows "p_pending (the_pool s) = [] \<and> p_queue (the_pool s) = [] \<and> (\<forall>n<length (asked ls). settled n fx = 1)"
proof -
  have cl: "\<not> p_closed (the_pool s)" by (rule run_open [OF run assms(5)])
  have calm: "calm fx" by (rule run_calm [OF run assms(1)])
  have sch: "loads_ok k s" "flight k s = keys (the_pool s)" "busy_ok k s" "\<forall>w<k. alive s w"
    using run_scheduled [OF run] assms(4) cl calm by (simp_all add: scheduled_def)
  have zero: "load s w = 0" if "w < k" for w
    using stuck_loads [of node s w] stuck sch(4) that by blast
  with sch(3,4) assms(2) have "0 \<in> set (p_idle (the_pool s))" by (auto simp: busy_ok_def)
  then have q: "p_queue (the_pool s) = []" using run_order [OF run] by (auto simp: in_order_def)
  have "cargo s w = {#}" if "w < k" for w
    using zero [OF that] size_cargo [of s w] by simp
  then have "(\<Sum>w<k. cargo s w) = {#}" by (intro sum.neutral) simp
  with sch(2) q have p: "p_pending (the_pool s) = []" by (simp add: flight_def keys_def)
  have "settled n fx = 1" if "n < length (asked ls)" for n
    using run_accounted [OF run] calm that p by (simp add: accounted_def owed_def)
  with p q show ?thesis by simp
qed

text \<open>C9. No call is forgotten: from any state of an open pool with at least one worker, none of which
  has died, the workers can take at most three steps per pending call before there is nothing left
  to do, in whatever order they run; and when there is nothing left to do, every call has been
  settled exactly once, no task is pending and no task waits.
\<close>

theorem pool_drains:
  assumes "informative node" and "0 < k" and "pool_run node (new_system k) ls fx s"
    and "healthy ls" and "Close \<notin> set ls"
    and "pool_run node s ws gx s'" and "list_all is_work ws"
  shows "length ws \<le> 3 * length (p_pending (the_pool s)) \<and>
         ((\<forall>l hx t. is_work l \<longrightarrow> \<not> pool_step node s' l hx t) \<longrightarrow>
            p_pending (the_pool s') = [] \<and> p_queue (the_pool s') = [] \<and>
            (\<forall>n<length (asked ls). settled n (fx @ gx) = 1))"
proof -
  have "length ws \<le> 3 * length (p_pending (the_pool s))"
    using work_bound [OF assms(6,7,3)] work_pending [OF assms(3-5)] by simp
  moreover have "healthy (ls @ ws)" "Close \<notin> set (ls @ ws)" "asked (ls @ ws) = asked ls"
    using assms(4,5,7) by (induction ws rule: asked.induct; simp add: healthy_def)+
  with stuck_settled [OF assms(1,2) pool_run_append [OF assms(3,6)]]
  have "(\<forall>l hx t. is_work l \<longrightarrow> \<not> pool_step node s' l hx t) \<longrightarrow>
            p_pending (the_pool s') = [] \<and> p_queue (the_pool s') = [] \<and>
            (\<forall>n<length (asked ls). settled n (fx @ gx) = 1)" by simp
  ultimately show ?thesis ..
qed

lemma toy_informative: "informative toy_node"
  by (auto simp: informative_def serve_def toy_node_def toy_rsa_def load_pub_def load_priv_def loadPublicKey_def
      loadPrivateKey_def rsaEncrypt_def rsaDecrypt_def rsaSign_def verify_byte_def Let_def split: if_splits list.splits)

theorem pool_drains_witness:
  "\<exists>gx s'. pool_run toy_node (new_system 1)
       (two_calls @ [Serve 0 [], Deliver 0, Serve 0 [], Deliver 0]) gx s' \<and>
     p_pending (the_pool s') = [] \<and> settled 0 gx = 1 \<and> settled 1 gx = 1"
proof -
  let ?fx = "[PostMessage 0 \<lparr>m_id = 1, m_op = ''sign'', m_keyPem = ''k'', m_data = [5], m_extra = None\<rparr>]"
  let ?ws = "[Serve 0 [], Deliver 0, Serve 0 [], Deliver 0]"
  have "\<exists>s gx s'. pool_execs toy_node (new_system 1) two_calls = Some (?fx, s) \<and>
      pool_execs toy_node s ?ws = Some (gx, s') \<and> (\<forall>w. inbox s' w = [] \<and> outbox s' w = [])"
    by (simp add: pool_eval two_calls_def)
  then obtain s gx s' where r: "pool_run toy_node (new_system 1) two_calls ?fx s"
    and r': "pool_run toy_node s ?ws gx s'" and e: "\<And>w. inbox s' w = []" "\<And>w. outbox s' w = []"
    using pool_run_execs by blast
  have stuck: "\<not> pool_step toy_node s' l hx t" if "is_work l" for l hx t
    using that e by (cases l) (auto simp: pool_step_simps)
  have c: "healthy two_calls" "Close \<notin> set two_calls" "length (asked two_calls) = 2"
    by (simp_all add: healthy_def two_calls_def)
  have "p_pending (the_pool s') = [] \<and> (\<forall>n<2. settled n (?fx @ gx) = 1)"
    using pool_drains [OF toy_informative _ r c(1,2) r'] stuck c(3) by simp
  with pool_run_append [OF r r'] show ?thesis by (intro exI [of _ "?fx @ gx"] exI [of _ s']) auto
qed

subsection \<open>A dying worker strands its call\<close>

text \<open>The task with id \<open>i\<close> of call \<open>n\<close> is pending, and nowhere to be found.\<close>

definition lost :: "nat \<Rightarrow> nat \<Rightarrow> ('pub, 'priv) pool_system \<Rightarrow> bool" where
  "lost i n s \<longleftrightarrow>
     books_ok (the_pool s) \<and> map_of (p_pending (the_pool s)) i = Some n \<and>
     (\<forall>m\<in>flying s. m_id m \<noteq> i) \<and> (\<forall>w. \<forall>r\<in>set (outbox s w). reply_id r \<noteq> i)"

lemma lost_calls: "lost i n s \<Longrightarrow> n < p_calls (the_pool s) \<and> i < p_nextId (the_pool s) \<and> owed n (the_pool s) = 1"
proof -
  assume l: "lost i n s"
  then have "(i, n) \<in> set (p_pending (the_pool s))" by (simp add: lost_def map_of_SomeD)
  moreover from this have "n \<in> snd ` set (p_pending (the_pool s))" by (rule image_eqI [rotated]) simp
  ultimately show ?thesis using l by (auto simp: lost_def books_ok_def owed_def)
qed

lemma lostD:
  assumes "lost i n s"
  shows "books_ok (the_pool s)" and "map_of (p_pending (the_pool s)) i = Some n"
    and "\<And>m. m \<in> flying s \<Longrightarrow> m_id m \<noteq> i" and "\<And>w r. r \<in> set (outbox s w) \<Longrightarrow> reply_id r \<noteq> i"
  using assms by (auto simp: lost_def)

lemma lost_call:
  assumes "lost i n s" and "call_pool c (the_pool s) = (p, gx)"
  shows "lost i n (deliver_posts gx (s\<lparr>the_pool := p\<rparr>))"
proof -
  let ?q = "the_pool s" and ?s = "deliver_posts gx (s\<lparr>the_pool := p\<rparr>)"
  note l = lostD [OF assms(1)] and c = lost_calls [OF assms(1)]
  have p: "p = fst (pool_dispatch (task_of c) ?q)" and gx: "gx = snd (pool_dispatch (task_of c) ?q)"
    using assms(2) by (simp_all add: call_pool_task)
  have t: "tasks (the_pool ?s, gx) \<subseteq> set (p_queue ?q) \<union> {(task_of c)\<lparr>m_id := p_nextId ?q\<rparr>}"
    using dispatch_tasks [of "task_of c" ?q] by (auto simp: p gx split: if_splits)
  have "m_id m \<noteq> i" if "m \<in> flying ?s" for m
  proof -
    have "m \<in> flying s \<or> m \<in> {(task_of c)\<lparr>m_id := p_nextId ?q\<rparr>}"
      by (rule flying_step [of m gx "s\<lparr>the_pool := p\<rparr>"]) (use that t in simp_all)
    with l(3) [of m] c show ?thesis by auto
  qed
  moreover have "books_ok p" using dispatch_honours [OF l(1)] by (simp add: honours_def p)
  ultimately show ?thesis using l(2,4) c by (simp add: lost_def p dispatch_pending)
qed

lemma lost_deliver:
  assumes "lost i n s" and "outbox s w = r # rs" and "pool_message w r (the_pool s) = (p, gx)"
  shows "lost i n (deliver_posts gx (s\<lparr>the_pool := p, outbox := (outbox s)(w := rs)\<rparr>))"
proof -
  let ?q = "the_pool s" and ?s = "deliver_posts gx (s\<lparr>the_pool := p, outbox := (outbox s)(w := rs)\<rparr>)"
  note l = lostD [OF assms(1)]
  have p: "p = fst (pool_message w r ?q)" using assms(3) by simp
  have ne: "reply_id r \<noteq> i" by (rule l(4) [of _ w]) (simp add: assms(2))
  have keep: "map_of (p_pending p) i = Some n"
    using l(2) ne by (auto simp: p pool_message.simps Let_def release_pool delete_conv' split: option.split reply.split)
  have t: "tasks (the_pool ?s, gx) \<subseteq> set (p_queue ?q) \<union> {}"
    using message_tasks [of w r ?q] assms(3) by simp
  have "m_id m \<noteq> i" if "m \<in> flying ?s" for m
  proof -
    have "m \<in> flying s \<or> m \<in> {}"
      by (rule flying_step [of m gx "s\<lparr>the_pool := p, outbox := (outbox s)(w := rs)\<rparr>"]) (use that t in simp_all)
    with l(3) [of m] show ?thesis by auto
  qed
  moreover have "books_ok p" using message_honours [OF l(1), of w r] by (simp add: honours_def p)
  moreover have "reply_id x \<noteq> i" if "x \<in> set (outbox ?s v)" for v x
    using l(4) [of x v] that assms(2) by (auto split: if_splits)
  ultimately show ?thesis using keep by (simp add: lost_def)
qed

lemma lost_step:
  assumes "pool_step node s l gx s'" and "l \<noteq> CloseDone" and "lost i n s"
  shows "lost i n s' \<and> settled n gx = 0"
proof -
  let ?q = "the_pool s"
  note l = lostD [OF assms(3)] and c = lost_calls [OF assms(3)]
  have "lost i n s'"
    using assms(1)
  proof cases
    case (call c' p)
    then show ?thesis using lost_call [OF assms(3)] by simp
  next
    case (serve w m ms rnd mem rs)
    have m: "m \<in> flying s" by (rule inbox_flying [of _ _ w]) (simp add: serve)
    have id: "reply_id (reply_of j x) = j" for j x by (simp add: reply_of_def split: sum.split)
    have rs: "\<exists>x. rs = [reply_of (m_id m) x]" using serve(6) by (auto simp: worker_message_def split_beta)
    have "m' \<in> flying s" if "m' \<in> flying s'" for m'
      using that serve(5) inbox_flying [of m' s w] by (auto simp: serve(3) flying_def split: if_splits)
    then show ?thesis using l m rs id by (fastforce simp: lost_def serve(3) split: if_splits)
  next
    case (deliver w r rs p)
    then show ?thesis using lost_deliver [OF assms(3)] by simp
  next
    case (die w e)
    have "m \<in> flying s" if "m \<in> flying s'" for m
      using that by (auto simp: die(3) flying_def split: if_splits)
    then show ?thesis using l by (auto simp: lost_def die(3))
  next
    case (close p)
    then have "p = fst (pool_close ?q)" by simp
    then show ?thesis using l close_honours [OF l(1)]
      by (auto simp: lost_def close(2) flying_def pool_close_def honours_def)
  next
    case close_done
    with assms(2) show ?thesis by simp
  qed
  moreover have "settled n gx + owed n (the_pool s') \<le> owed n ?q + of_bool (p_calls ?q \<le> n \<and> n < p_calls (the_pool s'))"
    using step_honours [OF assms(1) l(1)] unfolding honours_def fst_conv snd_conv by blast
  ultimately show ?thesis using c lost_calls [of i n s'] by simp
qed

lemma lost_run:
  "pool_run node s ls gx s' \<Longrightarrow> lost i n s \<Longrightarrow> CloseDone \<notin> set ls \<Longrightarrow> lost i n s' \<and> settled n gx = 0"
  by (induction rule: pool_run.induct) (simp, use lost_step in fastforce)

text \<open>The task a worker has is nowhere else.\<close>

lemma sole_place:
  assumes "pool_run node (new_system k) ls fx s" and "Close \<notin> set ls"
    and "inbox s w = m # ms" and "pool_step node s (Die w e) hx s'"
    and "map_of (p_pending (the_pool s)) (m_id m) = Some n"
  shows "lost (m_id m) n s'"
proof -
  note sch = run_scheduled [OF assms(1)]
  have b: "books_ok (the_pool s)" using run_accounted [OF assms(1)] by (simp add: accounted_def)
  have loads: "loads_ok k s" and sub: "flight k s \<subseteq># keys (the_pool s)"
    using sch run_open [OF assms(1,2)] by (simp_all add: scheduled_def)
  have "load s w \<noteq> 0" by (simp add: load_def assms(3))
  with loads have w: "w < k" by (rule loads_less)
  have s': "s' = s\<lparr>alive := (alive s)(w := False), inbox := (inbox s)(w := [])\<rparr>"
    using assms(4) by (simp add: pool_step_simps)
  have "cargo s' w + {#m_id m#} \<subseteq># cargo s w" by (simp add: cargo_def s' assms(3) mset_subset_eq_add_left)
  then obtain d where "cargo s w = cargo s' w + {#m_id m#} + d" by (metis mset_subset_eq_exists_conv)
  moreover have "(\<Sum>w<k. cargo s' w) + cargo s w = (\<Sum>w<k. cargo s w) + cargo s' w"
    by (rule flight_upd [OF w]) (simp add: cargo_def s')
  ultimately have "flight k s = add_mset (m_id m) (flight k s') + d" by (simp add: flight_def s')
  then have "add_mset (m_id m) (flight k s') \<subseteq># flight k s" by simp
  with sub have "add_mset (m_id m) (flight k s') \<subseteq># keys (the_pool s)" by (rule subset_mset.order_trans [rotated])
  from mset_subset_eq_count [OF this, of "m_id m"]
  have le: "count (flight k s') (m_id m) < count (keys (the_pool s)) (m_id m)" by simp
  have "count (keys (the_pool s)) (m_id m) \<le> 1"
    using b by (simp add: keys_def books_ok_def distinct_count_atmost_1)
  with le have "m_id m \<notin># flight k s'" by (simp add: not_in_iff)
  have "m_id x \<noteq> m_id m" if "x \<in> set (inbox s' v) \<and> v < k \<or> x \<in> set (p_queue (the_pool s'))" for x v
    using that
  proof
    assume "x \<in> set (p_queue (the_pool s'))"
    then have "m_id x \<in># flight k s'" by (simp add: flight_def)
    with \<open>m_id m \<notin># flight k s'\<close> show ?thesis by metis
  qed (use cargo_mem(1) [of x s' v k] \<open>m_id m \<notin># flight k s'\<close> in metis)
  moreover have "reply_id r \<noteq> m_id m" if "r \<in> set (outbox s' v)" "v < k" for r v
    using that \<open>m_id m \<notin># flight k s'\<close> cargo_mem(2) [of r s' v k] by auto
  moreover have "inbox s' v = [] \<and> outbox s' v = []" if "\<not> v < k" for v
    using loads that by (auto simp: loads_ok_def load_def s')
  ultimately show ?thesis
    using b assms(5) by (fastforce simp: lost_def flying_def s')
qed

text \<open>C40. A worker that dies takes its call with it: the pool only emits the error, so the promise of
  the task the worker was given is neither fulfilled nor rejected, whatever happens afterwards, until
  the pool is closed, although per-task failures are said to reject the promise.
\<close>

theorem worker_death_strands:
  assumes "pool_run node (new_system k) ls fx s" and "Close \<notin> set ls"
    and "inbox s w = m # ms" and "map_of (p_pending (the_pool s)) (m_id m) = Some n"
    and "pool_run node s' ls' gx s''" and "pool_step node s (Die w e) hx s'" and "CloseDone \<notin> set ls'"
  shows "settled n (hx @ gx) = 0 \<and> n \<in> snd ` set (p_pending (the_pool s''))"
proof -
  have "settled n hx = 0" using assms(6) by (simp add: pool_step_simps)
  moreover from lost_run [OF assms(5) sole_place [OF assms(1-3,6,4)] assms(7)]
  have "lost (m_id m) n s''" "settled n gx = 0" by simp_all
  ultimately show ?thesis
    using lost_calls [of "m_id m" n s''] by (cases "n \<in> snd ` set (p_pending (the_pool s''))") (simp_all add: owed_def)
qed

theorem worker_death_strands_witness:
  "\<exists>gx s. pool_run toy_node (new_system 1) (two_calls @ [Die 0 (Error ''out of memory''), Close]) gx s \<and>
     settled 0 gx = 0 \<and> 0 \<in> snd ` set (p_pending (the_pool s))"
proof -
  let ?fx = "[PostMessage 0 \<lparr>m_id = 1, m_op = ''sign'', m_keyPem = ''k'', m_data = [5], m_extra = None\<rparr>]"
  obtain s where r: "pool_run toy_node (new_system 1) two_calls ?fx s" and al: "alive s 0"
    and i: "inbox s 0 = [\<lparr>m_id = 1, m_op = ''sign'', m_keyPem = ''k'', m_data = [5], m_extra = None\<rparr>]"
    and p: "p_pending (the_pool s) = [(1, 0), (2, 1)]"
    using two_calls_run by blast
  obtain hx s1 where d: "pool_step toy_node s (Die 0 (Error ''out of memory'')) hx s1"
    using al by (auto simp: pool_step_simps)
  obtain gx s2 where c: "pool_step toy_node s1 Close gx s2"
    by (cases "pool_close (the_pool s1)") (auto simp: pool_step_simps)
  have c': "pool_run toy_node s1 [Close] gx s2" using pool_run.step [OF pool_run.start c] by simp
  have "settled 0 (hx @ gx) = 0 \<and> 0 \<in> snd ` set (p_pending (the_pool s2))"
    by (rule worker_death_strands [OF r _ i _ c' d]) (simp_all add: two_calls_def p)
  moreover have "pool_run toy_node (new_system 1) (two_calls @ [Die 0 (Error ''out of memory''), Close]) (?fx @ hx @ gx) s2"
    using pool_run_append [OF r pool_run_Cons [OF d c']] by simp
  ultimately show ?thesis by (intro exI [of _ "?fx @ hx @ gx"] exI [of _ s2]) simp
qed

end
