(* ===== verification/Gateway_Process.thy ===== *)
theory Gateway_Process
  imports World_Runs Pool_Progress
begin

section \<open>What holds of the whole process\<close>

text \<open>
  The theorems on \<open>runHandshake\<close>, on sessions, on the pool and on the loader, put together over the
  runs of theory \<open>Gateway_World\<close>: a session that the gateway announces has authenticated its device
  with the keys that the operator has filed, and no session waits for the pool or the loader in vain.
\<close>

subsection \<open>Authentication\<close>

lemma heard_mem: "FromSession c e \<in> set out \<longleftrightarrow> e \<in> set (heard c out)"
  by (induction c out rule: heard.induct) auto

lemma linked_seat:
  assumes "linked node k dir fs0 opts got ls fx w out" and "heard c out \<noteq> []"
  shows "seat node dir fs0 (g_env opts c) (session_of w c) (heard c out) (got c)"
  using assms by (cases "c < length (conns (w_gateway w))") (auto simp: linked_def)

text \<open>C2. Authentication, in the whole process: whatever the sockets, the host, the worker threads and the
  file system do and in whatever order, when the gateway's session on connection \<open>c\<close> emits
  \<open>handshake\<close> with result \<open>r\<close>, the first 256 bytes of its socket decrypt, under the server's key, to
  the nonce drawn for this very session and the id that \<open>r\<close> reports; the key used for that id is
  the one that the operator has filed under it; what was sent back is the fresh session key encrypted
  under that key, and the server's signature on its MAC; the Hello is the frame that came next; and
  \<open>r\<close> and the bytes written are those of \<open>runHandshake\<close> on these values. Neither another session's
  answers nor a cache or a key that a device offered itself can come in.
\<close>

theorem process_authenticates:
  assumes "run (world_step node dir opts) (new_world k fs0) es = (w, out)"
    and "FromSession c (EmitHandshake r) \<in> set out" and "env = g_env opts c"
  shows "\<exists>blob pt pem ct sig hello h rest sk pk rnd hw sent.
           socket_bytes node dir opts (new_world k fs0) es c = blob @ h @ hello @ rest \<and>
           length blob = 256 \<and> length h = 3 \<and> header_len h = length hello \<and>
           load_priv node (env_serverPriv env) = Inr sk \<and> rsaDecrypt (node_rsa node) sk blob = Inr pt \<and>
           take 40 pt = env_nonce env \<and> 52 \<le> length pt \<and> r_coreId r = to_hex (take 12 (drop 40 pt)) \<and>
           isValidDeviceId (r_coreId r) \<and> readFile fs0 (canonical dir (r_coreId r)) = Inr pem \<and> pem \<noteq> [] \<and>
           load_pub node pem = Inr pk \<and> rsaEncrypt (node_rsa node) pk rnd (env_sessionKey env) = Inr ct \<and>
           rsaSign (node_rsa node) sk (env_hmac env ct (env_sessionKey env)) = Inr sig \<and>
           hw = \<lparr>w_coreId_blob = Inr blob, w_plaintext = Inr pt, w_corePubPem = Inr (Some pem),
                 w_sessionCiphertext = Inr ct, w_signature = Inr sig, w_helloFrame = Inr hello\<rparr> \<and>
           pc (fst (runHandshake env hw)) = Finished r \<and>
           written (heard c out) = concat (snd (runHandshake env hw)) @ sent"
proof -
  obtain ls fx where "linked node k dir fs0 opts (socket_bytes node dir opts (new_world k fs0) es) ls fx w out"
    using world_linked [OF assms(1)] by blast
  moreover have e: "EmitHandshake r \<in> set (heard c out)" using assms(2) by (simp add: heard_mem)
  then have "heard c out \<noteq> []" by auto
  ultimately have "seat node dir fs0 env (session_of w c) (heard c out) (socket_bytes node dir opts (new_world k fs0) es c)"
    unfolding assms(3) by (rule linked_seat)
  then obtain date evs where run: "run (session_step env) (new_session date) (CallRun # evs) = (session_of w c, heard c out)"
    and got: "received evs = socket_bytes node dir opts (new_world k fs0) es c"
    and t: "list_all (truthful node dir fs0) (exchanges env (new_session date) (CallRun # evs))"
    by (auto simp: seat_def)
  have "list_all kind_ok (exchanges env (new_session date) (CallRun # evs))"
    using t by (auto simp: list_all_iff intro: truthful_kind)
  from session_handshake_authentic [OF run e this] obtain blob pt pem ct sig hello hw where
    x: "exchanges env (new_session date) (CallRun # evs) =
             [(Some (ReadBytes 256), GotBytes blob),
              (Some (PoolDecrypt (env_serverPriv env) blob), GotBytes pt),
              (Some (LoadCoreKey (r_coreId r) (if length pt > 52 then Some (drop 52 pt) else None)), GotKey (Some pem)),
              (Some (PoolEncrypt pem (env_sessionKey env)), GotBytes ct),
              (Some (PoolSign (env_serverPriv env) (env_hmac env ct (env_sessionKey env))), GotBytes sig),
              (Some ReadFrame, GotBytes hello)]"
    and id: "take 40 pt = env_nonce env" "r_coreId r = to_hex (take 12 (drop 40 pt))" "52 \<le> length pt" "pem \<noteq> []"
    and rd: "\<exists>h rest. received evs = blob @ h @ hello @ rest \<and> length blob = 256 \<and> length h = 3 \<and> header_len h = length hello"
    and hw: "hw = \<lparr>w_coreId_blob = Inr blob, w_plaintext = Inr pt, w_corePubPem = Inr (Some pem),
                w_sessionCiphertext = Inr ct, w_signature = Inr sig, w_helloFrame = Inr hello\<rparr>"
      "pc (fst (runHandshake env hw)) = Finished r"
      "\<exists>sent. written (heard c out) = concat (snd (runHandshake env hw)) @ sent"
    by metis
  from t obtain sk pk rnd where
    "load_priv node (env_serverPriv env) = Inr sk" "rsaDecrypt (node_rsa node) sk blob = Inr pt"
    "isValidDeviceId (r_coreId r)" "readFile fs0 (canonical dir (r_coreId r)) = Inr pem"
    "load_pub node pem = Inr pk" "rsaEncrypt (node_rsa node) pk rnd (env_sessionKey env) = Inr ct"
    "rsaSign (node_rsa node) sk (env_hmac env ct (env_sessionKey env)) = Inr sig"
    unfolding x by auto
  with id rd [unfolded got] hw show ?thesis by blast
qed

subsection \<open>A process that connects a device\<close>

text \<open>With an RSA that only pads: one worker, one device on file, one connection.\<close>

definition plain_node :: "(unit, unit) node_crypto" where
  "plain_node =
     \<lparr>createPublicKey = (\<lambda>_. Inr ()), createPrivateKey = (\<lambda>_ _. Inr ()),
      node_rsa = \<lparr>publicEncrypt = (\<lambda>_ _ _ m. Inr m), privateDecrypt = (\<lambda>_ _ c. Inr (take 52 c)),
                  privateEncrypt = (\<lambda>_ _ m. Inr m), publicDecrypt = (\<lambda>_ _ c. Inr c)\<rparr>\<rparr>"

definition one_key :: file_system where
  "one_key = empty_fs\<lparr>files := [canonical ''/keys'' (to_hex (replicate 12 0xAB)) \<mapsto> ''DEVICE PEM'']\<rparr>"

definition connecting :: "world_event list" where
  "connecting =
     [OfGateway (Accept ''a:1'' 0 0),
      OfGateway (OnSession 0 1 (Data 1 (replicate 40 1 @ replicate 12 0xAB @ replicate 204 0))), OfGateway (OnSession 0 1 Micro),
      OfPool (Serve 0 []), OfPool (Deliver 0), Continue 0 1, OfLoader 0, Continue 0 1,
      OfPool (Serve 0 []), OfPool (Deliver 0), Continue 0 1, OfPool (Serve 0 []), OfPool (Deliver 0), Continue 0 1,
      OfGateway (OnSession 0 1 (Data 2 ([0, 16, 0xFF] @ toy_hello))), OfGateway (OnSession 0 1 Micro)]"

abbreviation plain_run :: "world_event list \<Rightarrow> (unit, unit) world \<times> gateway_effect list" where
  "plain_run \<equiv> run (world_step plain_node ''/keys'' toy_opts) (new_world 1 one_key)"

text \<open>The Hello frame has arrived, and its continuation is the next to run.\<close>

definition before_hello :: "(unit, unit) world \<Rightarrow> bool" where
  "before_hello w \<longleftrightarrow>
     length (conns (w_gateway w)) = 1 \<and> woken (session_of w 0) = [Resolve FrameBody toy_hello] \<and>
     (case task (session_of w 0) of
        InHandshake hs \<Rightarrow> (case pc hs of AtHello i k v \<Rightarrow> k = replicate 16 2 \<and> v = replicate 16 2 | _ \<Rightarrow> False)
      | _ \<Rightarrow> False)"

lemma connecting_hello: "before_hello (fst (plain_run connecting))"
  by code_simp

lemma hello_connects:
  assumes "before_hello w"
  shows "\<exists>r. FromSession 0 (EmitHandshake r) \<in>
           set (snd (world_step plain_node ''/keys'' toy_opts w (OfGateway (OnSession 0 1 Micro))))"
proof -
  let ?s = "session_of w 0"
  from assms obtain hs i where n: "length (conns (w_gateway w)) = 1" and wk: "woken ?s = [Resolve FrameBody toy_hello]"
    and t: "task ?s = InHandshake hs" and p: "pc hs = AtHello i (replicate 16 2) (replicate 16 2)"
    by (auto simp: before_hello_def split: task.splits hs_pc.splits)
  have env: "g_env toy_opts 0 = toy_env" "env_D toy_env = xor_cipher" by (simp_all add: toy_opts_def toy_env_def)
  have "w_helloFrame toy_world = Inr toy_hello" by (simp add: toy_world_def toy_hello_def)
  with toy_hello have d: "aesDecrypt xor_cipher (replicate 16 2) (replicate 16 2) toy_hello =
      Inr [0x50, 2, 0xAB, 0xCD, 0xB1, 0x68, 0xFF, 0, 5, 0, 3]" by simp
  obtain x where "hello_out toy_env (replicate 16 2) (replicate 16 2) = Inr x" using toy_hello_out by blast
  then obtain r where "pc (fst (hs_resume toy_env hs (GotBytes toy_hello))) = Finished r"
    using p by (cases x) (simp add: hs_resume.simps after_hello_def env d toy_hello_parsed send_hello_def hello_out_def Let_def)
  then have "EmitHandshake r \<in> set (snd (session_step (g_env toy_opts 0) ?s Micro))"
    using wk t by (simp add: micro_def resume_handshake_def after_segment_def env Let_def)
  moreover have "heard 0 (snd (gateway_step toy_opts (w_gateway w) (OnSession 0 1 Micro))) =
      snd (session_step (g_env toy_opts 0) ?s Micro)"
    using session_event_sessions(3) [of 0 "w_gateway w" "g_env toy_opts" 0 1 Micro] n by (simp add: prod_eq_iff)
  ultimately show ?thesis by (auto simp: heard_mem gateway_runs_def split_beta)
qed

theorem process_authenticates_witness:
  "\<exists>i. isValidDeviceId i \<and> readFile one_key (canonical ''/keys'' i) = Inr ''DEVICE PEM'' \<and>
     (\<exists>r. r_coreId r = i \<and> FromSession 0 (EmitHandshake r) \<in> set (snd (plain_run (connecting @ [OfGateway (OnSession 0 1 Micro)]))))"
proof -
  let ?es = "connecting @ [OfGateway (OnSession 0 1 Micro)]"
  obtain w out where run: "plain_run ?es = (w, out)" by fastforce
  then have "set (snd (world_step plain_node ''/keys'' toy_opts (fst (plain_run connecting)) (OfGateway (OnSession 0 1 Micro)))) \<subseteq> set out"
    by (auto simp: run_append run_Cons)
  with hello_connects [OF connecting_hello] obtain r where r: "FromSession 0 (EmitHandshake r) \<in> set out" by blast
  from process_authenticates [OF run r refl] obtain pem where
    k: "isValidDeviceId (r_coreId r)" "readFile one_key (canonical ''/keys'' (r_coreId r)) = Inr pem" by blast
  then have "pem = ''DEVICE PEM''"
    by (auto simp: one_key_def readFile_def empty_fs_def split: if_splits)
  with k r run show ?thesis by auto
qed

end
