(* ===== verification/Process_Progress.thy ===== *)
theory Process_Progress
  imports Gateway_Process
begin

section \<open>No handshake waits in vain\<close>

text \<open>
  As long as no worker dies and the pool is not closed, what the process has to do for its sessions
  (tasks of the pool, file operations of the loader, continuations of handshakes) ends, with a
  bound, and ends with no session waiting for the pool or the loader. The measure \<open>to_do\<close> weighs
  what is under way and what the handshakes have still to ask.
\<close>

subsection \<open>The measure\<close>

fun is_service :: "world_event \<Rightarrow> bool" where
  "is_service (OfGateway e) \<longleftrightarrow> False"
| "is_service (OfPool l) \<longleftrightarrow> is_work l"
| "is_service (OfLoader n) \<longleftrightarrow> True"
| "is_service (Continue c now) \<longleftrightarrow> True"

text \<open>How many answers a handshake still awaits.\<close>

fun answers_left :: "hs_pc \<Rightarrow> nat" where
  "answers_left (AtDecrypt ct) = 4"
| "answers_left (AtCoreKey i der) = 3"
| "answers_left (AtEncrypt i pem) = 2"
| "answers_left (AtSign i ct) = 1"
| "answers_left _ = 0"

definition rank :: "session \<Rightarrow> nat" where
  "rank s = (case task s of InHandshake hs \<Rightarrow> answers_left (pc hs) | _ \<Rightarrow> 0)"

fun steps_left :: "loader_pc \<Rightarrow> nat" where
  "steps_left AtCall = 4"
| "steps_left AtReadFile = 3"
| "steps_left AtAccess = 2"
| "steps_left AtWriteFile = 1"
| "steps_left (Answered r) = 0"

definition file_work :: "loader list \<Rightarrow> nat" where
  "file_work ls = sum_list (map (\<lambda>l. steps_left (ld_pc l)) ls)"

definition cost :: "nat \<Rightarrow> ('pub, 'priv) world \<Rightarrow> nat" where
  "cost k w = work k (w_pool w) + file_work (snd (w_keys w))"

definition to_do :: "nat \<Rightarrow> ('pub, 'priv) world \<Rightarrow> nat" where
  "to_do k w = 5 * (\<Sum>c<length (conns (w_gateway w)). rank (session_of w c)) + cost k w"

lemma rank_bound: "rank s \<le> 4"
proof -
  have "answers_left p \<le> 4" for p by (cases p) simp_all
  then show ?thesis by (simp add: rank_def split: task.split)
qed

lemma file_work_bound: "file_work ls \<le> 4 * length ls"
proof -
  have "steps_left p \<le> 4" for p by (cases p) simp_all
  then show ?thesis by (induction ls) (simp_all add: file_work_def add_mono)
qed

text \<open>An answer brings a handshake forward.\<close>

lemma rank_settle:
  assumes "awaits_answer env s q" and "truthful node dir fs0 (Some q, r)"
  shows "rank (fst (settle env r s)) < rank s"
proof -
  from assms(1) obtain hs where hs: "task s = InHandshake hs" "asks (pc hs)" "awaited env (pc hs) = Some q"
    by (auto simp: awaits_answer_def)
  then have s: "settle env r s = after_segment env (hs_resume env hs r) s"
    by (cases "pc hs") (simp_all add: settle_def resume_handshake_def)
  have seg: "rank (fst (after_segment env seg s)) = answers_left (pc (fst seg))" for seg
  proof (cases "pc (fst seg)")
    case (Failed e)
    let ?s = "s\<lparr>task := InHandshake (fst seg), hs_progress := Some (prog (fst seg))\<rparr>"
    have "task (fst (run_catch e ?s)) = Ended"
      using fail_shuts [of "?s\<lparr>task := Ended, hs_error := Some e\<rparr>" e] by (simp add: run_catch_def Let_def shuts_def)
    with Failed show ?thesis by (simp add: after_segment_def Let_def split_beta rank_def)
  qed (simp_all add: after_segment_def Let_def rank_def adopt_def)
  have "answers_left (pc (fst (hs_resume env hs r))) < answers_left (pc hs)"
    using hs(2,3) assms(2)
    by (cases "pc hs"; cases r)
      (auto simp: hs_resume.simps hs_fail_def after_decrypt_def after_core_key_def after_sign_def set_stage_def Let_def
        split: option.splits sum.splits)
  with s seg hs(1) show ?thesis by (simp add: rank_def)
qed

subsection \<open>What a call costs\<close>

lemma work_pool_cong:
  "p_queue p = p_queue (the_pool s) \<Longrightarrow> work k (s\<lparr>the_pool := p\<rparr>) = work k s"
  by (simp add: work_def todo_of_def)

lemma call_work: "work k (w_pool (pool_event node (Crypto_Pool.Call c) w)) \<le> work k (w_pool w) + 3"
proof -
  let ?s = "w_pool w"
  obtain p fx where d: "pool_dispatch (task_of c) (the_pool ?s) = (p, fx)" by fastforce
  have e: "w_pool (pool_event node (Crypto_Pool.Call c) w) = deliver_posts fx (?s\<lparr>the_pool := p\<rparr>)"
    using d by (simp add: pool_event_def call_pool_task)
  consider (same) "p_queue p = p_queue (the_pool ?s)" "\<exists>n e. fx = [Refuse n e]"
    | (queued) m where "p_queue p = p_queue (the_pool ?s) @ [m]" "fx = []"
    | (posted) v m where "p_queue p = p_queue (the_pool ?s)" "fx = [PostMessage v m]"
    using d by (auto simp: pool_dispatch_def Let_def split: if_splits)
  then show ?thesis
  proof cases
    case same
    then show ?thesis using work_pool_cong [of p ?s k] by (auto simp: e)
  next
    case queued
    then show ?thesis by (simp add: e work_def todo_of_def)
  next
    case posted
    define t where "t = deliver_posts fx (?s\<lparr>the_pool := p\<rparr>)"
    have q: "p_queue (the_pool t) = p_queue (the_pool ?s)" using posted by (simp add: t_def)
    have o: "todo_of t u = todo_of ?s u" if "u \<noteq> v" for u using that posted(2) by (simp add: t_def todo_of_def)
    have v: "todo_of t v \<le> todo_of ?s v + 2" using posted(2) by (simp add: t_def todo_of_def)
    have "(\<Sum>u<k. todo_of t u) \<le> (\<Sum>u<k. todo_of ?s u) + 2"
    proof (cases "v < k")
      case True
      with sum_upd [of v k "todo_of t" "todo_of ?s"] o v show ?thesis by simp
    next
      case False
      with o have "(\<Sum>u<k. todo_of t u) = (\<Sum>u<k. todo_of ?s u)" by (intro sum.cong) auto
      then show ?thesis by simp
    qed
    then show ?thesis by (simp add: e work_def q flip: t_def)
  qed
qed

lemma loader_step_left:
  "steps_left (ld_pc (snd (loader_step dir fs l))) \<le> steps_left (ld_pc l)"
  "\<forall>r. ld_pc l \<noteq> Answered r \<Longrightarrow> steps_left (ld_pc (snd (loader_step dir fs l))) < steps_left (ld_pc l)"
  by (cases "ld_pc l"; auto simp: loader_eval split: sum.split)+

lemma file_work_update:
  "n < length ls \<Longrightarrow> file_work (ls[n := l]) + steps_left (ld_pc (ls ! n)) = file_work ls + steps_left (ld_pc l)"
proof (induction ls arbitrary: n)
  case (Cons x ls)
  then show ?case by (cases n) (auto simp: file_work_def)
qed simp

lemma loader_event_keys:
  "snd (w_keys (loader_event dir n w)) =
     (if n < length (snd (w_keys w))
      then (snd (w_keys w))[n := snd (loader_step dir (fst (w_keys w)) (snd (w_keys w) ! n))] else snd (w_keys w))"
  by (cases "w_keys w") (simp add: loader_event_def Let_def split_beta split: list.split)

lemma loader_event_work:
  "file_work (snd (w_keys (loader_event dir n w))) \<le> file_work (snd (w_keys w))"
  "n < length (snd (w_keys w)) \<Longrightarrow> \<forall>r. ld_pc (snd (w_keys w) ! n) \<noteq> Answered r \<Longrightarrow>
   file_work (snd (w_keys (loader_event dir n w))) < file_work (snd (w_keys w))"
proof -
  let ?ls = "snd (w_keys w)" and ?l = "snd (loader_step dir (fst (w_keys w)) (snd (w_keys w) ! n))"
  note u = file_work_update [of n ?ls ?l]
  note l = loader_step_left [where dir = dir and fs = "fst (w_keys w)" and l = "?ls ! n"]
  show "file_work (snd (w_keys (loader_event dir n w))) \<le> file_work ?ls"
    using u l(1) by (cases "n < length ?ls") (simp_all add: loader_event_keys)
  assume "n < length ?ls" and "\<forall>r. ld_pc (?ls ! n) \<noteq> Answered r"
  with u l(2) show "file_work (snd (w_keys (loader_event dir n w))) < file_work ?ls"
    by (simp add: loader_event_keys)
qed

lemma ask_cost: "cost k (ask node dir c q w) \<le> cost k w + 4"
proof -
  have pool: "cost k (pool_event node (Crypto_Pool.Call call) (w\<lparr>awaits := a\<rparr>)) \<le> cost k w + 4" for call a
    using call_work [of k node call "w\<lparr>awaits := a\<rparr>"] by (simp add: cost_def)
  show ?thesis
  proof (cases q)
    case (LoadCoreKey i der)
    let ?n = "length (snd (w_keys w))"
    let ?w = "w\<lparr>w_keys := fst (keys_step dir (w_keys w) (Core_Keys.Call i der)), awaits := (awaits w)(c \<mapsto> KeyPromise ?n)\<rparr>"
    have a: "ask node dir c q w = loader_event dir ?n ?w" by (simp add: LoadCoreKey Let_def)
    have "file_work (snd (w_keys ?w)) = file_work (snd (w_keys w)) + 4" by (cases "w_keys w") (simp add: file_work_def)
    with loader_event_work(1) [of dir ?n ?w] show ?thesis unfolding a by (simp add: cost_def)
  qed (use pool in simp_all)
qed

lemma make_calls_cost:
  assumes "\<forall>d. d \<noteq> c \<longrightarrow> heard d out = []"
  shows "cost k (make_calls node dir out w) \<le> cost k w + 4 * length (asks_in (heard c out))"
  using assms
proof (induction out arbitrary: w)
  case (Cons e out)
  show ?case
  proof (cases "\<exists>d q. e = FromSession d (Ask q)")
    case True
    then obtain d q where e: "e = FromSession d (Ask q)" by blast
    have "d = c" using Cons.prems by (cases "d = c") (auto simp: e dest: spec [of _ d])
    moreover have "\<forall>d. d \<noteq> c \<longrightarrow> heard d out = []" using Cons.prems by (auto simp: e split: if_splits)
    ultimately show ?thesis using Cons.IH [of "ask node dir c q w"] ask_cost [of k node dir c q w] by (simp add: e)
  next
    case False
    note n = no_call [OF False]
    have h: "heard d (e # out) = heard d [e] @ heard d out" for d using heard_append [of d "[e]" out] by simp
    have "\<forall>d. d \<noteq> c \<longrightarrow> heard d out = []" using Cons.prems by (auto simp: h)
    from Cons.IH [OF this] show ?thesis using n(2) [of c] by (simp add: n(1) h)
  qed
qed simp

lemma ask_gateway: "w_gateway (ask node dir c q w) = w_gateway w"
  by (cases q) (simp_all add: Let_def)

lemma make_calls_gateway: "w_gateway (make_calls node dir out w) = w_gateway w"
  by (induction node dir out w rule: make_calls.induct) (simp_all add: ask_gateway)

subsection \<open>Every step for the sessions counts\<close>

lemma continue_cost:
  assumes "linked node k dir fs0 opts got ls fx w out" and "awaits w c = Some p" and "settlement w p = Some r"
  shows "to_do k (fst (world_step node dir opts w (Continue c now))) < to_do k w"
proof -
  let ?n = "length (conns (w_gateway w))" and ?env = "g_env opts c" and ?s = "session_of w c"
  let ?w = "w\<lparr>awaits := (awaits w)(c := None)\<rparr>"
  from assms(1) have parts: "pool_part node k ls fx w" "keys_part dir fs0 w" by (simp_all add: linked_def services_def)
  have c: "c < ?n" using assms(1,2) by (cases "c < ?n") (auto simp: linked_def)
  with assms(1) have "waits opts (Pool_Accounts.asked ls) w c" by (simp add: linked_def)
  with assms(2) obtain q where q: "awaits_answer ?env ?s q"
    "promise_for (Pool_Accounts.asked ls) (snd (w_keys w)) p q" by (auto simp: waits_def)
  have rank: "rank (fst (settle ?env r ?s)) < rank ?s"
    by (rule rank_settle [OF q(1) promise_truth [OF parts assms(3) q(2)]])
  obtain g o1 where g: "gateway_step opts (w_gateway w) (OnSession c now (Settle r)) = (g, o1)" by fastforce
  then have ev: "session_event (g_env opts) c now (Settle r) (w_gateway w) = (g, o1)" by simp
  note s = session_event_sessions [OF _ ev]
  have hd: "heard d o1 = []" if "d \<noteq> c" for d
    using that s(3) [of d] gateway_conns [OF g] by (cases "d < ?n") auto
  have one: "length (asks_in (heard c o1)) \<le> 1" using settle_asks [OF q(1), of r] s(3) [OF c] by auto
  have new: "length (conns g) = ?n" "\<And>d. d < ?n \<Longrightarrow> d \<noteq> c \<Longrightarrow> c_session (conns g ! d) = session_of w d"
    "c_session (conns g ! c) = fst (settle ?env r ?s)" using s(1,2) c by auto
  have step: "fst (world_step node dir opts w (Continue c now)) = make_calls node dir o1 (?w\<lparr>w_gateway := g\<rparr>)"
    using assms(2,3) g by (simp add: gateway_runs_def)
  have "cost k (make_calls node dir o1 (?w\<lparr>w_gateway := g\<rparr>)) \<le> cost k w + 4"
    using make_calls_cost [of c o1 k node dir "?w\<lparr>w_gateway := g\<rparr>"] hd one by (simp add: cost_def)
  moreover have "(\<Sum>d<?n. rank (c_session (conns g ! d))) =
      (\<Sum>d<?n. if d = c then rank (c_session (conns g ! c)) else rank (session_of w d))"
    by (intro sum.cong) (auto simp: new(2))
  moreover have "(\<Sum>d<?n. if d = c then rank (c_session (conns g ! c)) else rank (session_of w d)) + rank ?s =
      (\<Sum>d<?n. rank (session_of w d)) + rank (c_session (conns g ! c))"
    using sum_upd [OF c, of "\<lambda>d. if d = c then rank (c_session (conns g ! c)) else rank (session_of w d)"
      "\<lambda>d. rank (session_of w d)"] by simp
  ultimately show ?thesis unfolding step to_do_def using rank new(1,3) by (simp add: make_calls_gateway)
qed

lemma pool_part_loads: "pool_part node k ls fx w \<Longrightarrow> loads_ok k (w_pool w)"
  using run_scheduled [of node k ls fx "w_pool w"] by (simp add: pool_part_def scheduled_def)

lemma pool_event_work:
  assumes "pool_part node k ls fx w" and "is_work l"
  shows "pool_event node l w = w \<or> work k (w_pool (pool_event node l w)) < work k (w_pool w)"
proof (cases "pool_exec node (w_pool w) l")
  case (Some r)
  then obtain gx s where r: "pool_exec node (w_pool w) l = Some (gx, s)" by (cases r) simp
  then have "pool_step node (w_pool w) l gx s" by (simp add: pool_step_exec)
  from work_decreases [OF this assms(2) pool_part_loads [OF assms(1)]] show ?thesis
    using r by (simp add: pool_event_def)
qed (simp add: pool_event_none)

lemma loader_event_idle:
  assumes "n < length (snd (w_keys w)) \<longrightarrow> (\<exists>r. ld_pc (snd (w_keys w) ! n) = Answered r)"
  shows "loader_event dir n w = w"
  using assms by (cases "w_keys w") (auto simp: loader_event_def loader_step_def given_def)

lemma service_cost:
  assumes "linked node k dir fs0 opts got ls fx w out" and "is_service e"
  shows "fst (world_step node dir opts w e) = w \<or> to_do k (fst (world_step node dir opts w e)) < to_do k w"
proof (cases e)
  case (OfPool l)
  from assms(1) have "pool_part node k ls fx w" by (simp add: linked_def services_def)
  from pool_event_work [OF this, of l] assms(2) OfPool show ?thesis by (auto simp: to_do_def cost_def)
next
  case (OfLoader n)
  with loader_event_work(2) [of n w dir] loader_event_idle [of n w dir] show ?thesis by (auto simp: to_do_def cost_def)
next
  case (Continue c now)
  show ?thesis
  proof (cases "\<exists>p r. awaits w c = Some p \<and> settlement w p = Some r")
    case True
    with continue_cost [OF assms(1)] Continue show ?thesis by blast
  qed (use Continue in \<open>auto split: option.splits\<close>)
qed (use assms(2) in simp)

subsection \<open>And some step is always possible\<close>

text \<open>No worker dies and the host does not close the pool.\<close>

fun undisturbed :: "world_event \<Rightarrow> bool" where
  "undisturbed (OfPool (Die v e)) \<longleftrightarrow> False"
| "undisturbed (OfPool Close) \<longleftrightarrow> False"
| "undisturbed _ \<longleftrightarrow> True"

lemma service_undisturbed: "is_service e \<Longrightarrow> undisturbed e"
  by (cases e rule: undisturbed.cases) simp_all

lemma known_healthy: "known es ls \<Longrightarrow> list_all undisturbed es \<Longrightarrow> healthy ls \<and> Close \<notin> set ls"
proof -
  assume k: "known es ls" and u: "list_all undisturbed es"
  have "\<not> is_die l \<and> l \<noteq> Close" if "l \<in> set ls" for l
    using k u that by (cases l) (auto simp: known_def list_all_iff dest!: bspec)
  then show ?thesis by (auto simp: healthy_def list_all_iff)
qed

lemma stuck_served:
  assumes "informative node" and "0 < k" and linked: "linked node k dir fs0 opts got ls fx w out"
    and "healthy ls" and "Close \<notin> set ls"
    and stuck: "\<And>e. is_service e \<Longrightarrow> fst (world_step node dir opts w e) = w" and "c < length (conns (w_gateway w))"
  shows "\<not> awaits_answer (g_env opts c) (session_of w c) q"
proof
  assume "awaits_answer (g_env opts c) (session_of w c) q"
  moreover from linked assms(7) have "waits opts (Pool_Accounts.asked ls) w c" by (simp add: linked_def)
  ultimately obtain p q' where p: "awaits w c = Some p" "promise_for (Pool_Accounts.asked ls) (snd (w_keys w)) p q'"
    by (auto simp: waits_def split: option.splits)
  from linked have parts: "pool_part node k ls fx w" "keys_part dir fs0 w" by (simp_all add: linked_def services_def)
  have "\<exists>r. settlement w p = Some r"
  proof (cases p)
    case (PoolPromise n)
    have "\<not> pool_step node (w_pool w) l gx s" if "is_work l" for l gx s
    proof
      assume st: "pool_step node (w_pool w) l gx s"
      from work_decreases [OF st that pool_part_loads [OF parts(1)]] have "s \<noteq> w_pool w" by auto
      moreover have "w_pool (pool_event node l w) = s" using st by (simp add: pool_event_def pool_step_exec)
      ultimately show False using stuck [of "OfPool l"] that by auto
    qed
    with stuck_settled [OF assms(1,2) _ assms(4,5)] parts(1)
    have "\<forall>n<length (Pool_Accounts.asked ls). settled n fx = 1" by (auto simp: pool_part_def)
    with p(2) parts(1) PoolPromise show ?thesis by (auto simp: pool_part_def)
  next
    case (KeyPromise n)
    with p(2) have n: "n < length (snd (w_keys w))" by simp
    have "loader_event dir n w = w" using stuck [of "OfLoader n"] by simp
    with loader_event_work(2) [OF n, of dir] obtain r where "ld_pc (snd (w_keys w) ! n) = Answered r" by auto
    with parts(2) n KeyPromise show ?thesis by (auto simp: keys_part_def told_key_def dest: spec [of _ n])
  qed
  then obtain r where "settlement w p = Some r" ..
  from continue_cost [OF linked p(1) this, of 0] stuck [of "Continue c 0"] show False by simp
qed

subsection \<open>The process serves its sessions\<close>

text \<open>Steps for the sessions, each of which does something.\<close>

fun serves ::
    "('pub, 'priv) node_crypto \<Rightarrow> string \<Rightarrow> gateway_opts \<Rightarrow> ('pub, 'priv) world \<Rightarrow> world_event list \<Rightarrow> bool" where
  "serves node dir opts w [] \<longleftrightarrow> True"
| "serves node dir opts w (e # es) \<longleftrightarrow>
     is_service e \<and> fst (world_step node dir opts w e) \<noteq> w \<and>
     serves node dir opts (fst (world_step node dir opts w e)) es"

text \<open>No session waits for the pool or the loader.\<close>

definition all_served :: "gateway_opts \<Rightarrow> ('pub, 'priv) world \<Rightarrow> bool" where
  "all_served opts w \<longleftrightarrow>
     (\<forall>c<length (conns (w_gateway w)). \<forall>q. \<not> awaits_answer (g_env opts c) (session_of w c) q)"

lemma serves_length:
  assumes "linked node k dir fs0 opts got ls fx w out" and "known es ls" and "serves node dir opts w ss"
  shows "length ss + to_do k (fst (run (world_step node dir opts) w ss)) \<le> to_do k w"
  using assms
proof (induction ss arbitrary: got ls fx w out es)
  case (Cons e ss)
  obtain w1 o1 where s: "world_step node dir opts w e = (w1, o1)" by fastforce
  from world_step_linked [OF Cons.prems(1) s] obtain ls1 fx1 where 1: "labelled ls e ls1"
    "linked node k dir fs0 opts (\<lambda>c. got c @ brought w e c) ls1 fx1 w1 (out @ o1)" by blast
  from Cons.IH [OF 1(2) known_step [OF Cons.prems(2) 1(1)]] Cons.prems(3) service_cost [OF Cons.prems(1), of e]
  show ?case by (auto simp: run_Cons s)
qed simp

lemma serves_exists:
  assumes "informative node" and "0 < k" and "linked node k dir fs0 opts got ls fx w out" and "known es ls"
    and "list_all undisturbed es"
  shows "\<exists>ss. serves node dir opts w ss \<and> all_served opts (fst (run (world_step node dir opts) w ss))"
  using assms(3-5)
proof (induction "to_do k w" arbitrary: got ls fx w out es rule: less_induct)
  case less
  show ?case
  proof (cases "all_served opts w")
    case True
    then show ?thesis by (intro exI [of _ "[]"]) simp
  next
    case False
    with stuck_served [OF assms(1,2) less.prems(1)] known_healthy [OF less.prems(2,3)] obtain e where
      e: "is_service e" "fst (world_step node dir opts w e) \<noteq> w" unfolding all_served_def by blast
    obtain w1 o1 where s: "world_step node dir opts w e = (w1, o1)" by fastforce
    from world_step_linked [OF less.prems(1) s] obtain ls1 fx1 where 1: "labelled ls e ls1"
      "linked node k dir fs0 opts (\<lambda>c. got c @ brought w e c) ls1 fx1 w1 (out @ o1)" by blast
    have "to_do k w1 < to_do k w" using service_cost [OF less.prems(1) e(1)] e(2) s by auto
    moreover have "list_all undisturbed (es @ [e])" using less.prems(3) service_undisturbed [OF e(1)] by simp
    ultimately obtain ss where "serves node dir opts w1 ss" "all_served opts (fst (run (world_step node dir opts) w1 ss))"
      using less.hyps 1(2) known_step [OF less.prems(2) 1(1)] by blast
    with e s show ?thesis by (intro exI [of _ "e # ss"]) (simp add: run_Cons)
  qed
qed

lemma to_do_bound:
  assumes "linked node k dir fs0 opts got ls fx w out" and "known es ls" and "list_all undisturbed es"
  shows "to_do k w \<le> 20 * length (conns (w_gateway w)) + 3 * length (p_pending (the_pool (w_pool w))) +
           4 * length (snd (w_keys w))"
proof -
  let ?n = "length (conns (w_gateway w))"
  have "(\<Sum>c<?n. rank (session_of w c)) \<le> of_nat (card {..<?n}) * 4"
    by (rule sum_bounded_above) (rule rank_bound)
  then have "(\<Sum>c<?n. rank (session_of w c)) \<le> 4 * ?n" by simp
  moreover have "pool_run node (new_system k) ls fx (w_pool w)"
    using assms(1) by (simp add: linked_def services_def pool_part_def)
  from work_pending [OF this] known_healthy [OF assms(2,3)]
  have "work k (w_pool w) \<le> 3 * length (p_pending (the_pool (w_pool w)))" by blast
  ultimately show ?thesis
    using file_work_bound [of "snd (w_keys w)"] unfolding to_do_def cost_def by linarith
qed

text \<open>C7. No handshake waits in vain: in any state that the process reaches without the death of a worker
  or the closing of the pool, the steps that serve its sessions (a worker serves a task, a reply is
  delivered, a file operation completes, a handshake continues with its answer) are at most 20 for
  each connection, 3 for each pending task and 4 for each loader call, in whatever order they
  come; when none of them does anything any more, no handshake waits for the pool or the loader; and
  there are such steps that lead there. Nothing but the device can then keep a handshake waiting.
\<close>

theorem process_serves:
  assumes "informative node" and "0 < k" and "run (world_step node dir opts) (new_world k fs0) es = (w, out)"
    and "list_all undisturbed es"
  shows "(\<forall>ss. serves node dir opts w ss \<longrightarrow>
            length ss \<le> 20 * length (conns (w_gateway w)) + 3 * length (p_pending (the_pool (w_pool w))) +
                        4 * length (snd (w_keys w)) \<and>
            ((\<forall>e. is_service e \<longrightarrow> \<not> serves node dir opts w (ss @ [e])) \<longrightarrow>
               all_served opts (fst (run (world_step node dir opts) w ss)))) \<and>
         (\<exists>ss. serves node dir opts w ss \<and> all_served opts (fst (run (world_step node dir opts) w ss)))"
proof -
  obtain ls fx where l: "known es ls" "linked node k dir fs0 opts (socket_bytes node dir opts (new_world k fs0) es) ls fx w out"
    using world_linked [OF assms(3)] by blast
  have last: "serves node dir opts v (ss @ [e]) \<longleftrightarrow> serves node dir opts v ss \<and> is_service e \<and>
      fst (world_step node dir opts (fst (run (world_step node dir opts) v ss)) e) \<noteq> fst (run (world_step node dir opts) v ss)"
    for v ss e by (induction ss arbitrary: v) (auto simp: run_Cons)
  have services: "list_all undisturbed ss" if "serves node dir opts v ss" for v ss
    using that by (induction ss arbitrary: v) (auto intro: service_undisturbed)
  have "all_served opts (fst (run (world_step node dir opts) w ss))"
    if s: "serves node dir opts w ss" and stuck: "\<forall>e. is_service e \<longrightarrow> \<not> serves node dir opts w (ss @ [e])" for ss
  proof -
    obtain ls' fx' where l': "known (es @ ss) ls'" "linked node k dir fs0 opts
        (\<lambda>c. socket_bytes node dir opts (new_world k fs0) es c @ socket_bytes node dir opts w ss c) ls' fx'
        (fst (run (world_step node dir opts) w ss)) (out @ snd (run (world_step node dir opts) w ss))"
      using world_run_linked [OF l(2,1), of ss] by blast
    have "list_all undisturbed (es @ ss)" using assms(4) services [OF s] by simp
    from known_healthy [OF l'(1) this] stuck_served [OF assms(1,2) l'(2)] stuck s
    show ?thesis unfolding all_served_def last by blast
  qed
  moreover have "length ss \<le> 20 * length (conns (w_gateway w)) + 3 * length (p_pending (the_pool (w_pool w))) +
      4 * length (snd (w_keys w))" if "serves node dir opts w ss" for ss
    using serves_length [OF l(2,1) that] to_do_bound [OF l(2,1) assms(4)] by linarith
  ultimately show ?thesis using serves_exists [OF assms(1,2) l(2,1) assms(4)] by blast
qed

lemma plain_informative: "informative plain_node"
  by (auto simp: informative_def serve_def plain_node_def load_pub_def load_priv_def loadPublicKey_def
      loadPrivateKey_def rsaEncrypt_def rsaDecrypt_def rsaSign_def bindE_Inl_iff Let_def split: if_splits option.splits)

text \<open>A device whose first message has just arrived.\<close>

lemma first_message: "rank (session_of (fst (plain_run (take 3 connecting))) 0) = 4"
  by code_simp

theorem process_serves_witness:
  "rank (session_of (fst (plain_run (take 3 connecting))) 0) = 4 \<and>
   (\<exists>ss. serves plain_node ''/keys'' toy_opts (fst (plain_run (take 3 connecting))) ss \<and>
     all_served toy_opts (fst (run (world_step plain_node ''/keys'' toy_opts) (fst (plain_run (take 3 connecting))) ss)))"
proof -
  obtain w out where run: "plain_run (take 3 connecting) = (w, out)" by fastforce
  have "list_all undisturbed (take 3 connecting)" by (simp add: connecting_def)
  with process_serves [OF plain_informative _ run] run first_message show ?thesis by auto
qed

end
