(* ===== verification/Spec2Isabelle.thy ===== *)
theory Spec2Isabelle
  imports Handshake_Agreement Session_Life Session_Requests Session_Messages Conversation
    Session_Input Session_Tokens Session_Connects Chunking Gateway_Failures Process_Progress
begin

text \<open>
  \<^bold>\<open>The device gateway of spark-protocol-synergy.\<close> The program is the server side of the protocol that
  Particle Photons speak: a TCP listener, a handshake that authenticates the device by its RSA key,
  and an AES session that carries CoAP messages. All of \<open>lib/\<close> is modelled, component by component,
  as executable functions; the theorems are about these functions. The ids C1, C2 and so on number the
  properties in the order of their importance.

  \<^bold>\<open>How the parts interact.\<close> The gateway (\<open>server.js\<close>) creates one session per socket and listens to
  its events. A session (\<open>session.js\<close>) buffers the socket's bytes in a queue, runs the handshake
  (\<open>handshake.js\<close>) over it, then opens the frames that arrive (\<open>crypto.js\<close>, \<open>chunking.js\<close>), decodes
  them (\<open>coap.js\<close>), names them (\<open>messages.js\<close>) and resolves requests or emits messages; what it sends
  goes the other way. The handshake asks the crypto pool (\<open>crypto-pool.js\<close>) for its RSA operations,
  which workers (\<open>crypto-worker.js\<close>) carry out, and the key loader (\<open>core-keys.js\<close>) for the device's key.

  \<^bold>\<open>Theories and sources.\<close>
  \<^item> \<open>Prelude\<close>: bytes, buffers and their range errors, JavaScript errors and numbers, association
    lists; the lemma collections the other theories share. \<open>Utf8\<close>: the decoder of \<open>Buffer.toString\<close>.
    \<open>Machine\<close>: runs of an event-driven object; its locale turns an invariant of steps into one of runs,
    and is interpreted for the byte queue, the handshake, the key loader and the worker.
  \<^item> \<open>Coap\<close> is \<open>lib/coap.js\<close>: \<open>encode\<close>, \<open>decode\<close>, \<open>uriPath\<close>, \<open>uriQuery\<close>. Round trips in both
    directions, bounds of decoded messages, and what decoding accepts beyond encodings.
  \<^item> \<open>Messages\<close> is \<open>lib/messages.js\<close>: the table row by row, and \<open>classify\<close> in full.
  \<^item> \<open>Chunking\<close> is \<open>lib/chunking.js\<close>: framing and the \<open>FrameReader\<close>, which delivers the framed
    payloads however the stream is cut.
  \<^item> \<open>Crypto\<close> is \<open>lib/crypto.js\<close>: CBC, padding, key derivation, and the RSA wrappers over \<open>node_rsa\<close>.
    \<open>Aes\<close> and \<open>Sha1\<close> are what Node computes for it: AES-128 with its inverse, and HMAC-SHA1 (\<open>hmacSha1\<close>),
    each checked against a vector of its standard.
  \<^item> \<open>Handshake\<close> is \<open>lib/handshake.js\<close>: the state is the suspended function (\<open>hs_state\<close>: the await it
    stands at, and the progress object); \<open>hs_resume\<close> takes the reply to the next await. It refines the
    straight-line reading, authenticates and writes nothing before the checks that
    guard it. \<open>Handshake_Agreement\<close> runs it against the device of \<open>test/handshake.test.js\<close>.
  \<^item> \<open>Byte_Queue\<close> and \<open>Session\<close> are \<open>lib/session.js\<close>: the record \<open>session\<close> has the object's fields, a
    step is one event (a call, a chunk of data, a timer, a settled promise, a continuation).
    \<open>Session_Life\<close> counts \<open>close\<close> events, \<open>Session_Requests\<close> settlements, \<open>Session_Frames\<close> shows that a
    session reads the frames that a reference parser finds in its input, \<open>Session_Channel\<close>
    that both directions of the rolling-IV channel deliver the plaintexts in order, under every
    interleaving, \<open>Session_Messages\<close> what one message does end to end, and the cases that go wrong,
    \<open>Session_Tokens\<close> when the tables of the requests agree, so that a response finds its request.
    \<open>Session_Opening\<close> follows the stream through the reads of the handshake; \<open>Session_Input\<close> shows what
    becomes of every frame received, and \<open>Session_Whole\<close> states the inbound channel from the first byte
    of a connection on. \<open>Session_Exchange\<close> shows that a session which connects has run \<open>runHandshake\<close> on
    the answers to its six questions, so that \<open>Session_Course\<close> states the outbound side from the first
    byte on, and \<open>Session_Connects\<close> that a handshake which can succeed does, if nothing breaks the
    connection. \<open>Session_Health\<close> is the invariant that the gateway relies on.
  \<^item> \<open>Conversation\<close> puts these together, for a device that follows the protocol and a session with
    Node's primitives (\<open>node_env\<close>). Its locale \<open>block_pair\<close> is what the proofs use of the cipher; it is
    interpreted for AES-128.
  \<^item> \<open>Core_Keys\<close> is \<open>lib/core-keys.js\<close>: loader calls as steps over a file system, so they interleave.
  \<^item> \<open>Crypto_Worker\<close> is \<open>lib/crypto-worker.js\<close>: the caches of keys, with the locale \<open>key_cache\<close>
    (interpreted for the public and the private cache), are transparent and LRU.
  \<^item> \<open>Crypto_Pool\<close> is \<open>lib/crypto-pool.js\<close>: the pool's methods, and the relation \<open>pool_step\<close> of pool and
    workers with the messages in flight. \<open>Pool_Accounts\<close>: nothing is settled twice. \<open>Pool_Answers\<close>:
    with its own answer only. \<open>Pool_Schedule\<close>: order and load. \<open>Pool_Progress\<close>: everything is
    settled, and what the death of a worker costs.
  \<^item> \<open>Gateway\<close> is \<open>lib/server.js\<close>: the gateway's record holds the sessions themselves, so one event
    of a session runs through the listeners attached to it. \<open>Gateway_Reports\<close> shows that the gateway
    mirrors its sessions, and reports each once; \<open>Gateway_Failures\<close> that a handshake that fails is
    reported in the same step, under the class of its cause; \<open>Gateway_Registry\<close> what the host's
    registry holds, for every object that keeps the contract of \<open>Usage.md\<close> (\<open>device_registry\<close>).
  \<^item> \<open>Gateway_World\<close> is the whole process: the gateway with its sessions, the pool with its workers, the
    loader's calls, and the promises between them, which \<open>ask\<close> makes where \<open>run\<close> of \<open>lib/session.js\<close>
    hands \<open>crypto\<close> and \<open>loadCoreKey\<close> to \<open>runHandshake\<close>. \<open>Session_Asks\<close> shows that a session waits for the
    last call it made; \<open>World_Links\<close> and \<open>World_Runs\<close> carry the invariant that every promise is that of
    the call and is settled truly; \<open>Gateway_Process\<close> has the authentication theorem of the process, and
    \<open>Process_Progress\<close> that no handshake waits for the pool or the loader in vain.

  \<^bold>\<open>Errors and effects.\<close> What throws or rejects returns \<open>Inl\<close> of a \<open>js_error\<close>. Writes to sockets,
  emitted events and settled promises are lists of effects in their order.

  \<^bold>\<open>Bounds and termination.\<close> Integers are kept as the code has them: bytes as words, numbers as \<open>int\<close>
  with the explicit masks of the source, or \<open>NaN\<close> where an out-of-range read makes one. No definition
  uses fuel: loops are structural, or come with a measure (the bytes left to read). The caches hold
  \<open>LRU_MAX\<close> = 64 keys. Each pending call of the pool takes at most three steps of its worker, each
  call of the loader four, and each handshake asks at most four times, which bounds the work of the process.

  \<^bold>\<open>Parameters.\<close> RSA on key objects (\<open>node_rsa\<close>; \<open>key_pair\<close> where the keys of two sides must match) and
  the parsing of keys come from Node, as do the random bytes. Most theorems hold for every block
  cipher whose decryption undoes its encryption on 16-byte blocks (\<open>block_cipher\<close>); \<open>aes128\<close> is one,
  and \<open>Conversation\<close> is stated for it. The witnesses instantiate the parameters with concrete
  functions. The device registry is not part of the repository: registering is an effect, and
  \<open>device_registry\<close> is its contract.

  \<^bold>\<open>Not modelled.\<close> \<open>index.js\<close> only re-exports. Timers fire or do not fire; durations, the idle limit
  and the clock are the runtime's. Sockets deliver chunks and events in any order. The files of
  keys change by the loader only while the process runs.
  Listeners of the host are taken not to throw and to call back through
  events of their own.
\<close>

end
